(* ===== verification/TPX_Prelude.thy ===== *)
theory TPX_Prelude
  imports Main "HOL-Library.Word" "HOL-Library.AList" "HOL-Library.List_Lexorder"
begin

unbundle bit_operations_syntax

text \<open>
  Shared vocabulary of the development: the machine types of the Rust code, the
  propagation of errors (the question mark operator), little-endian encodings of
  words, reads through a cursor, and the list facts that several components use.

  A \<open>usize\<close> is a \<open>nat\<close> (lengths and offsets of in-memory buffers); every integer
  with a fixed width that is stored, hashed or may wrap is a word of that width. A Rust
  \<open>String\<close> is the list of its UTF-8 bytes. A \<open>HashMap\<close> is an association list with
  distinct keys, updated by \<open>AList.update\<close>; its list order stands for the map's iteration
  order, and properties are stated so that they do not depend on it unless they say so.
\<close>

section \<open>Machine types\<close>

type_synonym u8 = "8 word"
type_synonym u16 = "16 word"
type_synonym u32 = "32 word"
type_synonym u64 = "64 word"
type_synonym u128 = "128 word"
type_synonym bytes = "u8 list"
type_synonym ('k, 'v) hash_map = "('k \<times> 'v) list"

text \<open>Serialised-length facts and decode-after-encode facts are collected by name.\<close>

named_theorems ser_len "lengths of serialised values"
named_theorems rt_simps "decoding what was just encoded"

section \<open>Errors as values\<close>

definition bindR :: "'e + 'a \<Rightarrow> ('a \<Rightarrow> 'e + 'b) \<Rightarrow> 'e + 'b" where
  "bindR m f = (case m of Inl e \<Rightarrow> Inl e | Inr x \<Rightarrow> f x)"

lemma bindR_Inl [simp]: "bindR (Inl e) f = Inl e"
  by (simp add: bindR_def)

lemma bindR_Inr [simp]: "bindR (Inr x) f = f x"
  by (simp add: bindR_def)

lemma bindR_eq_Inr [simp]: "bindR m f = Inr y \<longleftrightarrow> (\<exists>x. m = Inr x \<and> f x = Inr y)"
  by (cases m) auto

lemma bindR_cong [fundef_cong]:
  "m = m' \<Longrightarrow> (\<And>x. m' = Inr x \<Longrightarrow> f x = f' x) \<Longrightarrow> bindR m f = bindR m' f'"
  by (cases m') auto

lemma bindR_assoc: "bindR (bindR m f) g = bindR m (\<lambda>x. bindR (f x) g)"
  by (cases m) auto

section \<open>Text\<close>

text \<open>A string literal as its bytes.\<close>

definition str :: "string \<Rightarrow> bytes" where
  "str s = map of_char s"

text \<open>
  The validity check of \<open>String::from_utf8\<close>: the well-formed byte sequences of UTF-8,
  without overlong forms, surrogates and code points above 10FFFF.
\<close>

definition utf8_cont :: "u8 \<Rightarrow> bool" where
  "utf8_cont b \<longleftrightarrow> 0x80 \<le> b \<and> b \<le> 0xBF"

fun utf8_valid :: "bytes \<Rightarrow> bool" where
  "utf8_valid [] = True"
| "utf8_valid (a # r) =
     (if a < 0x80 then utf8_valid r
      else if 0xC2 \<le> a \<and> a \<le> 0xDF then
        (case r of b # r' \<Rightarrow> utf8_cont b \<and> utf8_valid r' | _ \<Rightarrow> False)
      else if 0xE0 \<le> a \<and> a \<le> 0xEF then
        (case r of b # c # r' \<Rightarrow>
           (if a = 0xE0 then 0xA0 \<le> b \<and> b \<le> 0xBF
            else if a = 0xED then 0x80 \<le> b \<and> b \<le> 0x9F else utf8_cont b)
           \<and> utf8_cont c \<and> utf8_valid r' | _ \<Rightarrow> False)
      else if 0xF0 \<le> a \<and> a \<le> 0xF4 then
        (case r of b # c # d # r' \<Rightarrow>
           (if a = 0xF0 then 0x90 \<le> b \<and> b \<le> 0xBF
            else if a = 0xF4 then 0x80 \<le> b \<and> b \<le> 0x8F else utf8_cont b)
           \<and> utf8_cont c \<and> utf8_cont d \<and> utf8_valid r' | _ \<Rightarrow> False)
      else False)"

declare utf8_valid.simps(2) [simp del]

lemma utf8_valid_ascii: "\<forall>b \<in> set bs. b < 0x80 \<Longrightarrow> utf8_valid bs"
  by (induction bs) (simp_all add: utf8_valid.simps(2))

section \<open>Little-endian words\<close>

definition le_bytes :: "nat \<Rightarrow> 'a::len word \<Rightarrow> bytes" where
  "le_bytes n w = map (\<lambda>i. ucast (drop_bit (8 * i) w)) [0..<n]"

fun of_le :: "bytes \<Rightarrow> 'a::len word" where
  "of_le [] = 0"
| "of_le (b # bs) = ucast b OR push_bit 8 (of_le bs)"

lemma length_le_bytes [simp, ser_len]: "length (le_bytes n w) = n"
  by (simp add: le_bytes_def)

lemma bit_of_le:
  fixes i :: nat
  assumes "i < LENGTH('a::len)"
  shows "bit (of_le bs :: 'a word) i \<longleftrightarrow> i div 8 < length bs \<and> bit (bs ! (i div 8)) (i mod 8)"
  using assms
proof (induction bs arbitrary: i)
  case Nil
  then show ?case by simp
next
  case (Cons b bs)
  show ?case
  proof (cases "i < 8")
    case True
    then show ?thesis using Cons.prems
      by (auto simp: bit_or_iff bit_push_bit_iff bit_ucast_iff)
  next
    case False
    then have "i div 8 = Suc ((i - 8) div 8)" "i mod 8 = (i - 8) mod 8"
      by (simp_all add: le_div_geq le_mod_geq)
    moreover have "\<not> bit b i"
      using False by (auto dest: bit_imp_le_length)
    ultimately show ?thesis using Cons.prems False Cons.IH [of "i - 8"]
      by (auto simp: bit_or_iff bit_push_bit_iff bit_ucast_iff)
  qed
qed

lemma of_le_le_bytes:
  assumes "LENGTH('a::len) \<le> 8 * n"
  shows "of_le (le_bytes n (w :: 'a word)) = w"
proof (rule bit_word_eqI)
  fix i assume i: "i < LENGTH('a)"
  with assms have "i div 8 < n" by auto
  moreover have "8 * (i div 8) + i mod 8 = i" by simp
  moreover have "i mod 8 \<le> 7" by simp
  ultimately show "bit (of_le (le_bytes n w) :: 'a word) i = bit w i"
    using i by (simp add: bit_of_le le_bytes_def bit_ucast_iff bit_drop_bit_eq add.commute)
qed

lemma of_le_le_bytes_widths [simp, rt_simps]:
  "of_le (le_bytes 1 (a :: u8)) = a"
  "of_le (le_bytes 2 (b :: u16)) = b"
  "of_le (le_bytes 4 (c :: u32)) = c"
  "of_le (le_bytes 8 (d :: u64)) = d"
  by (rule of_le_le_bytes; simp)+

lemma le_bytes_of_le:
  assumes "length bs = n" and "8 * n \<le> LENGTH('a::len)"
  shows "le_bytes n (of_le bs :: 'a word) = bs"
proof (rule nth_equalityI)
  show "length (le_bytes n (of_le bs :: 'a word)) = length bs" using assms by simp
next
  fix j assume "j < length (le_bytes n (of_le bs :: 'a word))"
  then have j: "j < n" by simp
  show "le_bytes n (of_le bs :: 'a word) ! j = bs ! j"
  proof (rule bit_word_eqI)
    fix i assume i: "i < LENGTH(8)"
    then have "8 * j + i < LENGTH('a)" "(8 * j + i) div 8 = j" "(8 * j + i) mod 8 = i"
      using j assms by auto
    then show "bit (le_bytes n (of_le bs :: 'a word) ! j) i = bit (bs ! j) i"
      using i j assms
      by (simp add: le_bytes_def bit_ucast_iff bit_drop_bit_eq bit_of_le add.commute)
  qed
qed

lemma of_le_inj:
  assumes "(of_le xs :: 'a::len word) = of_le ys" and "length xs = length ys"
    and "8 * length xs \<le> LENGTH('a)"
  shows "xs = ys"
proof -
  have "xs = le_bytes (length xs) (of_le xs :: 'a word)"
    by (rule le_bytes_of_le [symmetric]) (use assms in simp_all)
  also have "\<dots> = le_bytes (length xs) (of_le ys :: 'a word)" by (simp only: assms(1))
  also have "\<dots> = ys" by (rule le_bytes_of_le) (use assms in simp_all)
  finally show ?thesis .
qed

section \<open>Lists and association lists\<close>

lemma take_append_exact [simp]: "length xs = n \<Longrightarrow> take n (xs @ ys) = xs"
  by auto

lemma drop_append_exact [simp]: "length xs = n \<Longrightarrow> drop n (xs @ ys) = ys"
  by auto

lemma map_of_sorted_perm:
  assumes "distinct (map fst xs)" and "set ys = set xs" and "distinct (map fst ys)"
  shows "map_of ys = map_of xs"
proof (rule ext)
  fix k show "map_of ys k = map_of xs k"
    using assms by (metis map_of_eq_Some_iff option.exhaust)
qed

lemma update_new: "k \<notin> fst ` set a \<Longrightarrow> AList.update k v a = a @ [(k, v)]"
  by (induction a) auto

text \<open>\<open>buf.resize(n, 0)\<close> for a growing buffer.\<close>

definition resize0 :: "nat \<Rightarrow> bytes \<Rightarrow> bytes" where
  "resize0 n bs = (if n \<le> length bs then take n bs else bs @ replicate (n - length bs) 0)"

lemma length_resize0 [simp, ser_len]: "length (resize0 n bs) = n"
  by (simp add: resize0_def)

section \<open>Loops that write into a buffer\<close>

lemma fold_nested:
  "fold (\<lambda>b. fold (F b) ys) xs out = fold (\<lambda>(b, i). F b i) (List.product xs ys) out"
proof (induction xs arbitrary: out)
  case (Cons b xs)
  have "fold (\<lambda>(b, i). F b i) (map (Pair b) zs) o' = fold (F b) zs o'" for zs o'
    by (induction zs arbitrary: o') simp_all
  with Cons show ?case by simp
qed simp

lemma length_fold_update [simp]: "length (fold (\<lambda>x out. out[f x := g x]) xs out) = length out"
  by (induction xs arbitrary: out) simp_all

lemma fold_update_other:
  "j \<notin> f ` set xs \<Longrightarrow> fold (\<lambda>x out. out[f x := g x]) xs out ! j = out ! j"
  by (induction xs arbitrary: out) auto

lemma fold_update_nth:
  assumes "inj_on f (set xs)" and "x \<in> set xs" and "f x < length out"
  shows "fold (\<lambda>x out. out[f x := g x]) xs out ! f x = g x"
  using assms
proof (induction xs arbitrary: out)
  case (Cons y xs)
  show ?case
  proof (cases "x \<in> set xs")
    case True
    with Cons show ?thesis by (simp add: inj_on_def)
  next
    case False
    then have "f x \<notin> f ` set xs" and "x = y"
      using Cons.prems by (auto simp: inj_on_def)
    then show ?thesis using Cons.prems by (simp add: fold_update_other)
  qed
qed simp

end
