(* ===== verification/Core_Types.thy ===== *)
theory Core_Types
  imports TPX_Prelude
begin

text \<open>
  The types of \<open>crates/tpx-core/src/types.rs\<close>: the format's constants, the identifier
  enumerations with their one-byte encodings, chunk references, tensors and the error type.
  A \<open>TpxError\<close> that carries a rendered foreign error (\<open>e.to_string()\<close>) carries the
  foreign error itself here, under \<open>Display\<close>.
\<close>

section \<open>File format constants\<close>

definition MAGIC :: bytes where
  "MAGIC = [0x54, 0x50, 0x58, 0x01]"

definition MAGIC_END_FINAL :: bytes where
  "MAGIC_END_FINAL = [0x31, 0x58, 0x50, 0x54]"

definition MAGIC_END_CHECKPOINT :: bytes where
  "MAGIC_END_CHECKPOINT = [0x31, 0x58, 0x50, 0x43]"

definition HEADER_SIZE :: nat where "HEADER_SIZE = 48"
definition FOOTER_SIZE :: nat where "FOOTER_SIZE = 24"
definition CHUNK_HEADER_SIZE :: nat where "CHUNK_HEADER_SIZE = 16"
definition BLOCK_ENTRY_SIZE :: nat where "BLOCK_ENTRY_SIZE = 4"
definition DEFAULT_CHUNK_ALIGN :: u32 where "DEFAULT_CHUNK_ALIGN = 4096"
definition HUGEPAGE_CHUNK_ALIGN :: u32 where "HUGEPAGE_CHUNK_ALIGN = 2 * 1024 * 1024"
definition DEFAULT_BLOCK_SIZE :: u32 where "DEFAULT_BLOCK_SIZE = 64 * 1024"
definition DEFAULT_CHECKPOINT_INTERVAL_BYTES :: u64 where
  "DEFAULT_CHECKPOINT_INTERVAL_BYTES = 64 * 1024 * 1024"
definition DEFAULT_CHECKPOINT_INTERVAL_MS :: u64 where
  "DEFAULT_CHECKPOINT_INTERVAL_MS = 60000"
definition FLAG_CHECKSUMMED :: u16 where "FLAG_CHECKSUMMED = 0x02"

section \<open>Errors\<close>

datatype io_error = UnexpectedEof | InvalidInput | OtherIo

datatype foreign_error = FromUtf8Error bytes | ForeignCodecError string

datatype err_text = Lit string | Display foreign_error

datatype tpx_error =
    InvalidMagic bytes bytes
  | UnsupportedVersion u16
  | ChecksumMismatch u64 u64
  | ChunkCrcMismatch u64 u32 u32
  | InvalidEndMagic bytes
  | KeyNotFound bytes
  | VersionNotFound bytes u32
  | InvalidDType u8
  | InvalidFilter u8
  | InvalidCodec u8
  | InvalidAttrType u8
  | AttrValueTooLarge nat
  | BufferTooSmall string nat nat
  | DecompressLengthMismatch nat nat
  | CodecError err_text
  | ShardOutOfRange u16
  | AlreadyLocked
  | ReadOnlyMode
  | UnsupportedFeature string
  | Io io_error
  | CorruptArchive err_text

type_synonym 'a res = "tpx_error + 'a"

section \<open>Enumerations\<close>

datatype DTypeId = Float64 | Float32 | Float16 | BFloat16 | Int64 | Int32 | Int16 | Int8
  | UInt64 | UInt32 | UInt16 | UInt8 | Bool

fun DTypeId_as_u8 :: "DTypeId \<Rightarrow> u8" where
  "DTypeId_as_u8 Float64 = 0"
| "DTypeId_as_u8 Float32 = 1"
| "DTypeId_as_u8 Float16 = 2"
| "DTypeId_as_u8 BFloat16 = 3"
| "DTypeId_as_u8 Int64 = 4"
| "DTypeId_as_u8 Int32 = 5"
| "DTypeId_as_u8 Int16 = 6"
| "DTypeId_as_u8 Int8 = 7"
| "DTypeId_as_u8 UInt64 = 8"
| "DTypeId_as_u8 UInt32 = 9"
| "DTypeId_as_u8 UInt16 = 10"
| "DTypeId_as_u8 UInt8 = 11"
| "DTypeId_as_u8 Bool = 12"

fun element_size :: "DTypeId \<Rightarrow> nat" where
  "element_size Float64 = 8"
| "element_size Int64 = 8"
| "element_size UInt64 = 8"
| "element_size Float32 = 4"
| "element_size Int32 = 4"
| "element_size UInt32 = 4"
| "element_size Float16 = 2"
| "element_size BFloat16 = 2"
| "element_size Int16 = 2"
| "element_size UInt16 = 2"
| "element_size Int8 = 1"
| "element_size UInt8 = 1"
| "element_size Bool = 1"

definition DTypeId_from_u8 :: "u8 \<Rightarrow> DTypeId res" where
  "DTypeId_from_u8 val =
     (if val = 0 then Inr Float64
      else if val = 1 then Inr Float32
      else if val = 2 then Inr Float16
      else if val = 3 then Inr BFloat16
      else if val = 4 then Inr Int64
      else if val = 5 then Inr Int32
      else if val = 6 then Inr Int16
      else if val = 7 then Inr Int8
      else if val = 8 then Inr UInt64
      else if val = 9 then Inr UInt32
      else if val = 10 then Inr UInt16
      else if val = 11 then Inr UInt8
      else if val = 12 then Inr Bool
      else Inl (InvalidDType val))"

fun DTypeId_as_str :: "DTypeId \<Rightarrow> string" where
  "DTypeId_as_str Float64 = ''float64''"
| "DTypeId_as_str Float32 = ''float32''"
| "DTypeId_as_str Float16 = ''float16''"
| "DTypeId_as_str BFloat16 = ''bfloat16''"
| "DTypeId_as_str Int64 = ''int64''"
| "DTypeId_as_str Int32 = ''int32''"
| "DTypeId_as_str Int16 = ''int16''"
| "DTypeId_as_str Int8 = ''int8''"
| "DTypeId_as_str UInt64 = ''uint64''"
| "DTypeId_as_str UInt32 = ''uint32''"
| "DTypeId_as_str UInt16 = ''uint16''"
| "DTypeId_as_str UInt8 = ''uint8''"
| "DTypeId_as_str Bool = ''bool''"

definition ALL_DTYPES :: "DTypeId list" where
  "ALL_DTYPES = [Float64, Float32, Float16, BFloat16, Int64, Int32, Int16, Int8,
     UInt64, UInt32, UInt16, UInt8, Bool]"

definition INT_DTYPES :: "DTypeId list" where
  "INT_DTYPES = [Int64, Int32, Int16, Int8, UInt64, UInt32, UInt16, UInt8]"

datatype FilterId = NoFilter | ByteShuffle | BitShuffle | DeltaZigZag

fun FilterId_as_u8 :: "FilterId \<Rightarrow> u8" where
  "FilterId_as_u8 NoFilter = 0"
| "FilterId_as_u8 ByteShuffle = 1"
| "FilterId_as_u8 BitShuffle = 2"
| "FilterId_as_u8 DeltaZigZag = 3"

definition FilterId_from_u8 :: "u8 \<Rightarrow> FilterId res" where
  "FilterId_from_u8 val =
     (if val = 0 then Inr NoFilter
      else if val = 1 then Inr ByteShuffle
      else if val = 2 then Inr BitShuffle
      else if val = 3 then Inr DeltaZigZag
      else Inl (InvalidFilter val))"

definition ALL_FILTERS :: "FilterId list" where
  "ALL_FILTERS = [NoFilter, ByteShuffle, BitShuffle, DeltaZigZag]"

datatype CodecId = Raw | Chimp128 | Zstd | Lz4

fun CodecId_as_u8 :: "CodecId \<Rightarrow> u8" where
  "CodecId_as_u8 Raw = 0"
| "CodecId_as_u8 Chimp128 = 1"
| "CodecId_as_u8 Zstd = 2"
| "CodecId_as_u8 Lz4 = 3"

definition CodecId_from_u8 :: "u8 \<Rightarrow> CodecId res" where
  "CodecId_from_u8 val =
     (if val = 0 then Inr Raw
      else if val = 1 then Inr Chimp128
      else if val = 2 then Inr Zstd
      else if val = 3 then Inr Lz4
      else Inl (InvalidCodec val))"

definition ALL_CODECS :: "CodecId list" where
  "ALL_CODECS = [Raw, Chimp128, Zstd, Lz4]"

datatype AttrTypeId = TString | TInt64 | TFloat64 | TBool | TBytes

fun AttrTypeId_as_u8 :: "AttrTypeId \<Rightarrow> u8" where
  "AttrTypeId_as_u8 TString = 0"
| "AttrTypeId_as_u8 TInt64 = 1"
| "AttrTypeId_as_u8 TFloat64 = 2"
| "AttrTypeId_as_u8 TBool = 3"
| "AttrTypeId_as_u8 TBytes = 4"

definition AttrTypeId_from_u8 :: "u8 \<Rightarrow> AttrTypeId res" where
  "AttrTypeId_from_u8 val =
     (if val = 0 then Inr TString
      else if val = 1 then Inr TInt64
      else if val = 2 then Inr TFloat64
      else if val = 3 then Inr TBool
      else if val = 4 then Inr TBytes
      else Inl (InvalidAttrType val))"

datatype OpenMode = ReadOnly | ReadWrite | Append

section \<open>Structs\<close>

record chunk_ref =
  cr_shard_id :: u16
  cr_chunk_offset :: u64
  cr_chunk_len :: u32

record owned_tensor =
  ot_dtype :: DTypeId
  ot_shape :: "u32 list"
  ot_data :: bytes

definition OwnedTensor_new :: "DTypeId \<Rightarrow> u32 list \<Rightarrow> bytes \<Rightarrow> owned_tensor" where
  "OwnedTensor_new dtype shape data = \<lparr>ot_dtype = dtype, ot_shape = shape, ot_data = data\<rparr>"

text \<open>The products are \<open>usize\<close> arithmetic, which wraps at 64 bits in a release build.\<close>

definition total_elements :: "owned_tensor \<Rightarrow> nat" where
  "total_elements t =
     (if ot_shape t = [] then 0 else prod_list (map unat (ot_shape t)) mod 2 ^ 64)"

definition expected_byte_len :: "owned_tensor \<Rightarrow> nat" where
  "expected_byte_len t = total_elements t * element_size (ot_dtype t) mod 2 ^ 64"

section \<open>Identifier encodings\<close>

lemma DTypeId_rt [simp, rt_simps]: "DTypeId_from_u8 (DTypeId_as_u8 d) = Inr d"
  by (cases d) (simp_all add: DTypeId_from_u8_def)

lemma FilterId_rt [simp, rt_simps]: "FilterId_from_u8 (FilterId_as_u8 d) = Inr d"
  by (cases d) (simp_all add: FilterId_from_u8_def)

lemma CodecId_rt [simp, rt_simps]: "CodecId_from_u8 (CodecId_as_u8 d) = Inr d"
  by (cases d) (simp_all add: CodecId_from_u8_def)

lemma AttrTypeId_rt [simp, rt_simps]: "AttrTypeId_from_u8 (AttrTypeId_as_u8 d) = Inr d"
  by (cases d) (simp_all add: AttrTypeId_from_u8_def)

lemma DTypeId_from_u8_Inr: "DTypeId_from_u8 v = Inr d \<longleftrightarrow> v = DTypeId_as_u8 d"
  by (cases d) (auto simp: DTypeId_from_u8_def split: if_splits)

lemma FilterId_from_u8_Inr: "FilterId_from_u8 v = Inr d \<longleftrightarrow> v = FilterId_as_u8 d"
  by (cases d) (auto simp: FilterId_from_u8_def split: if_splits)

lemma CodecId_from_u8_Inr: "CodecId_from_u8 v = Inr d \<longleftrightarrow> v = CodecId_as_u8 d"
  by (cases d) (auto simp: CodecId_from_u8_def split: if_splits)

lemma AttrTypeId_from_u8_Inr: "AttrTypeId_from_u8 v = Inr d \<longleftrightarrow> v = AttrTypeId_as_u8 d"
  by (cases d) (auto simp: AttrTypeId_from_u8_def split: if_splits)

lemma DTypeId_from_u8_Inl: "DTypeId_from_u8 v = Inl e \<Longrightarrow> e = InvalidDType v"
  by (auto simp: DTypeId_from_u8_def split: if_splits)

lemma element_size_pos [simp]: "0 < element_size d"
  by (cases d) simp_all

lemma element_size_le: "element_size d \<le> 8"
  by (cases d) simp_all

lemma set_ALL_DTYPES: "set ALL_DTYPES = UNIV"
proof -
  have "d \<in> set ALL_DTYPES" for d by (cases d) (simp_all add: ALL_DTYPES_def)
  then show ?thesis by blast
qed

end
