(* ===== verification/Cursor.thy ===== *)
theory Cursor
  imports Core_Types
begin

text \<open>
  Reads from a \<open>std::io::Cursor\<close> over a byte slice, with the little-endian readers of the
  \<open>byteorder\<close> trait: a cursor is the list of bytes still to be read. A read that needs
  more bytes than are left fails with \<open>UnexpectedEof\<close>, which the code wraps into
  \<open>TpxError::Io\<close>. A writer into a buffer that is large enough appends bytes.
\<close>

definition read_exact :: "nat \<Rightarrow> bytes \<Rightarrow> (bytes \<times> bytes) res" where
  "read_exact n c = (if length c < n then Inl (Io UnexpectedEof) else Inr (take n c, drop n c))"

definition read_le :: "nat \<Rightarrow> bytes \<Rightarrow> ('a::len word \<times> bytes) res" where
  "read_le n c = bindR (read_exact n c) (\<lambda>(b, c'). Inr (of_le b, c'))"

definition read_u8 :: "bytes \<Rightarrow> (u8 \<times> bytes) res" where "read_u8 = read_le 1"
definition read_u16 :: "bytes \<Rightarrow> (u16 \<times> bytes) res" where "read_u16 = read_le 2"
definition read_u32 :: "bytes \<Rightarrow> (u32 \<times> bytes) res" where "read_u32 = read_le 4"
definition read_u64 :: "bytes \<Rightarrow> (u64 \<times> bytes) res" where "read_u64 = read_le 8"

definition write_u8 :: "u8 \<Rightarrow> bytes" where "write_u8 = le_bytes 1"
definition write_u16 :: "u16 \<Rightarrow> bytes" where "write_u16 = le_bytes 2"
definition write_u32 :: "u32 \<Rightarrow> bytes" where "write_u32 = le_bytes 4"
definition write_u64 :: "u64 \<Rightarrow> bytes" where "write_u64 = le_bytes 8"

text \<open>\<open>String::from_utf8\<close> with its error turned into \<open>CorruptArchive\<close>.\<close>

definition from_utf8 :: "bytes \<Rightarrow> bytes res" where
  "from_utf8 b = (if utf8_valid b then Inr b else Inl (CorruptArchive (Display (FromUtf8Error b))))"

text \<open>A counted loop of reads, as in \<open>for _ in 0..n\<close>.\<close>

fun read_many :: "nat \<Rightarrow> (bytes \<Rightarrow> ('a \<times> bytes) res) \<Rightarrow> bytes \<Rightarrow> ('a list \<times> bytes) res" where
  "read_many 0 rd c = Inr ([], c)"
| "read_many (Suc n) rd c =
     bindR (rd c) (\<lambda>(x, c'). bindR (read_many n rd c') (\<lambda>(xs, c''). Inr (x # xs, c'')))"

section \<open>Reading what was written\<close>

lemma write_lengths [simp, ser_len]:
  "length (write_u8 a) = 1" "length (write_u16 b) = 2"
  "length (write_u32 c) = 4" "length (write_u64 d) = 8"
  by (simp_all add: write_u8_def write_u16_def write_u32_def write_u64_def)

lemma write_u8_eq: "write_u8 a = [a]"
  by (simp add: write_u8_def le_bytes_def)

lemma read_exact_append [simp, rt_simps]:
  "length b = n \<Longrightarrow> read_exact n (b @ c) = Inr (b, c)"
  by (simp add: read_exact_def)

lemma read_written [simp, rt_simps]:
  "read_u8 (write_u8 a @ r) = Inr (a, r)"
  "read_u16 (write_u16 b @ r) = Inr (b, r)"
  "read_u32 (write_u32 c @ r) = Inr (c, r)"
  "read_u64 (write_u64 d @ r) = Inr (d, r)"
  by (simp_all add: read_u8_def read_u16_def read_u32_def read_u64_def write_u8_def
      write_u16_def write_u32_def write_u64_def read_le_def of_le_le_bytes)

lemma read_written_end [simp, rt_simps]:
  "read_u8 (write_u8 a) = Inr (a, [])"
  "read_u16 (write_u16 b) = Inr (b, [])"
  "read_u32 (write_u32 c) = Inr (c, [])"
  "read_u64 (write_u64 d) = Inr (d, [])"
  using read_written [where r = "[]"] by simp_all

lemma read_u8_Cons [simp]: "read_u8 (a # r) = Inr (a, r)"
  using read_written(1) [of a r] by (simp add: write_u8_eq)

lemma from_utf8_valid [simp, rt_simps]: "utf8_valid b \<Longrightarrow> from_utf8 b = Inr b"
  by (simp add: from_utf8_def)

lemma read_many_written [rt_simps]:
  assumes "\<And>x r. x \<in> set xs \<Longrightarrow> rd (wr x @ r) = Inr (f x, r)"
  shows "read_many (length xs) rd (concat (map wr xs) @ r) = Inr (map f xs, r)"
  using assms by (induction xs) auto

text \<open>
  The same with the element count given as a number read from the stream, and the special
  case of a reader that returns the written element itself.
\<close>

lemma read_many_written_id:
  assumes "\<And>x r. x \<in> set xs \<Longrightarrow> rd (wr x @ r) = Inr (x, r)" and "n = length xs"
  shows "read_many n rd (concat (map wr xs) @ r) = Inr (xs, r)"
  using read_many_written [of xs rd wr "\<lambda>x. x" r] assms by simp

section \<open>Readers are exact inverses of writers\<close>

lemma read_exact_iff: "read_exact n c = Inr (b, r) \<longleftrightarrow> c = b @ r \<and> length b = n"
  by (auto simp: read_exact_def)

lemma read_u8_iff: "read_u8 c = Inr (a, r) \<longleftrightarrow> c = a # r"
  by (cases c) (auto simp: read_u8_def read_le_def read_exact_def)

lemma read_le_iff:
  assumes "LENGTH('a::len) = 8 * n"
  shows "read_le n c = Inr (w :: 'a word, r) \<longleftrightarrow> c = le_bytes n w @ r"
proof
  assume "read_le n c = Inr (w, r)"
  then show "c = le_bytes n w @ r"
    using assms by (auto simp: read_le_def read_exact_iff le_bytes_of_le)
next
  assume "c = le_bytes n w @ r"
  then show "read_le n c = Inr (w, r)"
    using assms by (simp add: read_le_def of_le_le_bytes)
qed

lemma read_u16_iff: "read_u16 c = Inr (a, r) \<longleftrightarrow> c = write_u16 a @ r"
  by (simp add: read_u16_def write_u16_def read_le_iff)

lemma read_u32_iff: "read_u32 c = Inr (a, r) \<longleftrightarrow> c = write_u32 a @ r"
  by (simp add: read_u32_def write_u32_def read_le_iff)

lemma read_u64_iff: "read_u64 c = Inr (a, r) \<longleftrightarrow> c = write_u64 a @ r"
  by (simp add: read_u64_def write_u64_def read_le_iff)

lemmas read_iff = read_exact_iff read_u8_iff read_u16_iff read_u32_iff read_u64_iff

lemma read_many_iff:
  assumes "\<And>c x r. rd c = Inr (x, r) \<longleftrightarrow> c = wr x @ r"
  shows "read_many n rd c = Inr (xs, r) \<longleftrightarrow> c = concat (map wr xs) @ r \<and> length xs = n"
  by (induction n arbitrary: c xs) (auto simp: assms length_Suc_conv)

section \<open>Lengths and failure\<close>

lemma read_exact_Inr: "read_exact n c = Inr (b, c') \<longleftrightarrow> n \<le> length c \<and> b = take n c \<and> c' = drop n c"
  by (auto simp: read_exact_def)

lemma read_exact_Inl: "read_exact n c = Inl e \<longleftrightarrow> length c < n \<and> e = Io UnexpectedEof"
  by (auto simp: read_exact_def)

lemma read_le_Inr:
  "read_le n c = Inr (w, c') \<longleftrightarrow> n \<le> length c \<and> w = of_le (take n c) \<and> c' = drop n c"
  by (auto simp: read_le_def read_exact_Inr)

lemma read_le_short: "length c < n \<Longrightarrow> read_le n c = Inl (Io UnexpectedEof)"
  by (simp add: read_le_def read_exact_def)

lemma read_le_ok: "n \<le> length c \<Longrightarrow> read_le n c = Inr (of_le (take n c), drop n c)"
  by (simp add: read_le_def read_exact_def)

lemmas read_defs = read_u8_def read_u16_def read_u32_def read_u64_def
lemmas write_defs = write_u8_def write_u16_def write_u32_def write_u64_def

lemma of_le_write:
  "of_le (write_u16 b) = b" "of_le (write_u32 c) = c" "of_le (write_u64 d) = d"
  by (simp_all add: write_defs)

lemma write_of_le:
  "length bs = 2 \<Longrightarrow> write_u16 (of_le bs) = bs"
  "length bs = 4 \<Longrightarrow> write_u32 (of_le bs) = bs"
  "length bs = 8 \<Longrightarrow> write_u64 (of_le bs) = bs"
  by (simp_all add: write_defs le_bytes_of_le)

end
