(* ===== verification/File_Header.thy ===== *)
theory File_Header
  imports Cursor
begin

text \<open>
  The 48-byte file header of \<open>crates/tpx-core/src/header.rs\<close>: construction, the fixed
  little-endian layout, and the reader that validates the magic and the major version.
\<close>

record file_header =
  fh_magic :: bytes
  fh_format_version :: u16
  fh_flags :: u16
  fh_chunk_align :: u32
  fh_default_block_size :: u32
  fh_shard_count :: u16
  fh_reserved :: u16
  fh_global_attrs_offset :: u64
  fh_global_attrs_len :: u64
  fh_shard_table_offset :: u64
  fh_reserved2 :: u32

definition FileHeader_default :: file_header where
  "FileHeader_default =
     \<lparr>fh_magic = MAGIC, fh_format_version = 0x0100, fh_flags = FLAG_CHECKSUMMED,
      fh_chunk_align = DEFAULT_CHUNK_ALIGN, fh_default_block_size = DEFAULT_BLOCK_SIZE,
      fh_shard_count = 1, fh_reserved = 0, fh_global_attrs_offset = 0,
      fh_global_attrs_len = 0, fh_shard_table_offset = 0, fh_reserved2 = 0\<rparr>"

definition FileHeader_new :: "u16 \<Rightarrow> u32 \<Rightarrow> u16 \<Rightarrow> file_header" where
  "FileHeader_new shard_count chunk_align flags =
     \<lparr>fh_magic = MAGIC, fh_format_version = 0x0100, fh_flags = flags,
      fh_chunk_align = chunk_align, fh_default_block_size = DEFAULT_BLOCK_SIZE,
      fh_shard_count = max shard_count 1, fh_reserved = 0, fh_global_attrs_offset = 0,
      fh_global_attrs_len = 0, fh_shard_table_offset = 0, fh_reserved2 = 0\<rparr>"

definition FileHeader_serialize :: "file_header \<Rightarrow> bytes" where
  "FileHeader_serialize h =
     fh_magic h
     @ write_u16 (fh_format_version h)
     @ write_u16 (fh_flags h)
     @ write_u32 (fh_chunk_align h)
     @ write_u32 (fh_default_block_size h)
     @ write_u16 (fh_shard_count h)
     @ write_u16 (fh_reserved h)
     @ write_u64 (fh_global_attrs_offset h)
     @ write_u64 (fh_global_attrs_len h)
     @ write_u64 (fh_shard_table_offset h)
     @ write_u32 (fh_reserved2 h)"

definition FileHeader_validate :: "file_header \<Rightarrow> unit res" where
  "FileHeader_validate h =
     (if fh_magic h \<noteq> MAGIC then Inl (InvalidMagic MAGIC (fh_magic h))
      else let major_version = (ucast (drop_bit 8 (fh_format_version h)) :: u8) in
        if major_version > 1 then Inl (UnsupportedVersion (fh_format_version h))
        else Inr ())"

definition FileHeader_deserialize :: "bytes \<Rightarrow> file_header res" where
  "FileHeader_deserialize buf =
     (if length buf < HEADER_SIZE
      then Inl (BufferTooSmall ''FileHeader'' HEADER_SIZE (length buf))
      else
        bindR (read_exact 4 buf) (\<lambda>(magic, c).
        bindR (read_u16 c) (\<lambda>(format_version, c).
        bindR (read_u16 c) (\<lambda>(flags, c).
        bindR (read_u32 c) (\<lambda>(chunk_align, c).
        bindR (read_u32 c) (\<lambda>(default_block_size, c).
        bindR (read_u16 c) (\<lambda>(shard_count, c).
        bindR (read_u16 c) (\<lambda>(reserved, c).
        bindR (read_u64 c) (\<lambda>(global_attrs_offset, c).
        bindR (read_u64 c) (\<lambda>(global_attrs_len, c).
        bindR (read_u64 c) (\<lambda>(shard_table_offset, c).
        bindR (read_u32 c) (\<lambda>(reserved2, c).
          let header = \<lparr>fh_magic = magic, fh_format_version = format_version, fh_flags = flags,
            fh_chunk_align = chunk_align, fh_default_block_size = default_block_size,
            fh_shard_count = shard_count, fh_reserved = reserved,
            fh_global_attrs_offset = global_attrs_offset, fh_global_attrs_len = global_attrs_len,
            fh_shard_table_offset = shard_table_offset, fh_reserved2 = reserved2\<rparr> in
          bindR (FileHeader_validate header) (\<lambda>_. Inr header)))))))))))))"

lemma length_MAGIC [simp, ser_len]: "length MAGIC = 4"
  by (simp add: MAGIC_def)

lemma length_FileHeader_serialize [simp, ser_len]:
  "length (fh_magic h) = 4 \<Longrightarrow> length (FileHeader_serialize h) = HEADER_SIZE"
  by (simp add: FileHeader_serialize_def HEADER_SIZE_def)

lemma FileHeader_validate_Inr:
  "FileHeader_validate h = Inr () \<longleftrightarrow>
     fh_magic h = MAGIC \<and> (ucast (drop_bit 8 (fh_format_version h)) :: u8) \<le> 1"
  by (auto simp: FileHeader_validate_def Let_def not_less)

lemma FileHeader_new_valid [simp]: "FileHeader_validate (FileHeader_new sc al fl) = Inr ()"
  by (simp add: FileHeader_validate_Inr FileHeader_new_def)

lemma FileHeader_default_valid [simp]: "FileHeader_validate FileHeader_default = Inr ()"
  by (simp add: FileHeader_validate_Inr FileHeader_default_def)

lemma FileHeader_deserialize_iff:
  "FileHeader_deserialize buf = Inr h \<longleftrightarrow>
     FileHeader_validate h = Inr () \<and> (\<exists>rest. buf = FileHeader_serialize h @ rest)"
proof
  assume "FileHeader_deserialize buf = Inr h"
  then show "FileHeader_validate h = Inr () \<and> (\<exists>rest. buf = FileHeader_serialize h @ rest)"
    by (auto simp: FileHeader_deserialize_def FileHeader_serialize_def read_iff Let_def
        split: if_splits)
next
  assume "FileHeader_validate h = Inr () \<and> (\<exists>rest. buf = FileHeader_serialize h @ rest)"
  then obtain rest where v: "FileHeader_validate h = Inr ()"
    and b: "buf = FileHeader_serialize h @ rest" by blast
  from v have m: "length (fh_magic h) = 4" by (simp add: FileHeader_validate_Inr)
  then have "\<not> length buf < HEADER_SIZE" by (simp add: b)
  with v m show "FileHeader_deserialize buf = Inr h"
    by (cases h) (simp add: FileHeader_deserialize_def b FileHeader_serialize_def Let_def)
qed

lemma FileHeader_roundtrip:
  "FileHeader_validate h = Inr () \<Longrightarrow> FileHeader_deserialize (FileHeader_serialize h) = Inr h"
  unfolding FileHeader_deserialize_iff by (metis append_Nil2)

text \<open>
  C19: the header reader is exact. It accepts a buffer precisely when the buffer starts with
  the 48 serialised bytes of a header with the right magic and a major version of at most
  one, and then returns that header; so writing and reading back is the identity, and no
  two headers share an encoding.
\<close>

theorem FileHeader_deserialize_exact:
  "FileHeader_deserialize buf = Inr h \<longleftrightarrow>
     FileHeader_validate h = Inr () \<and> (\<exists>rest. buf = FileHeader_serialize h @ rest)"
  by (rule FileHeader_deserialize_iff)

text \<open>
  Every rejection of the header reader and its reason: too short a buffer, then a wrong
  magic, then a major version above one, in that order and with the offending values.
\<close>

lemma FileHeader_deserialize_errors:
  "FileHeader_deserialize buf = Inl e \<longleftrightarrow>
     (if length buf < 48 then e = BufferTooSmall ''FileHeader'' 48 (length buf)
      else if take 4 buf \<noteq> MAGIC then e = InvalidMagic MAGIC (take 4 buf)
      else 1 < buf ! 5 \<and> e = UnsupportedVersion (of_le [buf ! 4, buf ! 5]))"
proof (cases "length buf < 48")
  case True
  then show ?thesis by (auto simp: FileHeader_deserialize_def HEADER_SIZE_def)
next
  case False
  have two: "take 2 (drop 4 buf) = [buf ! 4, buf ! 5]"
    using False by (simp add: take_Suc_conv_app_nth numeral_2_eq_2)
  have hi: "(ucast (drop_bit 8 (of_le [a, b] :: u16)) :: u8) = b" for a b
  proof (rule bit_word_eqI)
    fix n assume "n < LENGTH(8)"
    then show "bit (ucast (drop_bit 8 (of_le [a, b] :: u16)) :: u8) n = bit b n"
      using bit_imp_le_length [of a "8 + n"]
      by (auto simp: bit_ucast_iff bit_drop_bit_eq bit_or_iff bit_push_bit_iff)
  qed
  show ?thesis using False
    by (auto simp: FileHeader_deserialize_def HEADER_SIZE_def read_defs read_le_ok read_exact_def
        FileHeader_validate_def Let_def two hi simp del: of_le.simps)
qed

end
