(* ===== verification/Footer.thy ===== *)
theory Footer
  imports Cursor
begin

text \<open>
  The 24-byte footer of \<open>crates/tpx-core/src/footer.rs\<close>, which closes every checkpoint,
  and the backward scan that finds the most recent one when an archive is opened. File
  lengths and offsets of the scan are natural numbers; the reader is a byte slice, the
  instance that \<open>ShardedEngine::open\<close> uses.
\<close>

record footer =
  ft_toc_offset :: u64
  ft_total_chunks :: u32
  ft_checksum :: u64
  ft_magic_end :: bytes

definition Footer_default :: footer where
  "Footer_default = \<lparr>ft_toc_offset = 0, ft_total_chunks = 0, ft_checksum = 0,
     ft_magic_end = MAGIC_END_FINAL\<rparr>"

definition Footer_new :: "u64 \<Rightarrow> u32 \<Rightarrow> u64 \<Rightarrow> bool \<Rightarrow> footer" where
  "Footer_new toc_offset total_chunks checksum is_checkpoint =
     \<lparr>ft_toc_offset = toc_offset, ft_total_chunks = total_chunks, ft_checksum = checksum,
      ft_magic_end = (if is_checkpoint then MAGIC_END_CHECKPOINT else MAGIC_END_FINAL)\<rparr>"

definition Footer_is_checkpoint :: "footer \<Rightarrow> bool" where
  "Footer_is_checkpoint f \<longleftrightarrow> ft_magic_end f = MAGIC_END_CHECKPOINT"

definition Footer_is_final :: "footer \<Rightarrow> bool" where
  "Footer_is_final f \<longleftrightarrow> ft_magic_end f = MAGIC_END_FINAL"

definition Footer_serialize :: "footer \<Rightarrow> bytes" where
  "Footer_serialize f =
     write_u64 (ft_toc_offset f) @ write_u32 (ft_total_chunks f)
     @ write_u64 (ft_checksum f) @ ft_magic_end f"

definition Footer_deserialize :: "bytes \<Rightarrow> footer res" where
  "Footer_deserialize buf =
     (if length buf < FOOTER_SIZE
      then Inl (BufferTooSmall ''Footer'' FOOTER_SIZE (length buf))
      else
        bindR (read_u64 (drop (length buf - FOOTER_SIZE) buf)) (\<lambda>(toc_offset, c).
        bindR (read_u32 c) (\<lambda>(total_chunks, c).
        bindR (read_u64 c) (\<lambda>(checksum, c).
        bindR (read_exact 4 c) (\<lambda>(magic_end, c).
          if magic_end \<noteq> MAGIC_END_FINAL \<and> magic_end \<noteq> MAGIC_END_CHECKPOINT
          then Inl (InvalidEndMagic magic_end)
          else Inr \<lparr>ft_toc_offset = toc_offset, ft_total_chunks = total_chunks,
                    ft_checksum = checksum, ft_magic_end = magic_end\<rparr>)))))"

text \<open>\<open>ReadAt\<close> for a byte slice: the bytes copied into a buffer of \<open>n\<close> bytes.\<close>

definition slice_read_at :: "bytes \<Rightarrow> nat \<Rightarrow> nat \<Rightarrow> bytes" where
  "slice_read_at data offset n =
     (if offset \<ge> length data then []
      else take (min (length data - offset) n) (drop offset data))"

text \<open>One probe of the scan: a footer of full length whose table lies before it.\<close>

definition probe_footer :: "bytes \<Rightarrow> nat \<Rightarrow> (footer \<times> nat) option" where
  "probe_footer data off =
     (let buf = slice_read_at data off FOOTER_SIZE in
      if length buf = FOOTER_SIZE then
        (case Footer_deserialize buf of
           Inr footer \<Rightarrow> if unat (ft_toc_offset footer) < off then Some (footer, off) else None
         | Inl _ \<Rightarrow> None)
      else None)"

lemma scan_align_ge: "512 \<le> unat (max a (512 :: u32))"
  by (simp add: max_def word_le_nat_alt)

text \<open>
  The loop that steps backward. The step is at least 512, so the offset decreases; the code
  leaves the loop when another step would not stay positive.
\<close>

function scan_loop :: "bytes \<Rightarrow> u32 \<Rightarrow> nat \<Rightarrow> (footer \<times> nat) option" where
  "scan_loop data chunk_align current_offset =
     (let align = unat (max chunk_align 512) in
      if FOOTER_SIZE \<le> current_offset then
        (case probe_footer data (current_offset - FOOTER_SIZE) of
           Some r \<Rightarrow> Some r
         | None \<Rightarrow>
             if current_offset \<le> align then None
             else scan_loop data chunk_align (current_offset - align))
      else None)"
  by pat_completeness auto
termination
proof (relation "measure (\<lambda>(d, a, c). c)", goal_cases)
  case 1
  then show ?case by simp
next
  case (2 data chunk_align current_offset align)
  then show ?case using scan_align_ge [of chunk_align] by (simp add: FOOTER_SIZE_def)
qed

declare scan_loop.simps [simp del]

definition scan_for_footer :: "bytes \<Rightarrow> nat \<Rightarrow> u32 \<Rightarrow> (footer \<times> nat) option res" where
  "scan_for_footer data file_len chunk_align =
     (if file_len < FOOTER_SIZE then Inr None
      else
        (case probe_footer data (file_len - FOOTER_SIZE) of
           Some r \<Rightarrow> Inr (Some r)
         | None \<Rightarrow>
             let align = unat (max chunk_align 512) in
             Inr (scan_loop data chunk_align (file_len div align * align))))"

section \<open>The footer encoding\<close>

lemma length_MAGIC_END [simp, ser_len]:
  "length MAGIC_END_FINAL = 4" "length MAGIC_END_CHECKPOINT = 4"
  by (simp_all add: MAGIC_END_FINAL_def MAGIC_END_CHECKPOINT_def)

lemma MAGIC_END_neq [simp]: "MAGIC_END_FINAL \<noteq> MAGIC_END_CHECKPOINT"
  by (simp add: MAGIC_END_FINAL_def MAGIC_END_CHECKPOINT_def)

definition footer_ok :: "footer \<Rightarrow> bool" where
  "footer_ok f \<longleftrightarrow> Footer_is_final f \<or> Footer_is_checkpoint f"

lemma footer_ok_iff:
  "footer_ok f \<longleftrightarrow> ft_magic_end f = MAGIC_END_FINAL \<or> ft_magic_end f = MAGIC_END_CHECKPOINT"
  by (simp add: footer_ok_def Footer_is_final_def Footer_is_checkpoint_def)

lemma footer_ok_new [simp]: "footer_ok (Footer_new t n c b)"
  by (simp add: footer_ok_iff Footer_new_def)

lemma length_Footer_serialize [simp, ser_len]:
  "footer_ok f \<Longrightarrow> length (Footer_serialize f) = FOOTER_SIZE"
  by (auto simp: Footer_serialize_def FOOTER_SIZE_def footer_ok_iff)

lemma Footer_deserialize_iff:
  "Footer_deserialize buf = Inr f \<longleftrightarrow> footer_ok f \<and> (\<exists>pre. buf = pre @ Footer_serialize f)"
proof
  assume f: "Footer_deserialize buf = Inr f"
  then have "footer_ok f" and "24 \<le> length buf"
    and tail: "\<exists>r. drop (length buf - 24) buf = Footer_serialize f @ r"
    by (auto simp: Footer_deserialize_def Footer_serialize_def read_iff footer_ok_iff FOOTER_SIZE_def
        split: if_splits)
  moreover from tail obtain r where r: "drop (length buf - 24) buf = Footer_serialize f @ r" ..
  moreover have "r = []"
    using arg_cong [OF r, of length] \<open>footer_ok f\<close> \<open>24 \<le> length buf\<close> by (simp add: FOOTER_SIZE_def)
  ultimately have "buf = take (length buf - 24) buf @ Footer_serialize f"
    by (metis append_Nil2 append_take_drop_id)
  with \<open>footer_ok f\<close> show "footer_ok f \<and> (\<exists>pre. buf = pre @ Footer_serialize f)" by blast
next
  assume "footer_ok f \<and> (\<exists>pre. buf = pre @ Footer_serialize f)"
  then obtain pre where ok: "footer_ok f" and b: "buf = pre @ Footer_serialize f" by blast
  then have "drop (length buf - FOOTER_SIZE) buf = Footer_serialize f" by simp
  moreover have "\<not> length buf < FOOTER_SIZE" using ok by (simp add: b)
  moreover have "read_exact 4 (ft_magic_end f) = Inr (ft_magic_end f, [])"
    using ok by (auto simp: footer_ok_iff read_exact_def)
  ultimately show "Footer_deserialize buf = Inr f"
    using ok by (cases f) (auto simp: Footer_deserialize_def Footer_serialize_def footer_ok_iff)
qed

text \<open>
  The footer reader is exact: it accepts a buffer precisely when the buffer ends in the
  24 serialised bytes of a footer with one of the two end magics, and returns that footer.
\<close>

lemma Footer_deserialize_exact:
  "Footer_deserialize buf = Inr f \<longleftrightarrow> footer_ok f \<and> (\<exists>pre. buf = pre @ Footer_serialize f)"
  by (rule Footer_deserialize_iff)

lemma Footer_roundtrip: "footer_ok f \<Longrightarrow> Footer_deserialize (Footer_serialize f) = Inr f"
  unfolding Footer_deserialize_iff by (metis append_Nil)

section \<open>The backward scan\<close>

text \<open>
  The scan against a reference: the first probe that succeeds among the exact end of the
  file and then the chunk boundaries, from the last one down to the first.
\<close>

primrec first_some :: "('a \<Rightarrow> 'b option) \<Rightarrow> 'a list \<Rightarrow> 'b option" where
  "first_some f [] = None"
| "first_some f (x # xs) = (case f x of Some r \<Rightarrow> Some r | None \<Rightarrow> first_some f xs)"

definition scan_offsets :: "nat \<Rightarrow> nat \<Rightarrow> nat list" where
  "scan_offsets file_len align =
     (file_len - FOOTER_SIZE) # map (\<lambda>k. k * align - FOOTER_SIZE) (rev [1..<Suc (file_len div align)])"

lemma first_some_append:
  "first_some f (xs @ ys) = (case first_some f xs of Some r \<Rightarrow> Some r | None \<Rightarrow> first_some f ys)"
  by (induction xs) (auto split: option.splits)

lemma first_some_None: "first_some f xs = None \<longleftrightarrow> (\<forall>x \<in> set xs. f x = None)"
  by (induction xs) (auto split: option.splits)

lemma scan_loop_eq:
  assumes "align = unat (max a (512 :: u32))"
  shows "scan_loop data a (k * align) =
     first_some (probe_footer data) (map (\<lambda>k. k * align - FOOTER_SIZE) (rev [1..<Suc k]))"
proof (induction k)
  case 0
  then show ?case by (simp add: scan_loop.simps FOOTER_SIZE_def)
next
  case (Suc k)
  have al: "512 \<le> align" using assms scan_align_ge by simp
  then have "FOOTER_SIZE \<le> Suc k * align" by (simp add: FOOTER_SIZE_def)
  moreover have "Suc k * align \<le> align \<longleftrightarrow> k = 0" using al by auto
  moreover have "Suc k * align - align = k * align" by simp
  ultimately show ?case using Suc.IH assms
    by (subst scan_loop.simps)
      (auto simp: Let_def split: option.splits)
qed

lemma scan_for_footer_eq:
  "scan_for_footer data file_len chunk_align =
     Inr (if file_len < 24 then None
          else first_some (probe_footer data)
                 (scan_offsets file_len (unat (max chunk_align 512))))"
  unfolding scan_for_footer_def scan_offsets_def
  by (simp add: FOOTER_SIZE_def Let_def scan_loop_eq split: option.split)

text \<open>
  C16: opening scans the probe positions in order, the exact end of the file first and then
  every chunk boundary backward, and returns the first valid footer: the loop is equivalent
  to the reference search, it ends, and it fails only when no position holds a footer.
\<close>

theorem scan_for_footer_first:
  "scan_for_footer data file_len chunk_align =
     Inr (if file_len < 24 then None
          else first_some (probe_footer data)
                 (scan_offsets file_len (unat (max chunk_align 512))))"
  by (rule scan_for_footer_eq)

lemma probe_footer_Some:
  "probe_footer data off = Some (f, o') \<longleftrightarrow>
     o' = off \<and> footer_ok f \<and> unat (ft_toc_offset f) < off \<and>
     (\<exists>post. drop off data = Footer_serialize f @ post)"
proof -
  have len: "length (slice_read_at data off FOOTER_SIZE) = FOOTER_SIZE \<longleftrightarrow> off + 24 \<le> length data"
    by (auto simp: slice_read_at_def FOOTER_SIZE_def min_def)
  have val: "slice_read_at data off FOOTER_SIZE = take 24 (drop off data)" if "off + 24 \<le> length data"
    using that by (simp add: slice_read_at_def FOOTER_SIZE_def min_def)
  have des: "Footer_deserialize (take 24 (drop off data)) = Inr f \<longleftrightarrow>
      footer_ok f \<and> (\<exists>post. drop off data = Footer_serialize f @ post)"
    if "off + 24 \<le> length data" for f
  proof
    assume "Footer_deserialize (take 24 (drop off data)) = Inr f"
    then obtain pre where "footer_ok f" and e: "take 24 (drop off data) = pre @ Footer_serialize f"
      unfolding Footer_deserialize_iff by blast
    moreover have "length (take 24 (drop off data)) = 24" using that by simp
    ultimately have "pre = []" by (simp add: FOOTER_SIZE_def)
    note \<open>footer_ok f\<close> e this
    then show "footer_ok f \<and> (\<exists>post. drop off data = Footer_serialize f @ post)"
      by (metis append_Nil append_take_drop_id)
  next
    assume "footer_ok f \<and> (\<exists>post. drop off data = Footer_serialize f @ post)"
    then show "Footer_deserialize (take 24 (drop off data)) = Inr f"
      by (auto simp: FOOTER_SIZE_def intro: Footer_roundtrip)
  qed
  show ?thesis
  proof (cases "off + 24 \<le> length data")
    case True
    have "probe_footer data off = Some (f, o') \<longleftrightarrow>
        o' = off \<and> Footer_deserialize (take 24 (drop off data)) = Inr f \<and> unat (ft_toc_offset f) < off"
      unfolding probe_footer_def Let_def len val [OF True] using True
      by (auto simp: FOOTER_SIZE_def split: sum.splits if_splits)
    then show ?thesis unfolding des [OF True] by blast
  next
    case False
    then have "length (drop off data) < 24" by simp
    then have "drop off data \<noteq> Footer_serialize f @ post" if "footer_ok f" for post
      using that by (metis FOOTER_SIZE_def length_Footer_serialize length_append linorder_not_le
        trans_le_add1 le_refl)
    with False show ?thesis by (auto simp: probe_footer_def Let_def len)
  qed
qed

lemma probe_footer_at:
  assumes "footer_ok f" and "unat (ft_toc_offset f) < length pre"
  shows "probe_footer (pre @ Footer_serialize f @ post) (length pre) = Some (f, length pre)"
  using assms by (simp add: probe_footer_Some)

text \<open>A checkpoint at the very end of the file is what an open finds.\<close>

lemma scan_finds_eof:
  assumes "footer_ok f" and "unat (ft_toc_offset f) < length pre"
  shows "scan_for_footer (pre @ Footer_serialize f) (length pre + 24) a = Inr (Some (f, length pre))"
  using probe_footer_at [OF assms, of "[]"]
  by (simp add: scan_for_footer_def FOOTER_SIZE_def)

lemma rev_upt_split: "k \<le> m \<Longrightarrow> rev [1..<Suc m] = rev [Suc k..<Suc m] @ rev [1..<Suc k]"
  by (metis Suc_le_mono le0 One_nat_def rev_append upt_add_eq_append le_add_diff_inverse)

lemma scan_recovers:
  assumes ok: "footer_ok f" "unat (ft_toc_offset f) < length pre"
    and al: "align = unat (max chunk_align 512)"
    and bnd: "length (pre @ Footer_serialize f) = Suc k * align"
    and data: "data = pre @ Footer_serialize f @ torn"
    and eof: "torn = [] \<or> probe_footer data (length data - 24) = None"
    and torn: "\<forall>j. Suc k < j \<and> j * align \<le> length data
                 \<longrightarrow> probe_footer data (j * align - 24) = None"
  shows "scan_for_footer data (length data) chunk_align = Inr (Some (f, length pre))"
proof (cases "torn = []")
  case True
  then show ?thesis using scan_finds_eof [OF ok, of chunk_align] ok(1) by (simp add: data FOOTER_SIZE_def)
next
  case False
  let ?g = "\<lambda>k. k * align - FOOTER_SIZE"
  let ?m = "length data div align"
  have pos: "0 < align" using al scan_align_ge [of chunk_align] by simp
  have "Suc k * align \<le> length data" using bnd data by simp
  then have le: "Suc k \<le> ?m" using pos by (simp add: less_eq_div_iff_mult_less_eq)
  have off: "?g (Suc k) = length pre" using bnd ok by simp
  have hit: "probe_footer data (?g (Suc k)) = Some (f, length pre)"
    using probe_footer_at [OF ok] off data by simp
  have "probe_footer data (?g j) = None" if j: "j \<in> set [Suc (Suc k)..<Suc ?m]" for j
  proof -
    from j have "Suc k < j" and "j \<le> ?m" by auto
    then have "j * align \<le> length data" using pos by (simp add: less_eq_div_iff_mult_less_eq)
    with \<open>Suc k < j\<close> torn show ?thesis by (simp add: FOOTER_SIZE_def)
  qed
  then have miss: "first_some (probe_footer data) (map ?g (rev [Suc (Suc k)..<Suc ?m])) = None"
    by (auto simp: first_some_None)
  have "map ?g (rev [1..<Suc ?m]) =
      map ?g (rev [Suc (Suc k)..<Suc ?m]) @ ?g (Suc k) # map ?g (rev [1..<Suc k])"
    using rev_upt_split [OF le] by (simp del: upt_Suc add: upt_Suc [of _ "Suc k"])
  then have "first_some (probe_footer data) (map ?g (rev [1..<Suc ?m])) = Some (f, length pre)"
    using hit by (simp del: upt_Suc add: first_some_append miss)
  moreover have "24 \<le> length data" using ok data by (simp add: FOOTER_SIZE_def)
  ultimately show ?thesis
    using eof False by (simp del: upt_Suc add: scan_for_footer_eq scan_offsets_def al FOOTER_SIZE_def)
qed

text \<open>
  C13: crash recovery. An archive whose checkpoint ends on a chunk boundary, followed by any
  bytes of an interrupted write that hold no valid footer at their end or at a later chunk
  boundary, opens at that checkpoint: the scan returns its footer and its offset.
\<close>

theorem scan_recovers_checkpoint:
  assumes ok: "footer_ok f" "unat (ft_toc_offset f) < length pre"
    and al: "align = unat (max chunk_align 512)"
    and bnd: "length (pre @ Footer_serialize f) = Suc k * align"
    and data: "data = pre @ Footer_serialize f @ torn"
    and eof: "probe_footer data (length data - 24) = None"
    and torn: "\<forall>j. Suc k < j \<and> j * align \<le> length data
                 \<longrightarrow> probe_footer data (j * align - 24) = None"
  shows "scan_for_footer data (length data) chunk_align = Inr (Some (f, length pre))"
  using scan_recovers [OF ok al bnd data _ torn] eof by blast

theorem scan_recovers_checkpoint_witness:
  "scan_for_footer (replicate 488 0 @ Footer_serialize (Footer_new 48 0 0 True) @ replicate 24 0)
     536 0 = Inr (Some (Footer_new 48 0 0 True, 488))"
proof -
  let ?f = "Footer_new 48 0 0 True" and ?pre = "replicate 488 (0 :: u8)"
  let ?data = "?pre @ Footer_serialize ?f @ replicate 24 0"
  have len: "length ?data = 536" by (simp add: FOOTER_SIZE_def)
  have "Footer_deserialize (replicate 24 0) \<noteq> Inr f" for f
  proof
    assume "Footer_deserialize (replicate 24 0) = Inr f"
    then have ok: "footer_ok f" and "\<exists>p. replicate 24 0 = p @ Footer_serialize f"
      unfolding Footer_deserialize_iff by auto
    then have "set (ft_magic_end f) \<subseteq> set (replicate 24 0)"
      by (auto simp only: Footer_serialize_def set_append)
    then show False using ok by (auto simp: footer_ok_iff MAGIC_END_FINAL_def MAGIC_END_CHECKPOINT_def)
  qed
  moreover have "drop 512 ?data = replicate 24 0" by (simp add: FOOTER_SIZE_def del: replicate.simps)
  then have "slice_read_at ?data 512 24 = replicate 24 0" by (simp add: slice_read_at_def len FOOTER_SIZE_def)
  ultimately have none: "probe_footer ?data 512 = None"
    by (simp add: probe_footer_def FOOTER_SIZE_def split: sum.split)
  have toc: "ft_toc_offset ?f = 48" by (simp add: Footer_new_def)
  have "\<not> (Suc 0 < j \<and> j * 512 \<le> length ?data)" for j unfolding len by auto
  then have torn: "\<forall>j. Suc 0 < j \<and> j * 512 \<le> length ?data \<longrightarrow> probe_footer ?data (j * 512 - 24) = None"
    by blast
  have "scan_for_footer ?data (length ?data) 0 = Inr (Some (?f, length ?pre))"
    by (rule scan_recovers_checkpoint [OF _ _ _ _ refl _ torn]) (use none in \<open>simp_all add: toc FOOTER_SIZE_def\<close>)
  then show ?thesis unfolding len by simp
qed

end
