(* ===== verification/Chunk.thy ===== *)
theory Chunk
  imports Cursor
begin

text \<open>
  The chunk header and block table of \<open>crates/tpx-core/src/chunk.rs\<close>, and the padding of
  every stored block to the alignment of the archive.
\<close>

type_synonym block_entry = u32

record chunk_header =
  ch_codec_id :: CodecId
  ch_filter_id :: FilterId
  ch_block_count :: u16
  ch_block_size :: u32
  ch_uncompressed_len :: u32
  ch_payload_crc32c :: u32

definition ChunkHeader_new ::
  "CodecId \<Rightarrow> FilterId \<Rightarrow> u16 \<Rightarrow> u32 \<Rightarrow> u32 \<Rightarrow> u32 \<Rightarrow> chunk_header" where
  "ChunkHeader_new codec_id filter_id block_count block_size uncompressed_len payload_crc32c =
     \<lparr>ch_codec_id = codec_id, ch_filter_id = filter_id, ch_block_count = block_count,
      ch_block_size = block_size, ch_uncompressed_len = uncompressed_len,
      ch_payload_crc32c = payload_crc32c\<rparr>"

definition ChunkHeader_serialize :: "chunk_header \<Rightarrow> block_entry list \<Rightarrow> bytes" where
  "ChunkHeader_serialize h block_table =
     write_u8 (CodecId_as_u8 (ch_codec_id h))
     @ write_u8 (FilterId_as_u8 (ch_filter_id h))
     @ write_u16 (ch_block_count h)
     @ write_u32 (ch_block_size h)
     @ write_u32 (ch_uncompressed_len h)
     @ write_u32 (ch_payload_crc32c h)
     @ concat (map write_u32 block_table)"

definition ChunkHeader_deserialize :: "bytes \<Rightarrow> (chunk_header \<times> block_entry list) res" where
  "ChunkHeader_deserialize buf =
     (if length buf < CHUNK_HEADER_SIZE
      then Inl (BufferTooSmall ''ChunkHeader'' CHUNK_HEADER_SIZE (length buf))
      else
        bindR (read_u8 buf) (\<lambda>(codec_id_u8, c).
        bindR (CodecId_from_u8 codec_id_u8) (\<lambda>codec_id.
        bindR (read_u8 c) (\<lambda>(filter_id_u8, c).
        bindR (FilterId_from_u8 filter_id_u8) (\<lambda>filter_id.
        bindR (read_u16 c) (\<lambda>(block_count, c).
        bindR (read_u32 c) (\<lambda>(block_size, c).
        bindR (read_u32 c) (\<lambda>(uncompressed_len, c).
        bindR (read_u32 c) (\<lambda>(payload_crc32c, c).
          let header = ChunkHeader_new codec_id filter_id block_count block_size
                uncompressed_len payload_crc32c;
              required_total = CHUNK_HEADER_SIZE + unat block_count * BLOCK_ENTRY_SIZE in
          if length buf < required_total
          then Inl (BufferTooSmall ''BlockTable'' required_total (length buf))
          else
            bindR (read_many (unat block_count) read_u32 c) (\<lambda>(block_table, c).
              Inr (header, block_table)))))))))))"

definition pad_to_align :: "bytes \<Rightarrow> u32 \<Rightarrow> bytes" where
  "pad_to_align buf chunk_align =
     (if chunk_align = 0 then buf
      else
        let align = unat chunk_align; remainder = length buf mod align in
        if remainder \<noteq> 0 then resize0 (length buf + (align - remainder)) buf else buf)"

section \<open>The chunk encoding\<close>

lemma length_concat_u32 [simp, ser_len]: "length (concat (map write_u32 xs)) = 4 * length xs"
  by (induction xs) simp_all

lemma length_ChunkHeader_serialize [simp, ser_len]:
  "length (ChunkHeader_serialize h bt) = CHUNK_HEADER_SIZE + length bt * BLOCK_ENTRY_SIZE"
  by (simp add: ChunkHeader_serialize_def CHUNK_HEADER_SIZE_def BLOCK_ENTRY_SIZE_def)

lemma ChunkHeader_deserialize_serialize:
  assumes "length bt = unat (ch_block_count h)"
  shows "ChunkHeader_deserialize (ChunkHeader_serialize h bt @ rest) = Inr (h, bt)"
proof -
  have "\<not> length (ChunkHeader_serialize h bt @ rest) < CHUNK_HEADER_SIZE"
    "\<not> length (ChunkHeader_serialize h bt @ rest) < CHUNK_HEADER_SIZE + unat (ch_block_count h) * BLOCK_ENTRY_SIZE"
    using assms by simp_all
  moreover have "read_many (unat (ch_block_count h)) read_u32 (concat (map write_u32 bt) @ rest) = Inr (bt, rest)"
    by (rule read_many_written_id) (simp_all add: assms)
  ultimately show ?thesis
    unfolding ChunkHeader_deserialize_def
    by (cases h) (simp add: ChunkHeader_serialize_def ChunkHeader_new_def Let_def)
qed

text \<open>
  The chunk header reader is exact: it accepts a buffer precisely when the buffer starts
  with the serialised header and a block table of as many entries as the header counts, and
  returns both.
\<close>

lemma ChunkHeader_deserialize_exact:
  "ChunkHeader_deserialize buf = Inr (h, bt) \<longleftrightarrow>
     length bt = unat (ch_block_count h) \<and> (\<exists>rest. buf = ChunkHeader_serialize h bt @ rest)"
proof
  assume "ChunkHeader_deserialize buf = Inr (h, bt)"
  then show "length bt = unat (ch_block_count h) \<and> (\<exists>rest. buf = ChunkHeader_serialize h bt @ rest)"
    by (auto simp: ChunkHeader_deserialize_def ChunkHeader_serialize_def ChunkHeader_new_def Let_def
        read_iff read_many_iff [where wr = write_u32] CodecId_from_u8_Inr FilterId_from_u8_Inr
        write_u8_eq split: if_splits)
qed (auto intro: ChunkHeader_deserialize_serialize)

section \<open>Padding\<close>

lemma pad_len_dvd:
  assumes "0 < (m :: nat)"
  shows "m dvd n + (if n mod m = 0 then 0 else m - n mod m)"
proof -
  have "n = n div m * m + n mod m" by simp
  moreover have "n mod m < m" using assms by simp
  ultimately have "n + (m - n mod m) = n div m * m + m" by linarith
  then have "n + (m - n mod m) = (n div m + 1) * m" by simp
  then show ?thesis by (simp add: dvd_eq_mod_eq_0)
qed

lemma pad_to_align_eq:
  "pad_to_align buf a =
     buf @ replicate (if length buf mod unat a = 0 then 0 else unat a - length buf mod unat a) 0"
  by (auto simp: pad_to_align_def Let_def resize0_def unat_eq_0)

lemma pad_to_align_dvd: "a \<noteq> 0 \<Longrightarrow> unat a dvd length (pad_to_align buf a)"
  using pad_len_dvd [of "unat a" "length buf"] by (simp add: pad_to_align_eq unat_gt_0)

text \<open>
  Padding keeps the data as a prefix, adds only zero bytes, fewer than one alignment
  unit, and makes the length a multiple of a non-zero alignment.
\<close>

lemma pad_to_align_spec:
  "\<exists>n. pad_to_align buf a = buf @ replicate n 0 \<and>
       (if a = 0 then n = 0 else n < unat a \<and> unat a dvd length (pad_to_align buf a))"
proof (cases "a = 0")
  case True
  then show ?thesis by (simp add: pad_to_align_def)
next
  case False
  let ?r = "length buf mod unat a"
  let ?n = "if ?r = 0 then 0 else unat a - ?r"
  have pos: "0 < unat a" using False by (simp add: unat_gt_0)
  have "unat a dvd length (pad_to_align buf a)" by (rule pad_to_align_dvd [OF False])
  moreover have "?n < unat a" using pos by auto
  ultimately show ?thesis using False by (auto simp: pad_to_align_eq intro!: exI [of _ ?n])
qed

lemma pad_to_align_prefix: "\<exists>z. pad_to_align buf a = buf @ z"
  by (auto simp: pad_to_align_eq)

end
