(* ===== verification/Attrs.thy ===== *)
theory Attrs
  imports Cursor
begin

text \<open>
  Tensor attributes (\<open>crates/tpx-core/src/attrs.rs\<close>): a map from strings to typed values
  and its type-length-value encoding. A \<open>f64\<close> is its bit pattern and an \<open>i64\<close> its
  two's complement pattern, which is all the code moves.
\<close>

definition MAX_ATTR_VALUE_SIZE :: nat where "MAX_ATTR_VALUE_SIZE = 4096"

datatype AttrValue = AString bytes | AInt64 u64 | AFloat64 u64 | ABool bool | ABytes bytes

fun attr_type_id :: "AttrValue \<Rightarrow> AttrTypeId" where
  "attr_type_id (AString _) = TString"
| "attr_type_id (AInt64 _) = TInt64"
| "attr_type_id (AFloat64 _) = TFloat64"
| "attr_type_id (ABool _) = TBool"
| "attr_type_id (ABytes _) = TBytes"

type_synonym attrs = "(bytes, AttrValue) hash_map"

definition Attrs_new :: attrs where
  "Attrs_new = []"

fun attr_val_len :: "AttrValue \<Rightarrow> nat" where
  "attr_val_len (AString s) = length s"
| "attr_val_len (AInt64 _) = 8"
| "attr_val_len (AFloat64 _) = 8"
| "attr_val_len (ABool _) = 1"
| "attr_val_len (ABytes b) = length b"

definition Attrs_set :: "attrs \<Rightarrow> bytes \<Rightarrow> AttrValue \<Rightarrow> attrs res" where
  "Attrs_set a key value =
     (if attr_val_len value > MAX_ATTR_VALUE_SIZE
      then Inl (AttrValueTooLarge (attr_val_len value))
      else Inr (AList.update key value a))"

definition Attrs_get :: "attrs \<Rightarrow> bytes \<Rightarrow> AttrValue option" where
  "Attrs_get a key = map_of a key"

definition Attrs_remove :: "attrs \<Rightarrow> bytes \<Rightarrow> attrs \<times> AttrValue option" where
  "Attrs_remove a key = (AList.delete key a, map_of a key)"

definition Attrs_len :: "attrs \<Rightarrow> nat" where
  "Attrs_len a = length a"

definition Attrs_is_empty :: "attrs \<Rightarrow> bool" where
  "Attrs_is_empty a \<longleftrightarrow> a = []"

text \<open>One value of the encoding: its length field and its bytes.\<close>

fun attr_val_bytes :: "AttrValue \<Rightarrow> bytes" where
  "attr_val_bytes (AString s) = write_u16 (of_nat (length s)) @ s"
| "attr_val_bytes (AInt64 i) = write_u16 8 @ write_u64 i"
| "attr_val_bytes (AFloat64 f) = write_u16 8 @ write_u64 f"
| "attr_val_bytes (ABool b) = write_u16 1 @ write_u8 (if b then 1 else 0)"
| "attr_val_bytes (ABytes b) = write_u16 (of_nat (length b)) @ b"

text \<open>One entry: the key cut to 255 bytes, the type and the value.\<close>

definition attr_entry_bytes :: "bytes \<Rightarrow> AttrValue \<Rightarrow> bytes" where
  "attr_entry_bytes key val =
     (let key_len = (of_nat (min (length key) 255) :: u8) in
      write_u8 key_len @ take (unat key_len) key
      @ write_u8 (AttrTypeId_as_u8 (attr_type_id val)) @ attr_val_bytes val)"

definition Attrs_serialize :: "attrs \<Rightarrow> bytes" where
  "Attrs_serialize a =
     concat (map (\<lambda>key. attr_entry_bytes key (the (map_of a key))) (sort (map fst a)))"

definition attr_decode :: "AttrTypeId \<Rightarrow> nat \<Rightarrow> bytes \<Rightarrow> AttrValue res" where
  "attr_decode type_id val_len val_bytes =
     (case type_id of
        TString \<Rightarrow> bindR (from_utf8 val_bytes) (\<lambda>s. Inr (AString s))
      | TInt64 \<Rightarrow>
          if val_len \<noteq> 8 then Inl (CorruptArchive (Lit ''Int64 attr len != 8''))
          else bindR (read_u64 val_bytes) (\<lambda>(num, _). Inr (AInt64 num))
      | TFloat64 \<Rightarrow>
          if val_len \<noteq> 8 then Inl (CorruptArchive (Lit ''Float64 attr len != 8''))
          else bindR (read_u64 val_bytes) (\<lambda>(num, _). Inr (AFloat64 num))
      | TBool \<Rightarrow>
          if val_len \<noteq> 1 then Inl (CorruptArchive (Lit ''Bool attr len != 1''))
          else Inr (ABool (val_bytes ! 0 \<noteq> 0))
      | TBytes \<Rightarrow> Inr (ABytes val_bytes))"

text \<open>One round of the decoding loop.\<close>

definition attr_read_entry :: "bytes \<Rightarrow> ((bytes \<times> AttrValue) \<times> bytes) res" where
  "attr_read_entry c =
     bindR (read_u8 c) (\<lambda>(key_len, c).
     bindR (read_exact (unat key_len) c) (\<lambda>(key_bytes, c).
     bindR (from_utf8 key_bytes) (\<lambda>key.
     bindR (read_u8 c) (\<lambda>(type_id_u8, c).
     bindR (AttrTypeId_from_u8 type_id_u8) (\<lambda>type_id.
     bindR (read_u16 c) (\<lambda>(val_len16, c).
       let val_len = unat val_len16 in
       if val_len > MAX_ATTR_VALUE_SIZE then Inl (AttrValueTooLarge val_len)
       else
         bindR (read_exact val_len c) (\<lambda>(val_bytes, c).
         bindR (attr_decode type_id val_len val_bytes) (\<lambda>val.
           Inr ((key, val), c)))))))))"

lemma attr_read_entry_shorter:
  "attr_read_entry c = Inr (kv, c') \<Longrightarrow> length c' < length c"
  by (auto simp: attr_read_entry_def read_iff Let_def split: if_splits)

function Attrs_read :: "attrs \<Rightarrow> bytes \<Rightarrow> attrs res" where
  "Attrs_read attrs c =
     (if c = [] then Inr attrs
      else
        bindR (attr_read_entry c) (\<lambda>x.
        bindR (Attrs_set attrs (fst (fst x)) (snd (fst x))) (\<lambda>attrs'.
          Attrs_read attrs' (snd x))))"
  by pat_completeness auto
termination
  by (relation "measure (\<lambda>(a, c). length c)") (auto dest: attr_read_entry_shorter)

declare Attrs_read.simps [simp del]

definition Attrs_deserialize :: "bytes \<Rightarrow> attrs res" where
  "Attrs_deserialize buf = Attrs_read Attrs_new buf"

section \<open>The attribute map\<close>

definition attrs_inv :: "attrs \<Rightarrow> bool" where
  "attrs_inv a \<longleftrightarrow> distinct (map fst a) \<and> (\<forall>(k, v) \<in> set a. attr_val_len v \<le> MAX_ATTR_VALUE_SIZE)"

lemma set_update_subset: "set (AList.update k v a) \<subseteq> insert (k, v) (set a)"
  by (induction a) auto

lemma attrs_inv_new [simp]: "attrs_inv Attrs_new"
  by (simp add: attrs_inv_def Attrs_new_def)

lemma attrs_inv_update:
  "attrs_inv a \<Longrightarrow> attr_val_len v \<le> MAX_ATTR_VALUE_SIZE \<Longrightarrow> attrs_inv (AList.update k v a)"
  using set_update_subset [of k v a] by (auto simp: attrs_inv_def distinct_update)

text \<open>
  Setting an attribute either refuses a value above 4096 bytes and reports its length, or
  succeeds, keeps the invariant (distinct keys, bounded values) and changes exactly that key.
\<close>

lemma Attrs_set_spec:
  assumes "attrs_inv a"
  shows "(case Attrs_set a k v of
            Inl e \<Rightarrow> 4096 < attr_val_len v \<and> e = AttrValueTooLarge (attr_val_len v)
          | Inr a' \<Rightarrow> attr_val_len v \<le> 4096 \<and> attrs_inv a' \<and>
              (\<forall>k'. Attrs_get a' k' = (if k' = k then Some v else Attrs_get a k')))"
  using assms attrs_inv_update [of a v k]
  by (auto simp: Attrs_set_def Attrs_get_def MAX_ATTR_VALUE_SIZE_def update_conv')

lemma Attrs_set_spec_witness:
  "(\<exists>a. Attrs_set Attrs_new (str ''unit'') (AInt64 7) = Inr a \<and> Attrs_get a (str ''unit'') = Some (AInt64 7))
   \<and> Attrs_set Attrs_new (str ''unit'') (ABytes (replicate 4097 0)) = Inl (AttrValueTooLarge 4097)"
  using Attrs_set_spec [OF attrs_inv_new, where k = "str ''unit''" and v = "AInt64 7"]
    Attrs_set_spec [OF attrs_inv_new, where k = "str ''unit''" and v = "ABytes (replicate 4097 0)"]
  by (auto split: sum.splits)

section \<open>Round trip\<close>

fun attr_text_ok :: "AttrValue \<Rightarrow> bool" where
  "attr_text_ok (AString s) = utf8_valid s"
| "attr_text_ok _ = True"

text \<open>What the encoding can carry: keys of at most 255 bytes, values of at most 4096.\<close>

definition attrs_encodable :: "attrs \<Rightarrow> bool" where
  "attrs_encodable a \<longleftrightarrow> attrs_inv a \<and>
     (\<forall>(k, v) \<in> set a. utf8_valid k \<and> length k \<le> 255 \<and> attr_text_ok v)"

definition attrs_sorted :: "attrs \<Rightarrow> attrs" where
  "attrs_sorted a = map (\<lambda>k. (k, the (map_of a k))) (sort (map fst a))"

lemma attr_decode_encoded:
  assumes "attr_text_ok v" and "attr_val_len v \<le> MAX_ATTR_VALUE_SIZE"
  obtains vb where "attr_val_bytes v = write_u16 (of_nat (attr_val_len v)) @ vb"
    and "length vb = attr_val_len v"
    and "attr_decode (attr_type_id v) (attr_val_len v) vb = Inr v"
proof (cases v)
  case (AString s)
  show ?thesis by (rule that [of s]) (use AString assms in \<open>simp_all add: attr_decode_def\<close>)
next
  case (AInt64 i)
  show ?thesis by (rule that [of "write_u64 i"]) (use AInt64 in \<open>simp_all add: attr_decode_def\<close>)
next
  case (AFloat64 f)
  show ?thesis by (rule that [of "write_u64 f"]) (use AFloat64 in \<open>simp_all add: attr_decode_def\<close>)
next
  case (ABool b)
  show ?thesis by (rule that [of "write_u8 (if b then 1 else 0)"])
    (use ABool in \<open>simp_all add: attr_decode_def write_u8_eq\<close>)
next
  case (ABytes b)
  show ?thesis by (rule that [of b]) (use ABytes in \<open>simp_all add: attr_decode_def\<close>)
qed

lemma attr_read_entry_encoded:
  assumes k: "utf8_valid k" "length k \<le> 255"
    and v: "attr_text_ok v" "attr_val_len v \<le> MAX_ATTR_VALUE_SIZE"
  shows "attr_read_entry (attr_entry_bytes k v @ r) = Inr ((k, v), r)"
proof -
  obtain vb where vb: "attr_val_bytes v = write_u16 (of_nat (attr_val_len v)) @ vb"
    "length vb = attr_val_len v" "attr_decode (attr_type_id v) (attr_val_len v) vb = Inr v"
    using attr_decode_encoded [OF v] by blast
  have kl: "unat (of_nat (length k) :: u8) = length k"
    using k by (simp add: unat_of_nat)
  have vl: "unat (of_nat (attr_val_len v) :: u16) = attr_val_len v"
    using v by (simp add: unat_of_nat MAX_ATTR_VALUE_SIZE_def)
  show ?thesis
    using k v vb(2,3)
    by (simp add: attr_read_entry_def attr_entry_bytes_def Let_def kl vl vb(1))
qed

lemma attr_entry_bytes_nonempty [simp]: "attr_entry_bytes k v \<noteq> []"
  by (simp add: attr_entry_bytes_def Let_def write_u8_eq)

lemma Attrs_read_encoded:
  assumes "\<forall>(k, v) \<in> set kvs. utf8_valid k \<and> length k \<le> 255 \<and> attr_text_ok v
             \<and> attr_val_len v \<le> MAX_ATTR_VALUE_SIZE"
    and "distinct (map fst (a @ kvs))"
  shows "Attrs_read a (concat (map (\<lambda>(k, v). attr_entry_bytes k v) kvs)) = Inr (a @ kvs)"
  using assms
proof (induction kvs arbitrary: a)
  case Nil
  then show ?case by (simp add: Attrs_read.simps)
next
  case (Cons kv kvs)
  obtain k v where kv: "kv = (k, v)" by (cases kv)
  have "k \<notin> fst ` set a" using Cons.prems(2) kv by auto
  then have "Attrs_set a k v = Inr (a @ [(k, v)])"
    using Cons.prems(1) kv by (simp add: Attrs_set_def update_new)
  moreover have "Attrs_read (a @ [(k, v)]) (concat (map (\<lambda>(k, v). attr_entry_bytes k v) kvs))
      = Inr ((a @ [(k, v)]) @ kvs)"
    using Cons.prems kv by (intro Cons.IH) auto
  ultimately show ?case
    using Cons.prems(1) kv by (subst Attrs_read.simps) (simp add: attr_read_entry_encoded)
qed

lemma set_attrs_sorted: "distinct (map fst a) \<Longrightarrow> set (attrs_sorted a) = set a"
  by (force simp: attrs_sorted_def image_iff)

lemma fst_attrs_sorted [simp]: "map fst (attrs_sorted a) = sort (map fst a)"
  by (simp add: attrs_sorted_def o_def)

lemma map_of_attrs_sorted: "distinct (map fst a) \<Longrightarrow> map_of (attrs_sorted a) = map_of a"
  by (rule map_of_sorted_perm) (simp_all add: set_attrs_sorted)

lemma Attrs_serialize_sorted:
  "Attrs_serialize a = concat (map (\<lambda>(k, v). attr_entry_bytes k v) (attrs_sorted a))"
  by (simp add: Attrs_serialize_def attrs_sorted_def o_def)

lemma Attrs_deserialize_serialize:
  assumes "attrs_encodable a"
  shows "Attrs_deserialize (Attrs_serialize a) = Inr (attrs_sorted a)"
proof -
  have d: "distinct (map fst a)" using assms by (auto simp: attrs_encodable_def attrs_inv_def)
  have "Attrs_read [] (concat (map (\<lambda>(k, v). attr_entry_bytes k v) (attrs_sorted a))) = Inr ([] @ attrs_sorted a)"
    using assms d
    by (intro Attrs_read_encoded) (auto simp: set_attrs_sorted attrs_encodable_def attrs_inv_def)
  then show ?thesis by (simp add: Attrs_deserialize_def Attrs_new_def Attrs_serialize_sorted)
qed

lemma attrs_encodable_sorted: "attrs_encodable a \<Longrightarrow> attrs_encodable (attrs_sorted a)"
  by (auto simp: attrs_encodable_def attrs_inv_def set_attrs_sorted)

text \<open>
  C17: attributes survive serialisation: reading back the bytes of an encodable map gives a
  map with the same value for every key.
\<close>

theorem Attrs_roundtrip:
  assumes "attrs_encodable a"
  shows "\<exists>b. Attrs_deserialize (Attrs_serialize a) = Inr b \<and> attrs_encodable b \<and>
             (\<forall>k. Attrs_get b k = Attrs_get a k)"
proof -
  have "distinct (map fst a)" using assms by (auto simp: attrs_encodable_def attrs_inv_def)
  then show ?thesis
    using Attrs_deserialize_serialize [OF assms] attrs_encodable_sorted [OF assms]
    by (simp add: Attrs_get_def map_of_attrs_sorted)
qed

theorem Attrs_roundtrip_witness:
  "\<exists>b. Attrs_deserialize (Attrs_serialize [(str ''unit'', AString (str ''m'')), (str ''epoch'', AInt64 7)]) = Inr b
     \<and> Attrs_get b (str ''epoch'') = Some (AInt64 7)"
proof -
  have e: "attrs_encodable [(str ''unit'', AString (str ''m'')), (str ''epoch'', AInt64 7)]"
    by (simp add: attrs_encodable_def attrs_inv_def str_def MAX_ATTR_VALUE_SIZE_def utf8_valid.simps(2))
  from Attrs_roundtrip [OF e] show ?thesis by (auto simp: Attrs_get_def str_def)
qed

text \<open>
  The encoding does not depend on the iteration order of the hash map: equal maps have
  equal bytes, because keys are sorted first.
\<close>

lemma Attrs_serialize_deterministic:
  assumes "distinct (map fst a)" and "distinct (map fst b)"
    and "\<forall>k. Attrs_get a k = Attrs_get b k"
  shows "Attrs_serialize a = Attrs_serialize b"
proof -
  have m: "map_of a = map_of b" using assms(3) by (auto simp: Attrs_get_def)
  then have "set (map fst a) = set (map fst b)"
    by (metis dom_map_of_conv_image_fst set_map)
  then have "sort (map fst a) = sort (map fst b)"
    using assms(1,2) by (metis sorted_distinct_set_unique distinct_sort set_sort sorted_sort)
  with m show ?thesis by (simp add: Attrs_serialize_def)
qed

lemma Attrs_serialize_deterministic_witness:
  "Attrs_serialize [([97], ABool True), ([98], ABool False)]
     = Attrs_serialize [([98], ABool False), ([97], ABool True)]"
  by (rule Attrs_serialize_deterministic) (auto simp: Attrs_get_def)

section \<open>Keys above 255 bytes\<close>

lemma utf8_valid_replicate: "a < 0x80 \<Longrightarrow> utf8_valid (replicate n a @ bs) = utf8_valid bs"
  by (induction n) (simp_all add: utf8_valid.simps(2))

lemma attr_entry_bytes_take: "attr_entry_bytes (take 255 k) v = attr_entry_bytes k v"
  by (cases "length k \<le> 255") (simp_all add: attr_entry_bytes_def Let_def)

lemma attr_read_entry_cut:
  assumes "attr_text_ok v" "attr_val_len v \<le> MAX_ATTR_VALUE_SIZE"
  shows "attr_read_entry (attr_entry_bytes k v @ r) =
    (if utf8_valid (take 255 k) then Inr ((take 255 k, v), r)
     else Inl (CorruptArchive (Display (FromUtf8Error (take 255 k)))))"
proof (cases "utf8_valid (take 255 k)")
  case True
  then show ?thesis
    using attr_read_entry_encoded [OF True _ assms] by (simp add: attr_entry_bytes_take)
next
  case False
  have "unat (of_nat (min (length k) 255) :: u8) = min (length k) 255" by (simp add: unat_of_nat)
  then show ?thesis using False
    by (cases "length k \<le> 255")
      (simp_all add: attr_read_entry_def attr_entry_bytes_def Let_def read_exact_append from_utf8_def)
qed

lemma Attrs_read_cut:
  assumes "\<forall>(k, v) \<in> set kvs. attr_text_ok v \<and> attr_val_len v \<le> MAX_ATTR_VALUE_SIZE"
  shows "Attrs_read a (concat (map (\<lambda>(k, v). attr_entry_bytes k v) kvs)) =
    (case find (\<lambda>k. \<not> utf8_valid (take 255 k)) (map fst kvs) of
       Some k \<Rightarrow> Inl (CorruptArchive (Display (FromUtf8Error (take 255 k))))
     | None \<Rightarrow> Inr (fold (\<lambda>(k, v). AList.update (take 255 k) v) kvs a))"
  using assms
proof (induction kvs arbitrary: a)
  case (Cons kv kvs)
  obtain k v where kv: "kv = (k, v)" by (cases kv)
  then have v: "attr_text_ok v" "attr_val_len v \<le> MAX_ATTR_VALUE_SIZE" using Cons.prems by simp_all
  have "concat (map (\<lambda>(k, v). attr_entry_bytes k v) (kv # kvs)) =
      attr_entry_bytes k v @ concat (map (\<lambda>(k, v). attr_entry_bytes k v) kvs)"
    by (simp add: kv)
  moreover have "attr_entry_bytes k v @ bs \<noteq> []" for bs by simp
  moreover have "Attrs_set a (take 255 k) v = Inr (AList.update (take 255 k) v a)"
    using v by (simp add: Attrs_set_def)
  ultimately show ?case using Cons
    by (subst Attrs_read.simps) (simp add: kv attr_read_entry_cut [OF v] del: append_is_Nil_conv split: option.split)
qed (simp add: Attrs_read.simps)

lemma get_cut_long: "255 < length key \<Longrightarrow>
    map_of (fold (\<lambda>(k, v). AList.update (take 255 k) v) kvs a) key = map_of a key"
proof (induction kvs arbitrary: a)
  case (Cons kv kvs)
  have "key \<noteq> take 255 k" for k using Cons.prems by auto
  then show ?case using Cons by (cases kv) (simp add: update_conv')
qed simp

text \<open>
  C18: the key limit. \<open>set\<close> accepts a key of any length and \<open>get\<close> finds it. What is read back
  from the bytes has every attribute under the first 255 bytes of its key, where of keys that
  agree so far the last one in key order wins; it is a corrupt archive if the cut splits a
  character of some key. So no key beyond 255 bytes is ever found again.
\<close>

theorem Attrs_long_keys:
  assumes "attrs_inv a" and "\<forall>(k, v) \<in> set a. attr_text_ok v"
    and "attr_text_ok val" and "attr_val_len val \<le> 4096"
  shows "\<exists>a'. Attrs_set a key val = Inr a' \<and> Attrs_get a' key = Some val \<and>
    Attrs_deserialize (Attrs_serialize a') =
      (case find (\<lambda>k. \<not> utf8_valid (take 255 k)) (sort (map fst a')) of
         Some k \<Rightarrow> Inl (CorruptArchive (Display (FromUtf8Error (take 255 k))))
       | None \<Rightarrow> Inr (fold (\<lambda>(k, v). AList.update (take 255 k) v) (attrs_sorted a') [])) \<and>
    (\<forall>b. 255 < length key \<longrightarrow> Attrs_deserialize (Attrs_serialize a') = Inr b \<longrightarrow> Attrs_get b key = None)"
proof -
  let ?a = "AList.update key val a"
  have set: "Attrs_set a key val = Inr ?a" using assms(4) by (simp add: Attrs_set_def MAX_ATTR_VALUE_SIZE_def)
  have inv: "attrs_inv ?a" using assms(1,4) by (simp add: attrs_inv_update MAX_ATTR_VALUE_SIZE_def)
  then have "set (attrs_sorted ?a) = set ?a" by (simp add: attrs_inv_def set_attrs_sorted)
  then have "\<forall>(k, v) \<in> set (attrs_sorted ?a). attr_text_ok v \<and> attr_val_len v \<le> MAX_ATTR_VALUE_SIZE"
    using inv set_update_subset [of key val a] assms(2,3) by (fastforce simp: attrs_inv_def)
  from Attrs_read_cut [OF this, of "[]"]
  have read: "Attrs_deserialize (Attrs_serialize ?a) =
      (case find (\<lambda>k. \<not> utf8_valid (take 255 k)) (sort (map fst ?a)) of
         Some k \<Rightarrow> Inl (CorruptArchive (Display (FromUtf8Error (take 255 k))))
       | None \<Rightarrow> Inr (fold (\<lambda>(k, v). AList.update (take 255 k) v) (attrs_sorted ?a) []))"
    by (simp add: Attrs_deserialize_def Attrs_new_def Attrs_serialize_sorted)
  have "Attrs_get b key = None"
    if "255 < length key" "Attrs_deserialize (Attrs_serialize ?a) = Inr b" for b
    using that get_cut_long [OF that(1), of "attrs_sorted ?a" "[]"]
    by (simp add: read Attrs_get_def split: option.splits)
  then show ?thesis using set read by (intro exI [of _ ?a]) (simp add: Attrs_get_def update_conv')
qed

theorem Attrs_long_keys_witness:
  "\<exists>a. utf8_valid (replicate 254 0x61 @ [0xC3, 0xA9]) \<and>
     Attrs_set Attrs_new (replicate 254 0x61 @ [0xC3, 0xA9]) (ABool True) = Inr a \<and>
     Attrs_deserialize (Attrs_serialize a) =
       Inl (CorruptArchive (Display (FromUtf8Error (replicate 254 0x61 @ [0xC3]))))"
proof -
  let ?key = "replicate 254 0x61 @ [0xC3, 0xA9] :: bytes"
  have valid: "utf8_valid ?key" and bad: "\<not> utf8_valid (replicate 254 0x61 @ [0xC3] :: bytes)"
    by (simp_all add: utf8_valid_replicate utf8_valid.simps(2) utf8_cont_def)
  have cut: "take 255 ?key = replicate 254 0x61 @ [0xC3]" by simp
  have set: "Attrs_set Attrs_new ?key (ABool True) = Inr [(?key, ABool True)]"
    by (simp add: Attrs_set_def Attrs_new_def MAX_ATTR_VALUE_SIZE_def)
  show ?thesis
    using Attrs_long_keys [of Attrs_new "ABool True" ?key] set valid bad cut
    by (auto simp: Attrs_new_def attrs_inv_def)
qed

end
