(* ===== verification/Byte_Shuffle.thy ===== *)
theory Byte_Shuffle
  imports TPX_Prelude
begin

text \<open>
  The byte shuffle of \<open>crates/tpx-filter/src/byte_shuffle.rs\<close>: the bytes of equal
  significance of all elements are stored next to each other, a tail shorter than one
  element is copied. The nested loops write into a zeroed output buffer.
\<close>

definition shuffle_scalar :: "bytes \<Rightarrow> nat \<Rightarrow> bytes" where
  "shuffle_scalar data elem_size =
     (if data = [] \<or> elem_size \<le> 1 then data
      else
        let num_elements = length data div elem_size;
            remainder = length data mod elem_size;
            out = fold (\<lambda>b. fold (\<lambda>i out. out[b * num_elements + i := data ! (i * elem_size + b)])
                                  [0..<num_elements])
                    [0..<elem_size] (replicate (length data) 0);
            tail_start = num_elements * elem_size in
        if remainder > 0 then take tail_start out @ drop tail_start data else out)"

definition unshuffle_scalar :: "bytes \<Rightarrow> nat \<Rightarrow> bytes" where
  "unshuffle_scalar data elem_size =
     (if data = [] \<or> elem_size \<le> 1 then data
      else
        let num_elements = length data div elem_size;
            remainder = length data mod elem_size;
            out = fold (\<lambda>b. fold (\<lambda>i out. out[i * elem_size + b := data ! (b * num_elements + i)])
                                  [0..<num_elements])
                    [0..<elem_size] (replicate (length data) 0);
            tail_start = num_elements * elem_size in
        if remainder > 0 then take tail_start out @ drop tail_start data else out)"

definition shuffle :: "bytes \<Rightarrow> nat \<Rightarrow> bytes" where
  "shuffle data elem_size = shuffle_scalar data elem_size"

definition unshuffle :: "bytes \<Rightarrow> nat \<Rightarrow> bytes" where
  "unshuffle data elem_size = unshuffle_scalar data elem_size"

section \<open>The permutation of positions\<close>

lemma mul_add_less: "b < e \<Longrightarrow> i < n \<Longrightarrow> b * n + i < e * (n :: nat)"
  by (metis add.commute mult.commute mult_Suc_right less_le_trans add_less_cancel_left
      Suc_leI mult_le_mono1)

lemma inj_row_major: "inj_on (\<lambda>(b, i). b * n + i) (set (List.product [0..<e] [0..<n]))"
  by (rule inj_onI, clarsimp)
    (metis div_mult_self3 div_less mod_mult_self3 mod_less add.commute add_0 not_less0)

lemma row_major_surj:
  assumes "j < e * n"
  shows "\<exists>b < e. \<exists>i < n. j = b * n + (i :: nat)"
proof -
  have "0 < n" using assms by (cases n) auto
  moreover from this have "j div n < e" using assms by (simp add: less_mult_imp_div_less)
  moreover have "j = j div n * n + j mod n" by simp
  ultimately show ?thesis by (metis mod_less_divisor)
qed

lemma fold_nested_update:
  "fold (\<lambda>b. fold (\<lambda>i out. out[f b i := g b i]) ys) xs out =
   fold (\<lambda>x out. out[case_prod f x := case_prod g x]) (List.product xs ys) out"
  unfolding fold_nested by (rule fold_cong) auto

lemma inj_col_major: "inj_on (\<lambda>(b, i). i * e + b) (set (List.product [0..<e] [0..<n]))"
proof (rule inj_onI, clarsimp)
  fix b i b' i' :: nat assume lt: "b < e" "b' < e" and eq: "i * e + b = i' * e + b'"
  from lt have "(i * e + b) mod e = b" "(i' * e + b') mod e = b'" by simp_all
  with eq have "b = b'" by simp
  with eq lt show "b = b' \<and> i = i'" by auto
qed

definition elements :: "bytes \<Rightarrow> nat \<Rightarrow> nat" where
  "elements data e = length data div e"

lemma elements_le: "elements data e * e \<le> length data"
  by (simp add: elements_def)

lemma length_shuffle [simp, ser_len]: "length (shuffle data e) = length data"
  by (simp add: shuffle_def shuffle_scalar_def Let_def fold_nested_update)

lemma length_unshuffle [simp, ser_len]: "length (unshuffle data e) = length data"
  by (simp add: unshuffle_def unshuffle_scalar_def Let_def fold_nested_update)

lemma shuffle_nth:
  assumes "1 < e" and "b < e" and "i < elements data e"
  shows "shuffle data e ! (b * elements data e + i) = data ! (i * e + b)"
proof -
  let ?n = "elements data e"
  have lt: "b * ?n + i < ?n * e"
    using mul_add_less [OF assms(2,3)] by (simp add: mult.commute)
  then have "b * ?n + i < length data" using elements_le [of data e] by simp
  with fold_update_nth [OF inj_row_major [of ?n e], of "(b, i)" "replicate (length data) 0"
      "\<lambda>(b, i). data ! (i * e + b)"] assms lt
  show ?thesis
    by (auto simp: shuffle_def shuffle_scalar_def Let_def fold_nested_update elements_def
        case_prod_beta nth_append min_def)
qed

lemma unshuffle_nth:
  assumes "1 < e" and "b < e" and "i < elements data e"
  shows "unshuffle data e ! (i * e + b) = data ! (b * elements data e + i)"
proof -
  let ?n = "elements data e"
  have lt: "i * e + b < ?n * e" using mul_add_less [OF assms(3,2)] by simp
  then have "i * e + b < length data" using elements_le [of data e] by simp
  with fold_update_nth [OF inj_col_major [of e ?n], of "(b, i)" "replicate (length data) 0"
      "\<lambda>(b, i). data ! (b * ?n + i)"] assms lt
  show ?thesis
    by (auto simp: unshuffle_def unshuffle_scalar_def Let_def fold_nested_update elements_def
        case_prod_beta nth_append min_def)
qed

lemma tail_nth:
  assumes "1 < e" and "elements data e * e \<le> j" and "j < length data"
  shows "shuffle data e ! j = data ! j" and "unshuffle data e ! j = data ! j"
proof -
  have "length data mod e \<noteq> 0"
    using assms by (metis add_0_right elements_def div_mult_mod_eq not_le)
  then show "shuffle data e ! j = data ! j" and "unshuffle data e ! j = data ! j"
    using assms by (auto simp: shuffle_def shuffle_scalar_def unshuffle_def unshuffle_scalar_def
        Let_def elements_def nth_append min_def fold_nested_update)
qed

text \<open>
  C20: where the bytes go: with at least two bytes per element, byte \<open>b\<close> of element \<open>i\<close>
  is stored at position \<open>b * n + i\<close> of the output (the same-significance bytes are
  contiguous), the incomplete last element stays where it was, and the length is unchanged.
\<close>

theorem shuffle_layout:
  fixes data :: bytes and e :: nat
  assumes "1 < e"
  defines "n \<equiv> length data div e"
  shows "length (shuffle data e) = length data \<and>
     (\<forall>b < e. \<forall>i < n. shuffle data e ! (b * n + i) = data ! (i * e + b)) \<and>
     drop (n * e) (shuffle data e) = drop (n * e) data"
proof -
  have "drop (n * e) (shuffle data e) = drop (n * e) data"
    by (rule nth_equalityI) (use assms tail_nth(1) [of e data] in \<open>simp_all add: elements_def\<close>)
  then show ?thesis using shuffle_nth [of e _ _ data] assms by (simp add: elements_def)
qed

theorem shuffle_layout_witness:
  "shuffle [1, 2, 3, 4, 5, 6, 7] 2 ! (1 * 3 + 2) = 6"
proof -
  let ?d = "[1, 2, 3, 4, 5, 6, 7] :: bytes"
  have n: "length ?d div 2 = 3" by simp
  have h: "1 < (2 :: nat)" by simp
  have "\<And>b i. b < 2 \<Longrightarrow> i < 3 \<Longrightarrow> shuffle ?d 2 ! (b * 3 + i) = ?d ! (i * 2 + b)"
    using shuffle_layout [OF h, of ?d] unfolding n by blast
  from this [of 1 2] show ?thesis by simp
qed

text \<open>The shuffle is undone, whatever the element size and the tail.\<close>

lemma unshuffle_shuffle: "unshuffle (shuffle data e) e = data"
proof (cases "1 < e")
  case False
  then show ?thesis by (simp add: shuffle_def shuffle_scalar_def unshuffle_def unshuffle_scalar_def)
next
  case True
  let ?n = "elements data e"
  have el: "elements (shuffle data e) e = ?n" by (simp add: elements_def)
  show ?thesis
  proof (rule nth_equalityI)
    fix j assume "j < length (unshuffle (shuffle data e) e)"
    then have j: "j < length data" by simp
    show "unshuffle (shuffle data e) e ! j = data ! j"
    proof (cases "j < ?n * e")
      case True
      then obtain i b where "i < ?n" "b < e" "j = i * e + b" using row_major_surj by blast
      then show ?thesis
        using unshuffle_nth [OF \<open>1 < e\<close>, of b i "shuffle data e"] shuffle_nth [OF \<open>1 < e\<close>, of b i data]
        by (simp add: el)
    next
      case False
      then show ?thesis using tail_nth [OF \<open>1 < e\<close>] j el by simp
    qed
  qed simp
qed

end
