(* ===== verification/Bit_Shuffle.thy ===== *)
theory Bit_Shuffle
  imports TPX_Prelude
begin

text \<open>
  The bit shuffle of \<open>crates/tpx-filter/src/bit_shuffle.rs\<close>: bit \<open>p\<close> of byte \<open>i\<close> of an
  \<open>n\<close>-byte block goes to bit position \<open>p * n + i\<close> of the output.
\<close>

definition shuffle_bit :: "bytes \<Rightarrow> nat \<Rightarrow> nat \<Rightarrow> nat \<Rightarrow> bytes \<Rightarrow> bytes" where
  "shuffle_bit data n bit_plane i out =
     (let bit = drop_bit bit_plane (data ! i) AND 1;
          dest_bit_pos = bit_plane * n + i;
          dest_byte = dest_bit_pos div 8;
          dest_bit_in_byte = dest_bit_pos mod 8 in
      if dest_byte < n then out[dest_byte := out ! dest_byte OR push_bit dest_bit_in_byte bit]
      else out)"

definition bit_shuffle :: "bytes \<Rightarrow> bytes" where
  "bit_shuffle data =
     (if data = [] then []
      else let n = length data in
        fold (\<lambda>bit_plane. fold (shuffle_bit data n bit_plane) [0..<n]) [0..<8] (replicate n 0))"

definition unshuffle_bit :: "bytes \<Rightarrow> nat \<Rightarrow> nat \<Rightarrow> nat \<Rightarrow> bytes \<Rightarrow> bytes" where
  "unshuffle_bit data n bit_plane i out =
     (let src_bit_pos = bit_plane * n + i;
          src_byte = src_bit_pos div 8;
          src_bit_in_byte = src_bit_pos mod 8 in
      if src_byte < n then
        let bit = drop_bit src_bit_in_byte (data ! src_byte) AND 1 in
        out[i := out ! i OR push_bit bit_plane bit]
      else out)"

definition bit_unshuffle :: "bytes \<Rightarrow> bytes" where
  "bit_unshuffle data =
     (if data = [] then []
      else let n = length data in
        fold (\<lambda>bit_plane. fold (unshuffle_bit data n bit_plane) [0..<n]) [0..<8] (replicate n 0))"

section \<open>Bits of the output\<close>

text \<open>A loop that sets single bits: which bits are set at the end.\<close>

definition moved_bit :: "nat \<Rightarrow> nat \<Rightarrow> u8 \<Rightarrow> u8" where
  "moved_bit k p w = push_bit k (drop_bit p w AND 1)"

lemma bit_moved_bit: "bit (moved_bit k p w) m \<longleftrightarrow> m = k \<and> k < 8 \<and> bit w p"
  by (cases "m = k") (auto simp: moved_bit_def bit_push_bit_iff bit_and_iff bit_1_iff bit_drop_bit_eq
      bit_exp_iff dest: bit_imp_le_length)

lemma bit_update_or:
  "j < length out \<Longrightarrow> bit ((out :: bytes)[k := out ! k OR v] ! j) m \<longleftrightarrow> bit (out ! j) m \<or> (k = j \<and> bit v m)"
  by (cases "k = j") (auto simp: bit_or_iff)

lemma length_fold_or [simp]:
  "length (fold (\<lambda>x out. if c x then out[f x := out ! f x OR g x] else out) xs out) = length out"
  by (induction xs arbitrary: out) simp_all

lemma bit_fold_or:
  assumes "j < length (out :: bytes)"
  shows "bit (fold (\<lambda>x out. if c x then out[f x := out ! f x OR g x] else out) xs out ! j) m \<longleftrightarrow>
     bit (out ! j) m \<or> (\<exists>x \<in> set xs. c x \<and> f x = j \<and> bit (g x) m)"
  using assms by (induction xs arbitrary: out) (auto simp: bit_update_or)

lemma bit_shuffle_fold:
  "fold (\<lambda>bit_plane. fold (shuffle_bit data n bit_plane) [0..<n]) [0..<8] out =
   fold (\<lambda>x out. if (fst x * n + snd x) div 8 < n
          then out[(fst x * n + snd x) div 8 := out ! ((fst x * n + snd x) div 8)
                 OR moved_bit ((fst x * n + snd x) mod 8) (fst x) (data ! snd x)]
          else out) (List.product [0..<8] [0..<n]) out"
  unfolding fold_nested by (rule fold_cong) (auto simp: shuffle_bit_def Let_def moved_bit_def)

lemma bit_unshuffle_fold:
  "fold (\<lambda>bit_plane. fold (unshuffle_bit data n bit_plane) [0..<n]) [0..<8] out =
   fold (\<lambda>x out. if (fst x * n + snd x) div 8 < n
          then out[snd x := out ! snd x OR moved_bit (fst x)
             ((fst x * n + snd x) mod 8) (data ! ((fst x * n + snd x) div 8))]
          else out) (List.product [0..<8] [0..<n]) out"
  unfolding fold_nested by (rule fold_cong) (auto simp: unshuffle_bit_def Let_def moved_bit_def)

lemma length_bit_shuffle [simp, ser_len]: "length (bit_shuffle data) = length data"
  by (simp add: bit_shuffle_def Let_def bit_shuffle_fold)

lemma length_bit_unshuffle [simp, ser_len]: "length (bit_unshuffle data) = length data"
  by (simp add: bit_unshuffle_def Let_def bit_unshuffle_fold)

lemma plane_index_inj:
  assumes "p * n + i = p' * n + (i' :: nat)" and "i < n" and "i' < n"
  shows "p = p' \<and> i = i'"
proof -
  have "(p * n + i) div n = p" "(p' * n + i') div n = p'" using assms(2,3) by simp_all
  with assms(1) have "p = p'" by simp
  with assms(1) show ?thesis by simp
qed

lemma plane_index_bound: "p < 8 \<Longrightarrow> i < n \<Longrightarrow> (p * n + i) div 8 < (n :: nat)"
proof -
  assume "p < 8" "i < n"
  then have "(p + 1) * n \<le> 8 * n" by (intro mult_le_mono1) simp
  then have "p * n + n \<le> 8 * n" by (simp only: distrib_right mult_1)
  with \<open>i < n\<close> have "p * n + i < n * 8" by linarith
  then show ?thesis by (rule less_mult_imp_div_less)
qed

lemma nth_bit_shuffle:
  assumes "p < 8" and "i < length data"
  shows "length (bit_shuffle data) = length data \<and>
    bit (bit_shuffle data ! ((p * length data + i) div 8)) ((p * length data + i) mod 8)
      \<longleftrightarrow> bit (data ! i) p"
proof -
  let ?n = "length data"
  let ?q = "(p * ?n + i) div 8" and ?r = "(p * ?n + i) mod 8"
  have q: "?q < ?n" using assms by (rule plane_index_bound)
  have "bit (bit_shuffle data ! ?q) ?r \<longleftrightarrow>
      (\<exists>x \<in> {0..<8} \<times> {0..<?n}. (fst x * ?n + snd x) div 8 < ?n \<and> (fst x * ?n + snd x) div 8 = ?q \<and>
         ?r = (fst x * ?n + snd x) mod 8 \<and> bit (data ! snd x) (fst x))"
    using assms q by (auto simp: bit_shuffle_def Let_def bit_shuffle_fold bit_fold_or bit_moved_bit)
  also have "\<dots> \<longleftrightarrow> bit (data ! i) p"
  proof
    assume "bit (data ! i) p"
    then show "\<exists>x \<in> {0..<8} \<times> {0..<?n}. (fst x * ?n + snd x) div 8 < ?n \<and> (fst x * ?n + snd x) div 8 = ?q \<and>
         ?r = (fst x * ?n + snd x) mod 8 \<and> bit (data ! snd x) (fst x)"
      using assms q by (intro bexI [of _ "(p, i)"]) simp_all
  next
    assume "\<exists>x \<in> {0..<8} \<times> {0..<?n}. (fst x * ?n + snd x) div 8 < ?n \<and> (fst x * ?n + snd x) div 8 = ?q \<and>
         ?r = (fst x * ?n + snd x) mod 8 \<and> bit (data ! snd x) (fst x)"
    then obtain p' i' where "i' < ?n" "(p' * ?n + i') div 8 = ?q" "?r = (p' * ?n + i') mod 8"
      "bit (data ! i') p'" by auto
    moreover from this have "p' * ?n + i' = p * ?n + i" by (metis div_mult_mod_eq)
    ultimately show "bit (data ! i) p" using plane_index_inj assms(2) by blast
  qed
  finally show ?thesis by simp
qed

text \<open>
  C21: the bit transpose: bit \<open>p\<close> of input byte \<open>i\<close> is found at bit position \<open>p * n + i\<close> of
  the output, whose length is the input's, so no bit is dropped by the bounds check.
\<close>

theorem bit_shuffle_transpose:
  assumes "p < 8" and "i < length data"
  shows "length (bit_shuffle data) = length data \<and>
    bit (bit_shuffle data ! ((p * length data + i) div 8)) ((p * length data + i) mod 8)
      \<longleftrightarrow> bit (data ! i) p"
  using assms by (rule nth_bit_shuffle)

theorem bit_shuffle_transpose_witness:
  "length (bit_shuffle [0x81, 0x00]) = 2 \<and> bit (bit_shuffle [0x81, 0x00] ! 1) 6"
proof -
  have h: "7 < (8 :: nat)" "0 < length [0x81, 0x00 :: u8]" by simp_all
  from bit_shuffle_transpose [OF h] show ?thesis by simp
qed

lemma bit_unshuffle_nth:
  assumes "p < 8" and "i < length data"
  shows "bit (bit_unshuffle data ! i) p \<longleftrightarrow>
    bit (data ! ((p * length data + i) div 8)) ((p * length data + i) mod 8)"
proof -
  let ?n = "length data"
  have "bit (bit_unshuffle data ! i) p \<longleftrightarrow>
      (\<exists>x \<in> {0..<8} \<times> {0..<?n}. (fst x * ?n + snd x) div 8 < ?n \<and> snd x = i \<and> p = fst x \<and>
         bit (data ! ((fst x * ?n + snd x) div 8)) ((fst x * ?n + snd x) mod 8))"
    using assms by (auto simp: bit_unshuffle_def Let_def bit_unshuffle_fold bit_fold_or bit_moved_bit)
  then show ?thesis using assms plane_index_bound [OF assms] by auto
qed

lemma bit_unshuffle_shuffle: "bit_unshuffle (bit_shuffle data) = data"
proof (rule nth_equalityI)
  fix i assume "i < length (bit_unshuffle (bit_shuffle data))"
  then have i: "i < length data" by simp
  show "bit_unshuffle (bit_shuffle data) ! i = data ! i"
  proof (rule bit_word_eqI)
    fix p assume "p < LENGTH(8)"
    then have "p < 8" by simp
    then show "bit (bit_unshuffle (bit_shuffle data) ! i) p = bit (data ! i) p"
      using bit_unshuffle_nth [of p i "bit_shuffle data"] nth_bit_shuffle [of p i data] i
      by simp
  qed
qed simp

end
