(* ===== verification/Delta_ZigZag.thy ===== *)
theory Delta_ZigZag
  imports Core_Types
begin

text \<open>
  The delta filter of \<open>crates/tpx-filter/src/delta_zigzag.rs\<close>. Elements of 8, 4, 2 or 1
  bytes are little-endian words; differences wrap, and the zigzag code folds the sign into
  the lowest bit. The four width-specific branches of the code are one definition at the
  four word lengths; floating-point types pass through.
\<close>

definition zigzag :: "'a::len word \<Rightarrow> 'a word" where
  "zigzag delta = push_bit 1 delta XOR signed_drop_bit (LENGTH('a) - 1) delta"

definition unzigzag :: "'a::len word \<Rightarrow> 'a word" where
  "unzigzag z = drop_bit 1 z XOR (- (z AND 1))"

fun delta_encode :: "'a::len word \<Rightarrow> 'a word list \<Rightarrow> 'a word list" where
  "delta_encode prev [] = []"
| "delta_encode prev (val # vals) =
     (let delta = val - prev in zigzag delta # delta_encode val vals)"

fun delta_decode :: "'a::len word \<Rightarrow> 'a word list \<Rightarrow> 'a word list" where
  "delta_decode prev [] = []"
| "delta_decode prev (z # zs) =
     (let delta = unzigzag z; val = prev + delta in val # delta_decode val zs)"

text \<open>The complete elements of a buffer, \<open>w\<close> bytes each, and the bytes after them.\<close>

definition le_words :: "nat \<Rightarrow> bytes \<Rightarrow> 'a::len word list" where
  "le_words w data = map (\<lambda>i. of_le (take w (drop (i * w) data))) [0..<length data div w]"

definition dz_encode_width :: "'a::len itself \<Rightarrow> nat \<Rightarrow> bytes \<Rightarrow> bytes" where
  "dz_encode_width _ w data =
     (let count = length data div w in
      if count = 0 then data
      else concat (map (le_bytes w) (delta_encode 0 (le_words w data :: 'a word list)))
           @ drop (count * w) data)"

definition dz_decode_width :: "'a::len itself \<Rightarrow> nat \<Rightarrow> bytes \<Rightarrow> bytes" where
  "dz_decode_width _ w data =
     (let count = length data div w in
      if count = 0 then data
      else concat (map (le_bytes w) (delta_decode 0 (le_words w data :: 'a word list)))
           @ drop (count * w) data)"

fun dz_encode :: "bytes \<Rightarrow> DTypeId \<Rightarrow> bytes" where
  "dz_encode data Int64 = dz_encode_width TYPE(64) 8 data"
| "dz_encode data UInt64 = dz_encode_width TYPE(64) 8 data"
| "dz_encode data Int32 = dz_encode_width TYPE(32) 4 data"
| "dz_encode data UInt32 = dz_encode_width TYPE(32) 4 data"
| "dz_encode data Int16 = dz_encode_width TYPE(16) 2 data"
| "dz_encode data UInt16 = dz_encode_width TYPE(16) 2 data"
| "dz_encode data Int8 = (if data = [] then data else delta_encode 0 data)"
| "dz_encode data UInt8 = (if data = [] then data else delta_encode 0 data)"
| "dz_encode data Bool = (if data = [] then data else delta_encode 0 data)"
| "dz_encode data _ = data"

fun dz_decode :: "bytes \<Rightarrow> DTypeId \<Rightarrow> bytes" where
  "dz_decode data Int64 = dz_decode_width TYPE(64) 8 data"
| "dz_decode data UInt64 = dz_decode_width TYPE(64) 8 data"
| "dz_decode data Int32 = dz_decode_width TYPE(32) 4 data"
| "dz_decode data UInt32 = dz_decode_width TYPE(32) 4 data"
| "dz_decode data Int16 = dz_decode_width TYPE(16) 2 data"
| "dz_decode data UInt16 = dz_decode_width TYPE(16) 2 data"
| "dz_decode data Int8 = (if data = [] then data else delta_decode 0 data)"
| "dz_decode data UInt8 = (if data = [] then data else delta_decode 0 data)"
| "dz_decode data Bool = (if data = [] then data else delta_decode 0 data)"
| "dz_decode data _ = data"

section \<open>The zigzag code\<close>

lemma bit_neg_and_1: "n < LENGTH('a::len) \<Longrightarrow> bit (- ((z :: 'a word) AND 1)) n \<longleftrightarrow> bit z 0"
  by (cases "odd z") (simp_all add: and_one_eq bit_0 mod_2_eq_odd)

lemma zigzag_inverse: "unzigzag (zigzag d) = (d :: 'a::len word)"
proof (rule bit_word_eqI)
  fix n assume n: "n < LENGTH('a)"
  have z: "bit (zigzag d) m \<longleftrightarrow> (1 \<le> m \<and> bit d (m - 1)) \<noteq> bit d (LENGTH('a) - 1)" if "m < LENGTH('a)" for m
    using that unfolding zigzag_def bit_xor_iff bit_push_bit_iff bit_signed_drop_bit_iff by (cases m) auto
  have z0: "bit (zigzag d) 0 \<longleftrightarrow> bit d (LENGTH('a) - 1)"
    by (simp add: z)
  show "bit (unzigzag (zigzag d)) n = bit d n"
  proof (cases "Suc n < LENGTH('a)")
    case True
    then show ?thesis using n z0
      by (simp add: unzigzag_def bit_xor_iff bit_drop_bit_eq bit_neg_and_1)
        (auto simp: z)
  next
    case False
    then have "n = LENGTH('a) - 1" using n by simp
    moreover have "\<not> bit (zigzag d) (Suc n)" using False by (auto dest: bit_imp_le_length)
    ultimately show ?thesis using n z0
      by (simp add: unzigzag_def bit_xor_iff bit_drop_bit_eq bit_neg_and_1)
  qed
qed

text \<open>
  The zigzag code is undone at every width and for every value, the wrapped extremes
  included, and a difference and its complement differ in the lowest bit only.
\<close>

lemma unzigzag_zigzag: "unzigzag (zigzag d) = (d :: 'a::len word)"
  by (rule zigzag_inverse)

lemma delta_decode_encode: "delta_decode prev (delta_encode prev vs) = vs"
  by (induction vs arbitrary: prev) (simp_all add: Let_def zigzag_inverse)

lemma length_delta_encode [simp]: "length (delta_encode prev vs) = length vs"
  by (induction vs arbitrary: prev) (simp_all add: Let_def)

lemma length_delta_decode [simp]: "length (delta_decode prev vs) = length vs"
  by (induction vs arbitrary: prev) (simp_all add: Let_def)

section \<open>Elements of a buffer\<close>

lemma length_le_words [simp]: "length (le_words w data) = length data div w"
  by (simp add: le_words_def)

lemma length_concat_le_bytes [simp]: "length (concat (map (le_bytes w) ws)) = w * length ws"
  by (induction ws) simp_all

lemma take_drop_concat_le:
  "i < length ws \<Longrightarrow> take w (drop (i * w) (concat (map (le_bytes w) ws) @ t)) = le_bytes w (ws ! i)"
proof (induction ws arbitrary: i)
  case (Cons a ws)
  then show ?case by (cases i) simp_all
qed simp

lemma le_words_concat:
  assumes "LENGTH('a::len) \<le> 8 * w" and "length t < w"
  shows "(le_words w (concat (map (le_bytes w) ws) @ t) :: 'a word list) = ws"
proof (rule nth_equalityI)
  have len: "length (concat (map (le_bytes w) ws) @ t) div w = length ws"
    using assms(2) by simp
  then show "length (le_words w (concat (map (le_bytes w) ws) @ t) :: 'a word list) = length ws" by simp
  fix i assume "i < length (le_words w (concat (map (le_bytes w) ws) @ t) :: 'a word list)"
  then have "i < length ws" using len by simp
  then show "(le_words w (concat (map (le_bytes w) ws) @ t) :: 'a word list) ! i = ws ! i"
    using len assms(1) by (simp add: le_words_def take_drop_concat_le of_le_le_bytes del: take_append drop_append)
qed

lemma concat_le_words:
  assumes "8 * w \<le> LENGTH('a::len)" and "0 < w"
  shows "concat (map (le_bytes w) (le_words w data :: 'a word list)) = take (length data div w * w) data"
proof -
  have "concat (map (\<lambda>i. take w (drop (i * w) data)) [0..<n]) = take (n * w) data"
    if "n * w \<le> length data" for n
    using that
  proof (induction n)
    case (Suc n)
    have "Suc n * w = n * w + w" by simp
    with Suc show ?case by (simp only: take_add) simp
  qed simp
  moreover have "le_bytes w (of_le (take w (drop (i * w) data)) :: 'a word) = take w (drop (i * w) data)"
    if "i < length data div w" for i
  proof (rule le_bytes_of_le [OF _ assms(1)])
    have "Suc i * w \<le> length data div w * w" using that by (intro mult_le_mono1) simp
    also have "\<dots> \<le> length data" by simp
    finally show "length (take w (drop (i * w) data)) = w" by simp
  qed
  then have "map (le_bytes w) (le_words w data :: 'a word list)
      = map (\<lambda>i. take w (drop (i * w) data)) [0..<length data div w]"
    unfolding le_words_def map_map by (intro map_cong) auto
  ultimately show ?thesis by simp
qed

lemma length_dz_encode_width: "0 < w \<Longrightarrow> length (dz_encode_width t w data) = length data"
  by (simp add: dz_encode_width_def Let_def)

lemma dz_decode_encode_width:
  assumes "LENGTH('a::len) = 8 * w" and "0 < w"
  shows "dz_decode_width TYPE('a) w (dz_encode_width TYPE('a) w data) = data"
proof (cases "length data div w = 0")
  case True
  then show ?thesis by (simp add: dz_encode_width_def dz_decode_width_def Let_def)
next
  case False
  let ?c = "length data div w" and ?ws = "le_words w data :: 'a word list"
  let ?t = "drop (?c * w) data"
  have t: "length ?t < w" using assms(2) by (simp add: minus_div_mult_eq_mod)
  have e: "dz_encode_width TYPE('a) w data = concat (map (le_bytes w) (delta_encode 0 ?ws)) @ ?t"
    using False by (simp add: dz_encode_width_def Let_def)
  have "length (dz_encode_width TYPE('a) w data) = length data"
    using assms(2) by (rule length_dz_encode_width)
  moreover have "(le_words w (dz_encode_width TYPE('a) w data) :: 'a word list) = delta_encode 0 ?ws"
    unfolding e by (rule le_words_concat) (use assms t in simp_all)
  moreover have "drop (?c * w) (dz_encode_width TYPE('a) w data) = ?t"
    unfolding e by (rule drop_append_exact) simp
  ultimately show ?thesis
    using False assms by (simp add: dz_decode_width_def Let_def delta_decode_encode concat_le_words)
qed

lemma length_dz_encode [simp, ser_len]: "length (dz_encode data dt) = length data"
  by (cases dt) (simp_all add: length_dz_encode_width)

lemma dz_decode_encode: "dz_decode (dz_encode data dt) dt = data"
proof -
  have *: "dz_decode_width TYPE(64) 8 (dz_encode_width TYPE(64) 8 data) = data"
    "dz_decode_width TYPE(32) 4 (dz_encode_width TYPE(32) 4 data) = data"
    "dz_decode_width TYPE(16) 2 (dz_encode_width TYPE(16) 2 data) = data"
    by (rule dz_decode_encode_width; simp)+
  have "delta_encode 0 data = [] \<longleftrightarrow> data = []" by (cases data) (simp_all add: Let_def)
  then show ?thesis by (cases dt) (simp_all add: * delta_decode_encode)
qed

end
