(* ===== verification/Filters.thy ===== *)
theory Filters
  imports Byte_Shuffle Bit_Shuffle Delta_ZigZag
begin

text \<open>
  The filter interface of \<open>crates/tpx-filter/src/lib.rs\<close>. The trait object that
  \<open>get_filter\<close> returns is the pair of functions selected by the identifier. The contract
  the storage path relies on, that a filter keeps the length of a block and can be undone,
  is the locale \<open>block_filter\<close>; every filter of the code interprets it.
\<close>

fun filter_apply :: "FilterId \<Rightarrow> bytes \<Rightarrow> DTypeId \<Rightarrow> bytes" where
  "filter_apply NoFilter block dtype = block"
| "filter_apply ByteShuffle block dtype = shuffle block (element_size dtype)"
| "filter_apply BitShuffle block dtype = bit_shuffle block"
| "filter_apply DeltaZigZag block dtype = dz_encode block dtype"

fun filter_revert :: "FilterId \<Rightarrow> bytes \<Rightarrow> DTypeId \<Rightarrow> bytes" where
  "filter_revert NoFilter block dtype = block"
| "filter_revert ByteShuffle block dtype = unshuffle block (element_size dtype)"
| "filter_revert BitShuffle block dtype = bit_unshuffle block"
| "filter_revert DeltaZigZag block dtype = dz_decode block dtype"

locale block_filter =
  fixes apply_f :: "bytes \<Rightarrow> DTypeId \<Rightarrow> bytes"
    and revert_f :: "bytes \<Rightarrow> DTypeId \<Rightarrow> bytes"
  assumes revert_apply: "revert_f (apply_f block dtype) dtype = block"
    and length_apply: "length (apply_f block dtype) = length block"
begin

lemma apply_inj: "apply_f a dtype = apply_f b dtype \<Longrightarrow> a = b"
  by (metis revert_apply)

lemma revert_blocks: "concat (map (\<lambda>b. revert_f (apply_f b dtype) dtype) bs) = concat bs"
  by (simp add: revert_apply)

lemma apply_surj: "\<exists>a. length a = length b \<and> revert_f a dtype = b"
  by (intro exI [of _ "apply_f b dtype"]) (simp add: revert_apply length_apply)

end

interpretation no_filter: block_filter "filter_apply NoFilter" "filter_revert NoFilter"
  by unfold_locales simp_all

interpretation byte_shuffle: block_filter "filter_apply ByteShuffle" "filter_revert ByteShuffle"
  by unfold_locales (simp_all add: unshuffle_shuffle)

interpretation bit_shuffle: block_filter "filter_apply BitShuffle" "filter_revert BitShuffle"
  by unfold_locales (simp_all add: bit_unshuffle_shuffle)

interpretation delta_zigzag: block_filter "filter_apply DeltaZigZag" "filter_revert DeltaZigZag"
  by unfold_locales (simp_all add: dz_decode_encode)

interpretation any_filter: block_filter "filter_apply f" "filter_revert f" for f
proof unfold_locales
  show "filter_revert f (filter_apply f block dtype) dtype = block" for block dtype
    by (cases f) (simp_all only: no_filter.revert_apply byte_shuffle.revert_apply
        bit_shuffle.revert_apply delta_zigzag.revert_apply)
  show "length (filter_apply f block dtype) = length block" for block dtype
    by (cases f) (simp_all only: no_filter.length_apply byte_shuffle.length_apply
        bit_shuffle.length_apply delta_zigzag.length_apply)
qed

text \<open>
  C14: every filter is lossless: for each filter, element type and block, including blocks
  that are not a whole number of elements, reverting what was applied gives the block back,
  and the filtered block has the same length.
\<close>

theorem filter_lossless:
  "filter_revert f (filter_apply f block dtype) dtype = block \<and>
   length (filter_apply f block dtype) = length block"
  by (simp only: any_filter.revert_apply any_filter.length_apply)

end
