(* ===== verification/Chimp128_Codec.thy ===== *)
theory Chimp128_Codec
  imports Delta_ZigZag Cursor
begin

text \<open>
  The streaming float compressor of \<open>crates/tpx-codec/src/chimp128.rs\<close> and its codec
  \<open>Chimp128Codec\<close> of \<open>crates/tpx-codec/src/lib.rs\<close>. Floats are their bit patterns.
  The encoder appends bits, most significant first, to a byte buffer; the decoder reads
  them back, and reads zero bits after the end of its input, so its \<open>Result\<close> values are
  always \<open>Ok\<close> and are left out. Small counters (\<open>u8\<close> bit counts and zero counts, the
  ring index) are natural numbers; 255 is the unset value \<open>u8::MAX\<close> of the zero counts.
\<close>

section \<open>Bit counts of a word\<close>

definition leading_zeros :: "'a::len word \<Rightarrow> nat" where
  "leading_zeros w = length (takeWhile (\<lambda>i. \<not> bit w i) (rev [0..<LENGTH('a)]))"

definition trailing_zeros :: "'a::len word \<Rightarrow> nat" where
  "trailing_zeros w = length (takeWhile (\<lambda>i. \<not> bit w i) [0..<LENGTH('a)])"

section \<open>Encoder\<close>

record chimp_encoder =
  ce_history :: "u64 list"
  ce_history_idx :: nat
  ce_prev_val :: u64
  ce_prev_lz :: nat
  ce_prev_tz :: nat
  ce_bits_buffer :: u64
  ce_bits_count :: nat
  ce_output :: bytes
  ce_count :: u32

definition encoder_new :: chimp_encoder where
  "encoder_new = \<lparr>ce_history = replicate 128 0, ce_history_idx = 0, ce_prev_val = 0,
     ce_prev_lz = 255, ce_prev_tz = 255, ce_bits_buffer = 0, ce_bits_count = 0,
     ce_output = [], ce_count = 0\<rparr>"

definition write_bit :: "u64 \<Rightarrow> nat \<Rightarrow> chimp_encoder \<Rightarrow> chimp_encoder" where
  "write_bit value i e =
     (let bit = drop_bit i value AND 1;
          buf = push_bit 1 (ce_bits_buffer e) OR bit;
          cnt = ce_bits_count e + 1 in
      if cnt = 8
      then e\<lparr>ce_output := ce_output e @ [ucast buf], ce_bits_buffer := 0, ce_bits_count := 0\<rparr>
      else e\<lparr>ce_bits_buffer := buf, ce_bits_count := cnt\<rparr>)"

definition write_bits :: "chimp_encoder \<Rightarrow> u64 \<Rightarrow> nat \<Rightarrow> chimp_encoder" where
  "write_bits e value num_bits = fold (write_bit value) (rev [0..<num_bits]) e"

definition encode_xor_payload :: "chimp_encoder \<Rightarrow> u64 \<Rightarrow> chimp_encoder" where
  "encode_xor_payload e dxor =
     (let (lz, tz, sig, val) =
            (if dxor = 0 then (63, 0, 1, 0)
             else
               let lz = min (leading_zeros dxor) 63; tz = min (trailing_zeros dxor) 63 in
               (lz, tz, max (64 - lz - tz) 1, drop_bit tz dxor)) in
      if ce_prev_lz e \<noteq> 255 \<and> lz = ce_prev_lz e \<and> tz = ce_prev_tz e
      then write_bits (write_bits e 0 1) val sig
      else
        let e = write_bits e 1 1;
            e = write_bits e (of_nat lz) 6;
            e = write_bits e (of_nat tz) 6;
            e = write_bits e val sig in
        e\<lparr>ce_prev_lz := lz, ce_prev_tz := tz\<rparr>)"

definition best_match :: "u64 list \<Rightarrow> u64 \<Rightarrow> u64 \<Rightarrow> u64 \<times> nat option" where
  "best_match history val dxor =
     fold (\<lambda>i (best_xor, best_idx).
             let candidate_xor = val XOR history ! i in
             if leading_zeros candidate_xor > leading_zeros best_xor
             then (candidate_xor, Some i) else (best_xor, best_idx))
       [0..<128] (dxor, None)"

definition encode_u64_internal :: "chimp_encoder \<Rightarrow> u64 \<Rightarrow> chimp_encoder" where
  "encode_u64_internal e val =
     (if ce_count e = 0
      then write_bits (e\<lparr>ce_prev_val := val, ce_history := (ce_history e)[0 := val],
                         ce_history_idx := 1\<rparr>) val 64
      else
        let dxor = val XOR ce_prev_val e;
            e' = (if dxor = 0 then write_bits e 0 2
                  else (case best_match (ce_history e) val dxor of
                          (best_xor, Some idx) \<Rightarrow>
                            encode_xor_payload (write_bits (write_bits e 1 2) (of_nat idx) 7) best_xor
                        | (best_xor, None) \<Rightarrow>
                            encode_xor_payload (write_bits e 1 1) dxor)) in
        e'\<lparr>ce_prev_val := val,
           ce_history := (ce_history e')[ce_history_idx e' mod 128 := val],
           ce_history_idx := ce_history_idx e' + 1\<rparr>)"

definition encode_f32 :: "chimp_encoder \<Rightarrow> u32 \<Rightarrow> chimp_encoder" where
  "encode_f32 e val =
     (let bits = push_bit 32 (ucast val); e' = encode_u64_internal e bits in
      e'\<lparr>ce_count := ce_count e' + 1\<rparr>)"

definition encode_f64 :: "chimp_encoder \<Rightarrow> u64 \<Rightarrow> chimp_encoder" where
  "encode_f64 e val =
     (let e' = encode_u64_internal e val in e'\<lparr>ce_count := ce_count e' + 1\<rparr>)"

definition encoder_finish :: "chimp_encoder \<Rightarrow> bytes" where
  "encoder_finish e =
     (let out = (if ce_bits_count e > 0
                 then ce_output e @ [ucast (push_bit (8 - ce_bits_count e) (ce_bits_buffer e))]
                 else ce_output e) in
      write_u32 (ce_count e) @ out)"

section \<open>Decoder\<close>

record chimp_decoder =
  cd_cursor :: bytes
  cd_history :: "u64 list"
  cd_history_idx :: nat
  cd_prev_val :: u64
  cd_prev_lz :: nat
  cd_prev_tz :: nat
  cd_current_byte :: u8
  cd_bits_left :: nat
  cd_total_count :: u32
  cd_decoded_count :: u32

definition decoder_new :: "bytes \<Rightarrow> chimp_decoder res" where
  "decoder_new data =
     (if length data < 4 then Inl (BufferTooSmall ''Chimp128Decoder'' 4 (length data))
      else bindR (read_u32 data) (\<lambda>(total_count, cursor).
        Inr \<lparr>cd_cursor = cursor, cd_history = replicate 128 0, cd_history_idx = 0,
             cd_prev_val = 0, cd_prev_lz = 255, cd_prev_tz = 255, cd_current_byte = 0,
             cd_bits_left = 0, cd_total_count = total_count, cd_decoded_count = 0\<rparr>))"

definition refill :: "chimp_decoder \<Rightarrow> chimp_decoder" where
  "refill d =
     (if cd_bits_left d = 0
      then (case cd_cursor d of
              [] \<Rightarrow> d\<lparr>cd_current_byte := 0, cd_bits_left := 8\<rparr>
            | b # bs \<Rightarrow> d\<lparr>cd_cursor := bs, cd_current_byte := b, cd_bits_left := 8\<rparr>)
      else d)"

definition read_bit :: "chimp_decoder \<Rightarrow> u64 \<times> chimp_decoder" where
  "read_bit d =
     (let d = refill d; left = cd_bits_left d - 1 in
      (ucast (drop_bit left (cd_current_byte d) AND 1), d\<lparr>cd_bits_left := left\<rparr>))"

fun read_bits_from :: "u64 \<Rightarrow> chimp_decoder \<Rightarrow> nat \<Rightarrow> u64 \<times> chimp_decoder" where
  "read_bits_from result d 0 = (result, d)"
| "read_bits_from result d (Suc n) =
     (let (bit, d') = read_bit d in read_bits_from (push_bit 1 result OR bit) d' n)"

definition read_bits :: "chimp_decoder \<Rightarrow> nat \<Rightarrow> u64 \<times> chimp_decoder" where
  "read_bits d num_bits = read_bits_from 0 d num_bits"

text \<open>
  The shift by the stored trailing-zero count takes the count modulo 64, as a release build
  does for a count that a malformed stream never set.
\<close>

definition decode_xor_payload :: "chimp_decoder \<Rightarrow> u64 \<times> chimp_decoder" where
  "decode_xor_payload d =
     (let (flag, d) = read_bits d 1;
          (lz, tz, d) =
            (if flag = 1 then
               let (l, d) = read_bits d 6; (t, d) = read_bits d 6;
                   lz = unat l mod 256; tz = unat t mod 256 in
               (lz, tz, d\<lparr>cd_prev_lz := lz, cd_prev_tz := tz\<rparr>)
             else (cd_prev_lz d, cd_prev_tz d, d));
          sig = max (64 - lz - tz) 1;
          (meaningful, d) = read_bits d sig in
      (push_bit (tz mod 64) meaningful, d))"

definition decode_u64_internal :: "chimp_decoder \<Rightarrow> u64 \<times> chimp_decoder" where
  "decode_u64_internal d =
     (if cd_decoded_count d = 0 then
        let (val, d) = read_bits d 64 in
        (val, d\<lparr>cd_prev_val := val, cd_history := (cd_history d)[0 := val], cd_history_idx := 1\<rparr>)
      else
        let (first_bit, d) = read_bits d 1;
            (val, d) =
              (if first_bit = 0 then
                 let (second_bit, d) = read_bits d 1 in
                 if second_bit = 0 then (cd_prev_val d, d)
                 else
                   let (hist_idx, d) = read_bits d 7;
                       base_val = cd_history d ! (unat hist_idx mod 128);
                       (dxor, d) = decode_xor_payload d in
                   (base_val XOR dxor, d)
               else
                 let (dxor, d) = decode_xor_payload d in
                 (cd_prev_val d XOR dxor, d)) in
        (val, d\<lparr>cd_prev_val := val,
                cd_history := (cd_history d)[cd_history_idx d mod 128 := val],
                cd_history_idx := cd_history_idx d + 1\<rparr>))"

definition decode_f32 :: "chimp_decoder \<Rightarrow> (u32 \<times> chimp_decoder) option" where
  "decode_f32 d =
     (if cd_decoded_count d \<ge> cd_total_count d then None
      else let (val, d) = decode_u64_internal d in
        Some (ucast (drop_bit 32 val), d\<lparr>cd_decoded_count := cd_decoded_count d + 1\<rparr>))"

definition decode_f64 :: "chimp_decoder \<Rightarrow> (u64 \<times> chimp_decoder) option" where
  "decode_f64 d =
     (if cd_decoded_count d \<ge> cd_total_count d then None
      else let (val, d) = decode_u64_internal d in
        Some (val, d\<lparr>cd_decoded_count := cd_decoded_count d + 1\<rparr>))"

text \<open>Decoding one value changes neither of the decoder's counters.\<close>

definition counters :: "chimp_decoder \<Rightarrow> u32 \<times> u32" where
  "counters d = (cd_total_count d, cd_decoded_count d)"

lemma counters_read_bit: "counters (snd (read_bit d)) = counters d"
  by (simp add: read_bit_def refill_def counters_def Let_def split: list.split)

lemma counters_read_bits_from: "counters (snd (read_bits_from r d n)) = counters d"
  by (induction n arbitrary: r d) (auto simp: split_beta counters_read_bit)

lemma counters_read_bits: "read_bits d n = (v, d') \<Longrightarrow> counters d' = counters d"
  unfolding read_bits_def by (metis counters_read_bits_from snd_conv)

lemma counters_decode_xor_payload: "decode_xor_payload d = (v, d') \<Longrightarrow> counters d' = counters d"
  by (auto simp: decode_xor_payload_def Let_def counters_def split: prod.splits if_splits
      dest!: counters_read_bits)

lemma counters_decode_u64: "decode_u64_internal d = (v, d') \<Longrightarrow> counters d' = counters d"
  by (auto simp: decode_u64_internal_def Let_def counters_def split: prod.splits if_splits
      dest!: counters_read_bits counters_decode_xor_payload)

lemma decode_f64_progress:
  assumes "decode_f64 d = Some (v, d')"
  shows "unat (cd_total_count d' - cd_decoded_count d') < unat (cd_total_count d - cd_decoded_count d)"
proof -
  obtain w d1 where d1: "decode_u64_internal d = (w, d1)" by fastforce
  with assms have lt: "cd_decoded_count d < cd_total_count d"
    and d': "d' = d1\<lparr>cd_decoded_count := cd_decoded_count d1 + 1\<rparr>"
    by (auto simp: decode_f64_def split: if_splits)
  from counters_decode_u64 [OF d1] have c: "cd_total_count d1 = cd_total_count d" "cd_decoded_count d1 = cd_decoded_count d"
    by (simp_all add: counters_def)
  show ?thesis using lt unfolding d' by (simp add: c) unat_arith
qed

text \<open>The decompression loops: decode until the decoder returns nothing.\<close>

function decode_all_f64 :: "chimp_decoder \<Rightarrow> u64 list" where
  "decode_all_f64 d =
     (case decode_f64 d of None \<Rightarrow> [] | Some (v, d') \<Rightarrow> v # decode_all_f64 d')"
  by pat_completeness auto
termination
  by (relation "measure (\<lambda>d. unat (cd_total_count d - cd_decoded_count d))")
    (auto dest: decode_f64_progress)

lemma decode_f32_f64: "decode_f32 d = map_option (apfst (\<lambda>v. ucast (drop_bit 32 v))) (decode_f64 d)"
  by (simp add: decode_f32_def decode_f64_def Let_def split: prod.split)

function decode_all_f32 :: "chimp_decoder \<Rightarrow> u32 list" where
  "decode_all_f32 d =
     (case decode_f32 d of None \<Rightarrow> [] | Some (v, d') \<Rightarrow> v # decode_all_f32 d')"
  by pat_completeness auto
termination
  by (relation "measure (\<lambda>d. unat (cd_total_count d - cd_decoded_count d))")
    (auto simp: decode_f32_f64 dest: decode_f64_progress)

declare decode_all_f64.simps [simp del] decode_all_f32.simps [simp del]

section \<open>The codec\<close>

definition chimp_compress :: "bytes \<Rightarrow> DTypeId \<Rightarrow> bytes res" where
  "chimp_compress data dtype =
     (if dtype = Float64
      then Inr (encoder_finish (fold (\<lambda>v e. encode_f64 e v) (le_words 8 data) encoder_new))
      else Inr (encoder_finish (fold (\<lambda>v e. encode_f32 e v) (le_words 4 data) encoder_new)))"

definition chimp_decompress :: "bytes \<Rightarrow> nat \<Rightarrow> DTypeId \<Rightarrow> bytes res" where
  "chimp_decompress data uncompressed_len dtype =
     bindR (decoder_new data) (\<lambda>decoder.
       let out = (if dtype = Float64 then concat (map (le_bytes 8) (decode_all_f64 decoder))
                  else concat (map (le_bytes 4) (decode_all_f32 decoder))) in
       if length out \<noteq> uncompressed_len
       then Inl (DecompressLengthMismatch uncompressed_len (length out))
       else Inr out)"

section \<open>Bit strings\<close>

definition msb_bits :: "nat \<Rightarrow> 'a::len word \<Rightarrow> bool list" where
  "msb_bits n w = map (bit w) (rev [0..<n])"

lemma length_msb_bits [simp]: "length (msb_bits n w) = n"
  by (simp add: msb_bits_def)

lemma msb_bits_0 [simp]: "msb_bits 0 w = []"
  by (simp add: msb_bits_def)

lemma msb_bits_Suc: "msb_bits (Suc n) w = bit w n # msb_bits n w"
  by (simp add: msb_bits_def)

lemma msb_bits_add: "msb_bits (m + n) w = msb_bits m (drop_bit n w) @ msb_bits n w"
  by (induction m) (simp_all add: msb_bits_Suc bit_drop_bit_eq add.commute)

lemma msb_bits_cong: "(\<And>i. i < n \<Longrightarrow> bit v i = bit w i) \<Longrightarrow> msb_bits n v = msb_bits n w"
  by (simp add: msb_bits_def)

definition of_msb :: "u64 \<Rightarrow> bool list \<Rightarrow> u64" where
  "of_msb acc bs = fold (\<lambda>b a. push_bit 1 a OR of_bool b) bs acc"

lemma of_msb_msb_bits: "of_msb acc (msb_bits n v) = push_bit n acc OR take_bit n v"
proof (induction n arbitrary: acc)
  case 0
  then show ?case by (simp add: of_msb_def)
next
  case (Suc n)
  have "of_msb acc (msb_bits (Suc n) v) = push_bit n (push_bit 1 acc OR of_bool (bit v n)) OR take_bit n v"
    using Suc [of "push_bit 1 acc OR of_bool (bit v n)"] by (simp add: of_msb_def msb_bits_Suc)
  also have "\<dots> = push_bit (Suc n) acc OR take_bit (Suc n) v"
  proof (rule bit_word_eqI)
    fix i assume i: "i < LENGTH(64)"
    show "bit (push_bit n (push_bit 1 acc OR of_bool (bit v n)) OR take_bit n v) i =
        bit (push_bit (Suc n) acc OR take_bit (Suc n) v) i"
      using i by (cases "i = n")
        (auto simp: bit_or_iff bit_push_bit_iff bit_take_bit_iff less_Suc_eq bit_1_iff simp del: push_bit_Suc
          dest: bit_imp_le_length)
  qed
  finally show ?case .
qed

section \<open>What the encoder has written\<close>

definition written :: "chimp_encoder \<Rightarrow> bool list" where
  "written e = concat (map (msb_bits 8) (ce_output e)) @ msb_bits (ce_bits_count e) (ce_bits_buffer e)"

definition enc_ctx :: "chimp_encoder \<Rightarrow> u64 list \<times> nat \<times> u64 \<times> nat \<times> nat \<times> u32" where
  "enc_ctx e = (ce_history e, ce_history_idx e, ce_prev_val e, ce_prev_lz e, ce_prev_tz e, ce_count e)"

lemma write_bit_spec:
  assumes "ce_bits_count e < 8"
  shows "written (write_bit v i e) = written e @ [bit v i]"
    and "ce_bits_count (write_bit v i e) < 8"
    and "enc_ctx (write_bit v i e) = enc_ctx e"
proof -
  let ?buf = "push_bit 1 (ce_bits_buffer e) OR (drop_bit i v AND 1)"
  have b0: "bit ?buf 0 = bit v i"
    unfolding bit_or_iff bit_push_bit_iff by (simp add: bit_and_iff bit_drop_bit_eq)
  have bS: "bit ?buf (Suc k) = bit (ce_bits_buffer e) k" if "k < 63" for k
    using that unfolding bit_or_iff bit_push_bit_iff by (simp add: bit_and_iff bit_1_iff)
  have app: "msb_bits (Suc n) ?buf = msb_bits n (ce_bits_buffer e) @ [bit v i]" if "n < 8" for n
  proof -
    have "msb_bits (n + 1) ?buf = msb_bits n (drop_bit 1 ?buf) @ msb_bits 1 ?buf" by (rule msb_bits_add)
    moreover have "msb_bits n (drop_bit 1 ?buf) = msb_bits n (ce_bits_buffer e)"
    proof (rule msb_bits_cong)
      fix k assume "k < n"
      then have "bit ?buf (Suc k) = bit (ce_bits_buffer e) k" using that by (intro bS) simp
      then show "bit (drop_bit 1 ?buf) k = bit (ce_bits_buffer e) k"
        by (simp only: bit_drop_bit_eq comp_apply plus_1_eq_Suc)
    qed
    ultimately show ?thesis using b0 by (simp add: msb_bits_Suc)
  qed
  have u: "msb_bits 8 (ucast ?buf :: u8) = msb_bits 8 ?buf"
    by (rule msb_bits_cong) (simp add: bit_ucast_iff)
  show "ce_bits_count (write_bit v i e) < 8"
    using assms by (simp add: write_bit_def Let_def)
  show "enc_ctx (write_bit v i e) = enc_ctx e" by (simp add: write_bit_def Let_def enc_ctx_def)
  show "written (write_bit v i e) = written e @ [bit v i]"
  proof (cases "ce_bits_count e = 7")
    case True
    then show ?thesis using u app [of 7] by (simp add: write_bit_def Let_def written_def)
  next
    case False
    then show ?thesis using app [OF assms] assms by (simp add: write_bit_def Let_def written_def)
  qed
qed

lemma write_bits_spec:
  assumes "ce_bits_count e < 8"
  shows "written (write_bits e v n) = written e @ msb_bits n v
    \<and> ce_bits_count (write_bits e v n) < 8 \<and> enc_ctx (write_bits e v n) = enc_ctx e"
  using assms
proof (induction n arbitrary: e)
  case 0
  then show ?case by (simp add: write_bits_def)
next
  case (Suc n)
  have "write_bits e v (Suc n) = write_bits (write_bit v n e) v n" by (simp add: write_bits_def)
  then show ?case using Suc.IH [of "write_bit v n e"] write_bit_spec [OF Suc.prems, of v n]
    by (simp add: msb_bits_Suc)
qed

section \<open>What the decoder has still to read\<close>

definition pending :: "chimp_decoder \<Rightarrow> bool list" where
  "pending d = msb_bits (cd_bits_left d) (cd_current_byte d) @ concat (map (msb_bits 8) (cd_cursor d))"

definition dec_ctx :: "chimp_decoder \<Rightarrow> u64 list \<times> nat \<times> u64 \<times> nat \<times> nat \<times> u32 \<times> u32" where
  "dec_ctx d = (cd_history d, cd_history_idx d, cd_prev_val d, cd_prev_lz d, cd_prev_tz d,
     cd_total_count d, cd_decoded_count d)"

lemma refill_pending:
  assumes "pending d \<noteq> []"
  shows "pending (refill d) = pending d" and "0 < cd_bits_left (refill d)"
    and "dec_ctx (refill d) = dec_ctx d"
  using assms by (auto simp: refill_def pending_def dec_ctx_def split: list.splits)

lemma read_bit_spec:
  assumes "pending d = b # rest"
  obtains d' where "read_bit d = (of_bool b, d')" "pending d' = rest" "dec_ctx d' = dec_ctx d"
proof -
  let ?d = "refill d"
  let ?d' = "?d\<lparr>cd_bits_left := cd_bits_left ?d - 1\<rparr>"
  have p: "pending ?d = b # rest" "0 < cd_bits_left ?d" "dec_ctx ?d = dec_ctx d"
    using refill_pending [of d] assms by simp_all
  then obtain n where n: "cd_bits_left ?d = Suc n" by (cases "cd_bits_left ?d") auto
  with p have b: "bit (cd_current_byte ?d) n = b" and r: "pending ?d' = rest"
    by (simp_all add: pending_def msb_bits_Suc)
  have "(ucast (drop_bit n (cd_current_byte ?d) AND 1) :: u64) = of_bool b"
    using b by (simp add: and_one_eq bit_iff_odd_drop_bit mod_2_eq_odd)
  then have "read_bit d = (of_bool b, ?d')" using n by (simp add: read_bit_def Let_def)
  with r p(3) that show ?thesis by (simp add: dec_ctx_def)
qed

lemma read_bits_from_spec:
  assumes "pending d = bs @ rest"
  shows "\<exists>d'. read_bits_from acc d (length bs) = (of_msb acc bs, d') \<and> pending d' = rest \<and> dec_ctx d' = dec_ctx d"
  using assms
proof (induction bs arbitrary: acc d)
  case Nil
  then show ?case by (simp add: of_msb_def)
next
  case (Cons b bs)
  from Cons.prems have "pending d = b # (bs @ rest)" by simp
  then obtain d1 where d1: "read_bit d = (of_bool b, d1)" "pending d1 = bs @ rest" "dec_ctx d1 = dec_ctx d"
    by (rule read_bit_spec)
  from Cons.IH [OF d1(2), of "push_bit 1 acc OR of_bool b"] d1 show ?case
    by (auto simp: of_msb_def)
qed

lemma read_bits_spec:
  assumes "pending d = msb_bits n v @ rest" and "n \<le> 64"
  obtains d' where "read_bits d n = (take_bit n (v :: u64), d')" "pending d' = rest" "dec_ctx d' = dec_ctx d"
  using read_bits_from_spec [OF assms(1), of 0] that by (auto simp: read_bits_def of_msb_msb_bits)

section \<open>Zero counts\<close>

lemma length_takeWhile_le:
  assumes "j < length xs" and "\<not> P (xs ! j)"
  shows "length (takeWhile P xs) \<le> j"
proof (rule ccontr)
  assume "\<not> length (takeWhile P xs) \<le> j"
  then have j: "j < length (takeWhile P xs)" by simp
  then have "takeWhile P xs ! j = xs ! j" by (rule takeWhile_nth)
  with nth_mem [OF j] assms(2) show False by (auto dest: set_takeWhileD)
qed

lemma bit_leading_zeros: "bit (w :: 'a::len word) i \<Longrightarrow> i + leading_zeros w < LENGTH('a)"
proof -
  assume b: "bit w i"
  then have i: "i < LENGTH('a)" by (rule bit_imp_le_length)
  have "leading_zeros w \<le> LENGTH('a) - 1 - i"
    unfolding leading_zeros_def
    by (rule length_takeWhile_le) (use b i in \<open>simp_all add: rev_nth\<close>)
  with i show ?thesis by simp
qed

lemma bit_trailing_zeros: "bit (w :: 'a::len word) i \<Longrightarrow> trailing_zeros w \<le> i"
  unfolding trailing_zeros_def
  by (rule length_takeWhile_le) (use bit_imp_le_length [of w i] in simp_all)

text \<open>The parameters of one payload describe the xor completely.\<close>

definition payload_params :: "u64 \<Rightarrow> nat \<times> nat \<times> nat \<times> u64" where
  "payload_params x =
     (if x = 0 then (63, 0, 1, 0)
      else let lz = min (leading_zeros x) 63; tz = min (trailing_zeros x) 63 in
        (lz, tz, max (64 - lz - tz) 1, drop_bit tz x))"

lemma payload_params_spec:
  assumes "payload_params x = (lz, tz, sig, val)"
  shows "lz \<le> 63" "tz \<le> 63" "sig = max (64 - lz - tz) 1" "sig \<le> 64"
    "take_bit sig val = val" "push_bit tz val = x"
proof -
  have "lz \<le> 63 \<and> tz \<le> 63 \<and> sig = max (64 - lz - tz) 1 \<and> take_bit sig val = val \<and> push_bit tz val = x"
  proof (cases "x = 0")
    case True
    then show ?thesis using assms by (auto simp: payload_params_def)
  next
    case False
    then obtain i where i: "bit x i" by (auto simp: bit_eq_iff)
    have l: "leading_zeros x \<le> 63" using bit_leading_zeros [OF i] by simp
    have t: "trailing_zeros x \<le> 63" using bit_trailing_zeros [OF i] bit_imp_le_length [OF i] by simp
    from assms False l t have p: "lz = leading_zeros x" "tz = trailing_zeros x"
      "sig = max (64 - lz - tz) 1" "val = drop_bit tz x"
      by (auto simp: payload_params_def Let_def min_def)
    have bits: "tz \<le> j \<and> j + lz < 64" if "bit x j" for j
      using bit_leading_zeros [OF that] bit_trailing_zeros [OF that] p by simp
    have "take_bit sig val = val"
    proof (rule bit_word_eqI)
      fix j assume "j < LENGTH(64)"
      show "bit (take_bit sig val) j = bit val j"
        using bits [of "tz + j"] p(3) by (auto simp: p(4) bit_take_bit_iff bit_drop_bit_eq)
    qed
    moreover have "push_bit tz val = x"
    proof (rule bit_word_eqI)
      fix j assume "j < LENGTH(64)"
      then show "bit (push_bit tz val) j = bit x j"
        using bits [of j] by (auto simp: p(4) bit_push_bit_iff bit_drop_bit_eq)
    qed
    ultimately show ?thesis using l t p by simp
  qed
  then show "lz \<le> 63" "tz \<le> 63" "sig = max (64 - lz - tz) 1" "sig \<le> 64"
    "take_bit sig val = val" "push_bit tz val = x" by auto
qed

lemma take_bit_of_nat_word: "n < 2 ^ k \<Longrightarrow> k \<le> 64 \<Longrightarrow> take_bit k (of_nat n :: u64) = of_nat n"
  by (simp add: take_bit_of_nat take_bit_nat_eq_self)

section \<open>One payload\<close>

definition payload_code :: "nat \<Rightarrow> nat \<Rightarrow> u64 \<Rightarrow> bool list" where
  "payload_code plz ptz x =
     (let (lz, tz, sig, val) = payload_params x in
      if plz \<noteq> 255 \<and> lz = plz \<and> tz = ptz then False # msb_bits sig val
      else True # msb_bits 6 (of_nat lz :: u64) @ msb_bits 6 (of_nat tz :: u64) @ msb_bits sig val)"

lemma encode_xor_payload_params:
  assumes "payload_params x = (lz, tz, sig, val)"
  shows "encode_xor_payload e x =
     (if ce_prev_lz e \<noteq> 255 \<and> lz = ce_prev_lz e \<and> tz = ce_prev_tz e
      then write_bits (write_bits e 0 1) val sig
      else (write_bits (write_bits (write_bits (write_bits e 1 1) (of_nat lz) 6) (of_nat tz) 6) val sig)
             \<lparr>ce_prev_lz := lz, ce_prev_tz := tz\<rparr>)"
  using assms unfolding encode_xor_payload_def payload_params_def [symmetric] by (simp add: Let_def)

lemma encode_xor_payload_spec:
  assumes "ce_bits_count e < 8" and "payload_params x = (lz, tz, sig, val)"
  shows "written (encode_xor_payload e x) = written e @ payload_code (ce_prev_lz e) (ce_prev_tz e) x"
    and "ce_bits_count (encode_xor_payload e x) < 8"
    and "enc_ctx (encode_xor_payload e x) =
           (ce_history e, ce_history_idx e, ce_prev_val e, lz, tz, ce_count e)"
proof -
  let ?a = "write_bits e 0 1" and ?b = "write_bits e 1 1"
  let ?b1 = "write_bits ?b (of_nat lz) 6"
  let ?b2 = "write_bits ?b1 (of_nat tz) 6"
  note a = write_bits_spec [OF assms(1), of 0 1]
  note a' = write_bits_spec [of ?a val sig]
  note b = write_bits_spec [OF assms(1), of 1 1]
  note b1 = write_bits_spec [of ?b "of_nat lz" 6]
  note b2 = write_bits_spec [of ?b1 "of_nat tz" 6]
  note b3 = write_bits_spec [of ?b2 val sig]
  have m: "msb_bits (Suc 0) (0 :: u64) = [False]" "msb_bits (Suc 0) (1 :: u64) = [True]"
    by (simp_all add: msb_bits_def)
  have "written (encode_xor_payload e x) = written e @ payload_code (ce_prev_lz e) (ce_prev_tz e) x
    \<and> ce_bits_count (encode_xor_payload e x) < 8
    \<and> enc_ctx (encode_xor_payload e x) =
           (ce_history e, ce_history_idx e, ce_prev_val e, lz, tz, ce_count e)"
  proof (cases "ce_prev_lz e \<noteq> 255 \<and> lz = ce_prev_lz e \<and> tz = ce_prev_tz e")
    case True
    then show ?thesis using a a'
      by (simp add: encode_xor_payload_params [OF assms(2)] payload_code_def assms(2) m)
        (simp add: enc_ctx_def)
  next
    case False
    have w: "written (f\<lparr>ce_prev_lz := l, ce_prev_tz := t\<rparr>) = written f" for f l t
      by (simp add: written_def)
    show ?thesis using False b b1 b2 b3
      by (simp add: encode_xor_payload_params [OF assms(2)] payload_code_def assms(2) m w)
        (auto simp add: enc_ctx_def)
  qed
  then show "written (encode_xor_payload e x) = written e @ payload_code (ce_prev_lz e) (ce_prev_tz e) x"
    and "ce_bits_count (encode_xor_payload e x) < 8"
    and "enc_ctx (encode_xor_payload e x) =
           (ce_history e, ce_history_idx e, ce_prev_val e, lz, tz, ce_count e)" by auto
qed

lemma decode_xor_payload_spec:
  assumes pend: "pending d = payload_code (cd_prev_lz d) (cd_prev_tz d) x @ rest"
    and par: "payload_params x = (lz, tz, sig, val)"
  shows "\<exists>d'. decode_xor_payload d = (x, d') \<and> pending d' = rest \<and>
    dec_ctx d' = (cd_history d, cd_history_idx d, cd_prev_val d, lz, tz, cd_total_count d, cd_decoded_count d)"
proof (cases "cd_prev_lz d \<noteq> 255 \<and> lz = cd_prev_lz d \<and> tz = cd_prev_tz d")
  note spec = payload_params_spec [OF par]
  case True
  then have "pending d = msb_bits 1 (0 :: u64) @ msb_bits sig val @ rest"
    using pend par by (simp add: payload_code_def msb_bits_def)
  then obtain d1 where d1: "read_bits d 1 = (0, d1)" "pending d1 = msb_bits sig val @ rest"
    "dec_ctx d1 = dec_ctx d" by (rule read_bits_spec) simp_all
  obtain d2 where d2: "read_bits d1 sig = (val, d2)" "pending d2 = rest" "dec_ctx d2 = dec_ctx d1"
    using read_bits_spec [OF d1(2) spec(4)] spec(5) by metis
  have c: "cd_prev_lz d1 = lz" "cd_prev_tz d1 = tz"
    using d1(3) True by (simp_all add: dec_ctx_def)
  have t: "tz mod 64 = tz" using spec(2) by simp
  have "decode_xor_payload d = (x, d2)"
    unfolding decode_xor_payload_def d1(1) using d2(1) spec(3,6) c t
    by (simp add: Let_def)
  then show ?thesis using d2 d1 True by (simp add: dec_ctx_def)
next
  note spec = payload_params_spec [OF par]
  case False
  then have "pending d = msb_bits 1 (1 :: u64) @ msb_bits 6 (of_nat lz :: u64)
      @ msb_bits 6 (of_nat tz :: u64) @ msb_bits sig val @ rest"
    using pend par by (auto simp add: payload_code_def msb_bits_def)
  then obtain d1 where d1: "read_bits d 1 = (1, d1)"
    "pending d1 = msb_bits 6 (of_nat lz :: u64) @ msb_bits 6 (of_nat tz :: u64) @ msb_bits sig val @ rest"
    "dec_ctx d1 = dec_ctx d" by (rule read_bits_spec) simp_all
  obtain d2 where d2: "read_bits d1 6 = (of_nat lz, d2)"
    "pending d2 = msb_bits 6 (of_nat tz :: u64) @ msb_bits sig val @ rest" "dec_ctx d2 = dec_ctx d1"
    using read_bits_spec [OF d1(2)] take_bit_of_nat_word [of lz 6] spec(1) by auto
  obtain d3 where d3: "read_bits d2 6 = (of_nat tz, d3)"
    "pending d3 = msb_bits sig val @ rest" "dec_ctx d3 = dec_ctx d2"
    using read_bits_spec [OF d2(2)] take_bit_of_nat_word [of tz 6] spec(2) by auto
  let ?d3 = "d3\<lparr>cd_prev_lz := lz, cd_prev_tz := tz\<rparr>"
  have "pending ?d3 = msb_bits sig val @ rest" using d3(2) by (simp add: pending_def)
  then obtain d4 where d4: "read_bits ?d3 sig = (val, d4)" "pending d4 = rest" "dec_ctx d4 = dec_ctx ?d3"
    using read_bits_spec [of ?d3 sig val rest] spec(4,5) by metis
  have u: "unat (of_nat lz :: u64) mod 256 = lz" "unat (of_nat tz :: u64) mod 256 = tz"
    using spec(1,2) by (simp_all add: unat_of_nat)
  have t: "tz mod 64 = tz" using spec(2) by simp
  have "decode_xor_payload d = (x, d4)"
    unfolding decode_xor_payload_def d1(1) using d2(1) d3(1) d4(1) spec(3,6) u t
    by (simp add: Let_def)
  then show ?thesis using d4 d3 d2 d1 by (simp add: dec_ctx_def)
qed

section \<open>One value\<close>

lemma best_match_spec:
  assumes "best_match h v x = (bx, bi)"
  shows "(case bi of None \<Rightarrow> bx = x | Some i \<Rightarrow> i < 128 \<and> bx = v XOR h ! i)"
proof -
  let ?f = "\<lambda>i (bx, bi). let c = v XOR h ! i in
       if leading_zeros c > leading_zeros bx then (c, Some i) else (bx, bi)"
  let ?I = "\<lambda>(bx, bi). (case bi of None \<Rightarrow> bx = x | Some i \<Rightarrow> i < 128 \<and> bx = v XOR h ! i)"
  have "\<forall>i \<in> set is. i < 128 \<Longrightarrow> ?I s \<Longrightarrow> ?I (fold ?f is s)" for "is" s
  proof (induction "is" arbitrary: s)
    case (Cons a "is")
    have "?I (?f a s)" using Cons.prems by (auto simp: Let_def split: prod.splits)
    then show ?case using Cons.IH [of "?f a s"] Cons.prems(1) by simp
  qed simp
  from this [of "[0..<128]" "(x, None)"] have "?I (best_match h v x)"
    by (simp add: best_match_def)
  with assms show ?thesis by simp
qed

definition sync :: "chimp_encoder \<Rightarrow> chimp_decoder \<Rightarrow> bool" where
  "sync e d \<longleftrightarrow> ce_history e = cd_history d \<and> ce_history_idx e = cd_history_idx d \<and>
     ce_prev_val e = cd_prev_val d \<and> ce_prev_lz e = cd_prev_lz d \<and> ce_prev_tz e = cd_prev_tz d \<and>
     ce_count e = cd_decoded_count d"

definition value_code :: "chimp_encoder \<Rightarrow> u64 \<Rightarrow> bool list" where
  "value_code e v =
     (if ce_count e = 0 then msb_bits 64 v
      else let x = v XOR ce_prev_val e in
        if x = 0 then [False, False]
        else (case best_match (ce_history e) v x of
                (bx, Some i) \<Rightarrow> [False, True] @ msb_bits 7 (of_nat i :: u64) @ payload_code (ce_prev_lz e) (ce_prev_tz e) bx
              | (bx, None) \<Rightarrow> True # payload_code (ce_prev_lz e) (ce_prev_tz e) x))"

definition payload_zeros :: "chimp_encoder \<Rightarrow> u64 \<Rightarrow> nat \<times> nat" where
  "payload_zeros e v =
     (let x = v XOR ce_prev_val e in
      if ce_count e = 0 \<or> x = 0 then (ce_prev_lz e, ce_prev_tz e)
      else (case payload_params (fst (best_match (ce_history e) v x)) of (lz, tz, _) \<Rightarrow> (lz, tz)))"

definition ring_put :: "u64 list \<Rightarrow> nat \<Rightarrow> u32 \<Rightarrow> u64 \<Rightarrow> u64 list \<times> nat" where
  "ring_put h i n v = (if n = 0 then (h[0 := v], 1) else (h[i mod 128 := v], i + 1))"

definition encoded :: "chimp_encoder \<Rightarrow> u64 \<Rightarrow> chimp_encoder \<Rightarrow> bool" where
  "encoded e v e' \<longleftrightarrow> written e' = written e @ value_code e v \<and> ce_bits_count e' < 8 \<and>
     enc_ctx e' = (let (h, i) = ring_put (ce_history e) (ce_history_idx e) (ce_count e) v; (lz, tz) = payload_zeros e v in
       (h, i, v, lz, tz, ce_count e))"

lemma written_upd [simp]: "written (f\<lparr>ce_prev_val := a, ce_history := b, ce_history_idx := c\<rparr>) = written f"
  by (simp add: written_def)

lemma msb_prefixes [simp]: "msb_bits 2 (0 :: u64) = [False, False]" "msb_bits 2 (1 :: u64) = [False, True]"
  "msb_bits (Suc 0) (1 :: u64) = [True]"
  by (simp_all add: msb_bits_def numeral_2_eq_2)

lemmas encode_unfold = encoded_def encode_u64_internal_def value_code_def ring_put_def payload_zeros_def Let_def

lemma encode_first:
  assumes "ce_bits_count e < 8" "ce_count e = 0"
  shows "encoded e v (encode_u64_internal e v)"
proof -
  let ?e0 = "e\<lparr>ce_prev_val := v, ce_history := (ce_history e)[0 := v], ce_history_idx := 1\<rparr>"
  show ?thesis using assms write_bits_spec [of ?e0 v 64] by (simp add: encode_unfold) (simp add: enc_ctx_def)
qed

lemma encode_repeated:
  assumes "ce_bits_count e < 8" "ce_count e \<noteq> 0" "v XOR ce_prev_val e = 0"
  shows "encoded e v (encode_u64_internal e v)"
  using assms write_bits_spec [OF assms(1), of 0 2] by (simp add: encode_unfold) (simp add: enc_ctx_def)

lemma encode_difference:
  assumes "ce_bits_count e < 8" "ce_count e \<noteq> 0" "v XOR ce_prev_val e \<noteq> 0"
    and bm: "best_match (ce_history e) v (v XOR ce_prev_val e) = (bx, None)" and par: "payload_params bx = (lz, tz, sig, val)"
  shows "encoded e v (encode_u64_internal e v)"
proof -
  let ?e1 = "write_bits e 1 1"
  have e1: "written ?e1 = written e @ [True]" "ce_bits_count ?e1 < 8" "enc_ctx ?e1 = enc_ctx e"
    using write_bits_spec [OF assms(1), of 1 1] by simp_all
  have "bx = v XOR ce_prev_val e" using best_match_spec [OF bm] by simp
  then show ?thesis using assms e1 encode_xor_payload_spec [OF e1(2) par]
    by (simp add: encode_unfold) (simp add: enc_ctx_def)
qed

lemma encode_match:
  assumes "ce_bits_count e < 8" "ce_count e \<noteq> 0" "v XOR ce_prev_val e \<noteq> 0"
    and bm: "best_match (ce_history e) v (v XOR ce_prev_val e) = (bx, Some i)" and par: "payload_params bx = (lz, tz, sig, val)"
  shows "encoded e v (encode_u64_internal e v)"
proof -
  let ?e1 = "write_bits e 1 2"
  let ?e2 = "write_bits ?e1 (of_nat i) 7"
  have e1: "written ?e1 = written e @ [False, True]" "ce_bits_count ?e1 < 8" "enc_ctx ?e1 = enc_ctx e"
    using write_bits_spec [OF assms(1), of 1 2] by simp_all
  have e2: "written ?e2 = written e @ [False, True] @ msb_bits 7 (of_nat i :: u64)"
    "ce_bits_count ?e2 < 8" "enc_ctx ?e2 = enc_ctx e"
    using write_bits_spec [OF e1(2), of "of_nat i" 7] e1 by simp_all
  show ?thesis using assms e2 encode_xor_payload_spec [OF e2(2) par]
    by (simp add: encode_unfold) (simp add: enc_ctx_def)
qed

lemma encode_u64_encoded:
  assumes "ce_bits_count e < 8"
  shows "encoded e v (encode_u64_internal e v)"
proof -
  obtain bx bi lz tz sig val where bm: "best_match (ce_history e) v (v XOR ce_prev_val e) = (bx, bi)"
    and par: "payload_params bx = (lz, tz, sig, val)" by (metis prod_cases4 surj_pair)
  show ?thesis
    using encode_first encode_repeated encode_difference encode_match assms bm par by (cases bi) blast+
qed

lemma encode_u64_spec:
  assumes "ce_bits_count e < 8"
  shows "written (encode_u64_internal e v) = written e @ value_code e v"
    and "ce_bits_count (encode_u64_internal e v) < 8"
    and "enc_ctx (encode_u64_internal e v) =
      (let (h, i) = ring_put (ce_history e) (ce_history_idx e) (ce_count e) v; (lz, tz) = payload_zeros e v in
       (h, i, v, lz, tz, ce_count e))"
  using encode_u64_encoded [OF assms] by (simp_all add: encoded_def)

end
