(* ===== verification/Chimp128_Roundtrip.thy ===== *)
theory Chimp128_Roundtrip
  imports Chimp128_Codec
begin

text \<open>
  The float codec is lossless on whole words. One decoder step undoes one encoder step
  while the two sides agree on the ring of recent values; the sequence lemma follows by
  induction, and the codec's theorem says what happens to every block, the trailing bytes
  included.
\<close>

section \<open>One value\<close>

lemma take_bit_u64: "take_bit 64 (v :: u64) = v"
  by (rule bit_word_eqI) (simp add: bit_take_bit_iff)

lemma xor_zero_eq: "a XOR b = 0 \<Longrightarrow> a = (b :: u64)"
  by (rule bit_word_eqI) (auto simp: bit_eq_iff bit_xor_iff)

lemma payload_zeros_params:
  assumes "ce_count e \<noteq> 0" "v XOR ce_prev_val e \<noteq> 0"
    "best_match (ce_history e) v (v XOR ce_prev_val e) = (bx, bi)" "payload_params bx = (lz, tz, sig, val)"
  shows "payload_zeros e v = (lz, tz)"
  using assms by (simp add: payload_zeros_def Let_def)

text \<open>
  The decoder step, by the four codes of a value: the first one, a repetition, a difference
  to the previous value and one to a recent value.
\<close>

definition steps_to :: "chimp_encoder \<Rightarrow> chimp_decoder \<Rightarrow> u64 \<Rightarrow> bool list \<Rightarrow> bool" where
  "steps_to e d v rest \<longleftrightarrow> (\<exists>d'. decode_u64_internal d = (v, d') \<and> pending d' = rest \<and>
     dec_ctx d' = (let (h, i) = ring_put (ce_history e) (ce_history_idx e) (ce_count e) v; (lz, tz) = payload_zeros e v in
       (h, i, v, lz, tz, cd_total_count d, cd_decoded_count d)))"

lemma pending_upd:
  "pending (f\<lparr>cd_prev_val := a, cd_history := b, cd_history_idx := c\<rparr>) = pending f"
  "pending (f\<lparr>cd_prev_val := a\<rparr>) = pending f"
  "pending (f\<lparr>cd_history := b, cd_history_idx := c\<rparr>) = pending f"
  by (simp_all add: pending_def)

lemma msb_bits_bit: "msb_bits (Suc 0) (0 :: u64) = [False]" "msb_bits (Suc 0) (1 :: u64) = [True]"
  by (simp_all add: msb_bits_def)

lemmas step_simps = decode_u64_internal_def pending_upd ring_put_def

lemma decode_first:
  assumes s: "sync e d" and p: "pending d = value_code e v @ rest" and n: "ce_count e = 0"
  shows "steps_to e d v rest"
proof -
  have "pending d = msb_bits 64 v @ rest" using p n by (simp add: value_code_def)
  then obtain d1 where "read_bits d 64 = (v, d1)" "pending d1 = rest" "dec_ctx d1 = dec_ctx d"
    by (rule read_bits_spec) (simp_all add: take_bit_u64)
  then show ?thesis using n s unfolding sync_def steps_to_def
    by (simp add: step_simps payload_zeros_def) (simp add: dec_ctx_def)
qed

lemma decode_repeated:
  assumes s: "sync e d" and p: "pending d = value_code e v @ rest" and n: "ce_count e \<noteq> 0" and x: "v XOR ce_prev_val e = 0"
  shows "steps_to e d v rest"
proof -
  note sy = s [unfolded sync_def]
  have v: "v = cd_prev_val d" using xor_zero_eq [OF x] sy by simp
  have "pending d = msb_bits 1 (0 :: u64) @ msb_bits 1 (0 :: u64) @ rest"
    using p n x msb_bits_bit by (simp add: value_code_def)
  then obtain d1 where d1: "read_bits d 1 = (0, d1)" "pending d1 = msb_bits 1 (0 :: u64) @ rest" "dec_ctx d1 = dec_ctx d"
    by (rule read_bits_spec) simp_all
  from d1(2) obtain d2 where d2: "read_bits d1 1 = (0, d2)" "pending d2 = rest" "dec_ctx d2 = dec_ctx d1"
    by (rule read_bits_spec) simp_all
  show ?thesis using x n d1 d2 sy v unfolding steps_to_def
    by (simp add: step_simps payload_zeros_def) (simp add: dec_ctx_def)
qed

lemma decode_difference:
  assumes s: "sync e d" and p: "pending d = value_code e v @ rest" and n: "ce_count e \<noteq> 0" and x: "v XOR ce_prev_val e \<noteq> 0"
    and bm: "best_match (ce_history e) v (v XOR ce_prev_val e) = (bx, None)"
  shows "steps_to e d v rest"
proof -
  let ?x = "v XOR ce_prev_val e"
  note sy = s [unfolded sync_def]
  obtain lz tz sig val where par: "payload_params bx = (lz, tz, sig, val)" by (cases "payload_params bx")
  note pz = payload_zeros_params [OF n x bm par]
  have bx: "bx = ?x" using best_match_spec [OF bm] by simp
  have "pending d = msb_bits 1 (1 :: u64) @ payload_code (cd_prev_lz d) (cd_prev_tz d) ?x @ rest"
    using p n x bm msb_bits_bit sy by (simp add: value_code_def Let_def)
  then obtain d1 where d1: "read_bits d 1 = (1, d1)"
    "pending d1 = payload_code (cd_prev_lz d) (cd_prev_tz d) ?x @ rest" "dec_ctx d1 = dec_ctx d"
    by (rule read_bits_spec) simp_all
  have "pending d1 = payload_code (cd_prev_lz d1) (cd_prev_tz d1) ?x @ rest"
    using d1(2,3) by (simp add: dec_ctx_def)
  from decode_xor_payload_spec [OF this par [unfolded bx]]
  obtain d2 where d2: "decode_xor_payload d1 = (?x, d2)" "pending d2 = rest"
    "dec_ctx d2 = (cd_history d1, cd_history_idx d1, cd_prev_val d1, lz, tz, cd_total_count d1, cd_decoded_count d1)"
    by blast
  have v: "cd_prev_val d2 XOR ?x = v" using d2(3) d1(3) sy by (simp add: dec_ctx_def xor.left_commute)
  show ?thesis using n d1 d2 sy v pz unfolding steps_to_def by (simp add: step_simps) (simp add: dec_ctx_def)
qed

lemma decode_match:
  assumes s: "sync e d" and p: "pending d = value_code e v @ rest" and n: "ce_count e \<noteq> 0" and x: "v XOR ce_prev_val e \<noteq> 0"
    and bm: "best_match (ce_history e) v (v XOR ce_prev_val e) = (bx, Some i)"
  shows "steps_to e d v rest"
proof -
  note sy = s [unfolded sync_def]
  obtain lz tz sig val where par: "payload_params bx = (lz, tz, sig, val)" by (cases "payload_params bx")
  note pz = payload_zeros_params [OF n x bm par]
  have bx: "i < 128" "bx = v XOR ce_history e ! i" using best_match_spec [OF bm] by simp_all
  let ?payload = "payload_code (cd_prev_lz d) (cd_prev_tz d) bx @ rest"
  have "pending d = msb_bits 1 (0 :: u64) @ msb_bits 1 (1 :: u64) @ msb_bits 7 (of_nat i :: u64) @ ?payload"
    using p n x bm msb_bits_bit sy by (simp add: value_code_def Let_def)
  then obtain d1 where d1: "read_bits d 1 = (0, d1)"
    "pending d1 = msb_bits 1 (1 :: u64) @ msb_bits 7 (of_nat i :: u64) @ ?payload" "dec_ctx d1 = dec_ctx d"
    by (rule read_bits_spec) simp_all
  from d1(2) obtain d2 where d2: "read_bits d1 1 = (1, d2)" "pending d2 = msb_bits 7 (of_nat i :: u64) @ ?payload"
    "dec_ctx d2 = dec_ctx d1"
    by (rule read_bits_spec) simp_all
  from d2(2) obtain d3 where d3: "read_bits d2 7 = (of_nat i, d3)" "pending d3 = ?payload" "dec_ctx d3 = dec_ctx d2"
    using take_bit_of_nat_word [of i 7] bx(1) by (elim read_bits_spec) simp_all
  have "pending d3 = payload_code (cd_prev_lz d3) (cd_prev_tz d3) bx @ rest"
    using d3(2,3) d2(3) d1(3) by (simp add: dec_ctx_def)
  from decode_xor_payload_spec [OF this par]
  obtain d4 where d4: "decode_xor_payload d3 = (bx, d4)" "pending d4 = rest"
    "dec_ctx d4 = (cd_history d3, cd_history_idx d3, cd_prev_val d3, lz, tz, cd_total_count d3, cd_decoded_count d3)"
    by blast
  have u: "unat (of_nat i :: u64) mod 128 = i" using bx(1) by (simp add: unat_of_nat)
  have v: "cd_history d3 ! i XOR bx = v" using d3(3) d2(3) d1(3) sy bx(2) by (simp add: dec_ctx_def xor.left_commute)
  have "decode_u64_internal d = (v, d4\<lparr>cd_prev_val := v,
          cd_history := (cd_history d4)[cd_history_idx d4 mod 128 := v], cd_history_idx := cd_history_idx d4 + 1\<rparr>)"
    using n sy d1(1) d2(1) d3(1) d4(1) u v by (simp add: decode_u64_internal_def)
  then show ?thesis using n d1(3) d2(3) d3(3) d4 sy pz unfolding steps_to_def
    by (simp add: pending_upd ring_put_def) (simp add: dec_ctx_def)
qed

lemma decode_u64_spec:
  assumes "sync e d" "pending d = value_code e v @ rest"
  shows "\<exists>d'. decode_u64_internal d = (v, d') \<and> pending d' = rest \<and>
    dec_ctx d' = (let (h, i) = ring_put (ce_history e) (ce_history_idx e) (ce_count e) v; (lz, tz) = payload_zeros e v in
       (h, i, v, lz, tz, cd_total_count d, cd_decoded_count d))"
proof -
  obtain bx bi where "best_match (ce_history e) v (v XOR ce_prev_val e) = (bx, bi)" by fastforce
  then show ?thesis
    using decode_first [OF assms] decode_repeated [OF assms] decode_difference [OF assms] decode_match [OF assms]
    unfolding steps_to_def by (cases bi) blast+
qed

section \<open>A sequence of values\<close>

fun seq_code :: "chimp_encoder \<Rightarrow> u64 list \<Rightarrow> bool list" where
  "seq_code e [] = []"
| "seq_code e (v # vs) = value_code e v @ seq_code (encode_f64 e v) vs"

lemma encode_f64_spec:
  assumes "ce_bits_count e < 8"
  shows "written (encode_f64 e v) = written e @ value_code e v"
    and "ce_bits_count (encode_f64 e v) < 8"
    and "enc_ctx (encode_f64 e v) =
      (let (h, i) = ring_put (ce_history e) (ce_history_idx e) (ce_count e) v; (lz, tz) = payload_zeros e v in
       (h, i, v, lz, tz, ce_count e + 1))"
  using encode_u64_spec [OF assms, of v]
  by (auto simp: encode_f64_def Let_def written_def enc_ctx_def split: prod.splits)

lemma encode_all_spec:
  assumes "ce_bits_count e < 8"
  shows "written (fold (\<lambda>v e. encode_f64 e v) vs e) = written e @ seq_code e vs
    \<and> ce_bits_count (fold (\<lambda>v e. encode_f64 e v) vs e) < 8
    \<and> ce_count (fold (\<lambda>v e. encode_f64 e v) vs e) = ce_count e + of_nat (length vs)"
  using assms
proof (induction vs arbitrary: e)
  case (Cons v vs)
  have "ce_count (encode_f64 e v) = ce_count e + 1"
    using encode_f64_spec(3) [OF Cons.prems, of v] by (simp add: enc_ctx_def Let_def split: prod.splits)
  then show ?case
    using Cons.IH [OF encode_f64_spec(2) [OF Cons.prems, of v]] encode_f64_spec(1) [OF Cons.prems, of v]
    by simp
qed simp

lemma decode_f64_step:
  assumes s: "sync e d" and b: "ce_bits_count e < 8" and p: "pending d = value_code e v @ rest"
    and lt: "cd_decoded_count d < cd_total_count d"
  obtains d' where "decode_f64 d = Some (v, d')" "pending d' = rest" "sync (encode_f64 e v) d'"
    "cd_total_count d' = cd_total_count d"
proof -
  from decode_u64_spec [OF s p] obtain d1 where d1: "decode_u64_internal d = (v, d1)" "pending d1 = rest"
    "dec_ctx d1 = (let (h, i) = ring_put (ce_history e) (ce_history_idx e) (ce_count e) v; (lz, tz) = payload_zeros e v in
       (h, i, v, lz, tz, cd_total_count d, cd_decoded_count d))" by blast
  let ?d' = "d1\<lparr>cd_decoded_count := cd_decoded_count d1 + 1\<rparr>"
  have "decode_f64 d = Some (v, ?d')" using lt d1(1) by (simp add: decode_f64_def)
  moreover have "pending ?d' = rest" using d1(2) by (simp add: pending_def)
  moreover have "sync (encode_f64 e v) ?d'" "cd_total_count ?d' = cd_total_count d"
    using d1(3) encode_f64_spec(3) [OF b, of v] s
    by (auto simp: sync_def dec_ctx_def enc_ctx_def Let_def split: prod.splits)
  ultimately show ?thesis by (rule that)
qed

lemma decode_all_f64_seq:
  assumes "sync e d" "ce_bits_count e < 8" "pending d = seq_code e vs @ rest"
    "cd_total_count d = ce_count e + of_nat (length vs)" "unat (ce_count e) + length vs < 2 ^ 32"
  shows "decode_all_f64 d = vs"
  using assms
proof (induction vs arbitrary: e d)
  case Nil
  then show ?case by (subst decode_all_f64.simps) (simp add: decode_f64_def sync_def)
next
  case (Cons v vs)
  have c: "ce_count (encode_f64 e v) = ce_count e + 1"
    using encode_f64_spec(3) [OF Cons.prems(2), of v] by (simp add: enc_ctx_def Let_def split: prod.splits)
  have tot: "unat (cd_total_count d) = unat (ce_count e) + Suc (length vs)"
    using Cons.prems(4,5) by (simp add: unat_word_ariths unat_of_nat)
  then have lt: "cd_decoded_count d < cd_total_count d"
    using Cons.prems(1) by (simp add: sync_def word_less_nat_alt)
  have "unat (ce_count e + 1) = unat (ce_count e) + 1"
    using Cons.prems(5) by (simp add: unat_word_ariths)
  moreover from Cons.prems(3) have "pending d = value_code e v @ (seq_code (encode_f64 e v) vs @ rest)" by simp
  then obtain d' where d': "decode_f64 d = Some (v, d')" "pending d' = seq_code (encode_f64 e v) vs @ rest"
    "sync (encode_f64 e v) d'" "cd_total_count d' = cd_total_count d"
    using decode_f64_step [OF Cons.prems(1,2) _ lt] by metis
  ultimately have "decode_all_f64 d' = vs"
    using Cons.prems(4,5) c
    by (intro Cons.IH [OF d'(3) encode_f64_spec(2) [OF Cons.prems(2)] d'(2)]) simp_all
  then show ?case using d'(1) by (subst decode_all_f64.simps) simp
qed

section \<open>Whole streams\<close>

lemma flush_byte:
  assumes "c \<le> 8"
  shows "msb_bits 8 (ucast (push_bit (8 - c) (buf :: u64)) :: u8) = msb_bits c buf @ replicate (8 - c) False"
proof (rule nth_equalityI)
  show "length (msb_bits 8 (ucast (push_bit (8 - c) buf) :: u8)) = length (msb_bits c buf @ replicate (8 - c) False)"
    using assms by simp
  fix i assume "i < length (msb_bits 8 (ucast (push_bit (8 - c) buf) :: u8))"
  then have i: "i < 8" by simp
  show "msb_bits 8 (ucast (push_bit (8 - c) buf) :: u8) ! i = (msb_bits c buf @ replicate (8 - c) False) ! i"
    using i assms
    by (auto simp: msb_bits_def nth_append rev_nth bit_ucast_iff bit_push_bit_iff intro!: arg_cong [where f = "bit buf"])
qed

lemma encoder_finish_spec:
  assumes "ce_bits_count e < 8"
  shows "\<exists>out z. encoder_finish e = write_u32 (ce_count e) @ out \<and>
    concat (map (msb_bits 8) out) = written e @ z"
  using assms flush_byte [of "ce_bits_count e" "ce_bits_buffer e"]
  by (auto simp: encoder_finish_def Let_def written_def)

lemma sync_new: "sync encoder_new \<lparr>cd_cursor = c, cd_history = replicate 128 0, cd_history_idx = 0,
             cd_prev_val = 0, cd_prev_lz = 255, cd_prev_tz = 255, cd_current_byte = 0,
             cd_bits_left = 0, cd_total_count = n, cd_decoded_count = 0\<rparr>"
  by (simp add: sync_def encoder_new_def)

lemma stream_roundtrip:
  assumes "length vs < 2 ^ 32"
  obtains d where "decoder_new (encoder_finish (fold (\<lambda>v e. encode_f64 e v) vs encoder_new)) = Inr d"
    "decode_all_f64 d = vs"
proof -
  let ?e = "fold (\<lambda>v e. encode_f64 e v) vs encoder_new"
  have n: "ce_bits_count encoder_new < 8" "written encoder_new = []" "ce_count encoder_new = 0"
    by (simp_all add: encoder_new_def written_def)
  from encode_all_spec [OF n(1), of vs] n have e: "written ?e = seq_code encoder_new vs" "ce_bits_count ?e < 8"
    "ce_count ?e = of_nat (length vs)" by simp_all
  from encoder_finish_spec [OF e(2)] obtain out z where
    out: "encoder_finish ?e = write_u32 (ce_count ?e) @ out" "concat (map (msb_bits 8) out) = written ?e @ z" by blast
  let ?d = "\<lparr>cd_cursor = out, cd_history = replicate 128 0, cd_history_idx = 0,
             cd_prev_val = 0, cd_prev_lz = 255, cd_prev_tz = 255, cd_current_byte = 0,
             cd_bits_left = 0, cd_total_count = ce_count ?e, cd_decoded_count = 0\<rparr>"
  have "decoder_new (encoder_finish ?e) = Inr ?d"
    by (simp add: decoder_new_def out(1))
  moreover have "decode_all_f64 ?d = vs"
  proof (rule decode_all_f64_seq [OF sync_new n(1)])
    show "pending ?d = seq_code encoder_new vs @ z" by (simp add: pending_def out(2) e(1))
  qed (use assms e(3) n(3) in simp_all)
  ultimately show ?thesis by (rule that)
qed

section \<open>The codec\<close>

lemma encode_all_f32:
  "fold (\<lambda>v e. encode_f32 e v) vs e = fold (\<lambda>v e. encode_f64 e v) (map (\<lambda>v. push_bit 32 (ucast v)) vs) e"
proof (induction vs arbitrary: e)
  case (Cons v vs)
  have "encode_f32 e v = encode_f64 e (push_bit 32 (ucast v))"
    by (simp add: encode_f32_def encode_f64_def Let_def)
  then show ?case using Cons by simp
qed simp

lemma decode_all_f32: "decode_all_f32 d = map (\<lambda>v. ucast (drop_bit 32 v)) (decode_all_f64 d)"
proof (induction d rule: decode_all_f64.induct)
  case (1 d)
  show ?case
  proof (cases "decode_f64 d")
    case None
    then show ?thesis
      by (subst decode_all_f64.simps, subst decode_all_f32.simps) (simp add: decode_f32_f64)
  next
    case (Some a)
    then show ?thesis using 1
      by (cases a, subst decode_all_f64.simps, subst decode_all_f32.simps) (simp add: decode_f32_f64)
  qed
qed

lemma f32_bits: "ucast (drop_bit 32 (push_bit 32 (ucast (v :: u32)) :: u64)) = v"
  by (rule bit_word_eqI) (auto simp: bit_ucast_iff bit_drop_bit_eq bit_push_bit_iff)

lemma chimp_stream:
  assumes "length data div (if dt = Float64 then 8 else 4) < 2 ^ 32"
  shows "bindR (chimp_compress data dt) (\<lambda>c. chimp_decompress c n dt) =
    (let w = (if dt = Float64 then 8 else 4); k = length data div w * w in
     if k \<noteq> n then Inl (DecompressLengthMismatch n k) else Inr (take k data))"
proof (cases "dt = Float64")
  case True
  obtain d where d: "decoder_new (encoder_finish (fold (\<lambda>v e. encode_f64 e v) (le_words 8 data) encoder_new)) = Inr d"
    "decode_all_f64 d = le_words 8 data"
    by (rule stream_roundtrip [of "le_words 8 data"]) (use assms True in simp_all)
  have "concat (map (le_bytes 8) (le_words 8 data :: u64 list)) = take (length data div 8 * 8) data"
    by (rule concat_le_words) simp_all
  then show ?thesis using True d by (simp add: chimp_compress_def chimp_decompress_def Let_def)
next
  case False
  let ?ws = "map (\<lambda>v. push_bit 32 (ucast v)) (le_words 4 data :: u32 list) :: u64 list"
  obtain d where d: "decoder_new (encoder_finish (fold (\<lambda>v e. encode_f64 e v) ?ws encoder_new)) = Inr d"
    "decode_all_f64 d = ?ws"
    by (rule stream_roundtrip [of ?ws]) (use assms False in simp_all)
  have "concat (map (le_bytes 4) (le_words 4 data :: u32 list)) = take (length data div 4 * 4) data"
    by (rule concat_le_words) simp_all
  moreover have "decode_all_f32 d = le_words 4 data"
    by (simp add: decode_all_f32 d(2) comp_def f32_bits)
  ultimately show ?thesis using False d(1)
    by (simp add: chimp_compress_def chimp_decompress_def Let_def encode_all_f32)
qed

text \<open>
  C15: what the float codec gives back. A block whose length is a multiple of the element
  width (8 bytes for \<open>Float64\<close>, 4 bytes for every other type) and holds fewer than 2^32
  elements decompresses to itself; a block with a partial trailing element does not: its
  trailing bytes were never encoded and decompression reports a length mismatch.
\<close>
theorem chimp_lossless:
  assumes "length data div (if dt = Float64 then 8 else 4) < 2 ^ 32"
  shows "bindR (chimp_compress data dt) (\<lambda>c. chimp_decompress c (length data) dt) =
    (let w = (if dt = Float64 then 8 else 4) in
     if length data mod w = 0 then Inr data
     else Inl (DecompressLengthMismatch (length data) (length data div w * w)))"
proof -
  let ?w = "if dt = Float64 then 8 else 4 :: nat"
  have "length data div ?w * ?w \<noteq> length data" if "length data mod ?w \<noteq> 0"
    using that by (cases "dt = Float64") (simp_all, presburger+)
  then show ?thesis unfolding chimp_stream [OF assms, of "length data"] Let_def
    by (cases "length data mod ?w = 0") auto
qed

theorem chimp_lossless_witness:
  "bindR (chimp_compress (replicate 9 1) Float64) (\<lambda>c. chimp_decompress c 9 Float64) =
     Inl (DecompressLengthMismatch 9 8) \<and>
   bindR (chimp_compress (replicate 8 1) Float32) (\<lambda>c. chimp_decompress c 8 Float32) =
     Inr (replicate 8 1)"
  using chimp_lossless [of "replicate 9 1" Float64] chimp_lossless [of "replicate 8 1" Float32]
  by (simp del: bindR_eq_Inr)

end
