(* ===== verification/Codec.thy ===== *)
theory Codec
  imports Chimp128_Roundtrip Filters
begin

text \<open>
  The codec interface of \<open>crates/tpx-codec/src/lib.rs\<close> with its four codecs, the LZ4 and
  zstd wrappers and the dictionary training. The crates \<open>lz4_flex\<close>, \<open>zstd\<close> and
  \<open>xxhash-rust\<close> are not part of the repository: their functions are the fields of
  \<open>codec_lib\<close>, and what is relied on, that decompression undoes compression, is the
  predicate \<open>codec_lib_ok\<close>. A failing library call is the text of its error. The trait object
  that \<open>get_codec\<close> returns is the pair of functions selected by the identifier.
\<close>

record codec_lib =
  cl_lz4_compress :: "bytes \<Rightarrow> bytes"
  cl_lz4_decompress :: "bytes \<Rightarrow> string + bytes"
  cl_zstd_compress :: "bytes \<Rightarrow> int \<Rightarrow> string + bytes"
  cl_zstd_decompress :: "bytes \<Rightarrow> nat \<Rightarrow> string + bytes"
  cl_zstd_compress_dict :: "bytes \<Rightarrow> int \<Rightarrow> bytes \<Rightarrow> string + bytes"
  cl_zstd_decompress_dict :: "bytes \<Rightarrow> nat \<Rightarrow> bytes \<Rightarrow> string + bytes"
  cl_zstd_train :: "bytes list \<Rightarrow> nat \<Rightarrow> string + bytes"
  cl_xxh64 :: "bytes \<Rightarrow> u64 \<Rightarrow> u64"

definition codec_error :: "string + 'a \<Rightarrow> 'a res" where
  "codec_error r = (case r of Inl e \<Rightarrow> Inl (CodecError (Display (ForeignCodecError e))) | Inr x \<Rightarrow> Inr x)"

definition exact_length :: "nat \<Rightarrow> bytes \<Rightarrow> bytes res" where
  "exact_length n out = (if length out \<noteq> n then Inl (DecompressLengthMismatch n (length out)) else Inr out)"

definition raw_compress :: "bytes \<Rightarrow> bytes res" where
  "raw_compress data = Inr data"

definition raw_decompress :: "bytes \<Rightarrow> nat \<Rightarrow> bytes res" where
  "raw_decompress data uncompressed_len = exact_length uncompressed_len data"

definition lz4_compress :: "codec_lib \<Rightarrow> bytes \<Rightarrow> bytes res" where
  "lz4_compress lib data = Inr (cl_lz4_compress lib data)"

definition lz4_decompress :: "codec_lib \<Rightarrow> bytes \<Rightarrow> nat \<Rightarrow> bytes res" where
  "lz4_decompress lib data uncompressed_len =
     bindR (codec_error (cl_lz4_decompress lib data)) (exact_length uncompressed_len)"

definition clamp_level :: "int \<Rightarrow> int" where
  "clamp_level level = max 1 (min 22 level)"

definition zstd_compress :: "codec_lib \<Rightarrow> bytes \<Rightarrow> int \<Rightarrow> bytes res" where
  "zstd_compress lib data level = codec_error (cl_zstd_compress lib data (clamp_level level))"

definition zstd_compress_with_dict :: "codec_lib \<Rightarrow> bytes \<Rightarrow> int \<Rightarrow> bytes \<Rightarrow> bytes res" where
  "zstd_compress_with_dict lib data level dict =
     codec_error (cl_zstd_compress_dict lib data (clamp_level level) dict)"

definition zstd_decompress :: "codec_lib \<Rightarrow> bytes \<Rightarrow> nat \<Rightarrow> bytes res" where
  "zstd_decompress lib data uncompressed_len = codec_error (cl_zstd_decompress lib data uncompressed_len)"

definition zstd_decompress_with_dict :: "codec_lib \<Rightarrow> bytes \<Rightarrow> nat \<Rightarrow> bytes \<Rightarrow> bytes res" where
  "zstd_decompress_with_dict lib data uncompressed_len dict =
     codec_error (cl_zstd_decompress_dict lib data uncompressed_len dict)"

fun codec_compress :: "codec_lib \<Rightarrow> CodecId \<Rightarrow> bytes \<Rightarrow> int \<Rightarrow> DTypeId \<Rightarrow> bytes res" where
  "codec_compress lib Raw data level dtype = raw_compress data"
| "codec_compress lib Chimp128 data level dtype = chimp_compress data dtype"
| "codec_compress lib Zstd data level dtype = zstd_compress lib data level"
| "codec_compress lib Lz4 data level dtype = lz4_compress lib data"

fun codec_decompress :: "codec_lib \<Rightarrow> CodecId \<Rightarrow> bytes \<Rightarrow> nat \<Rightarrow> DTypeId \<Rightarrow> bytes res" where
  "codec_decompress lib Raw data uncompressed_len dtype = raw_decompress data uncompressed_len"
| "codec_decompress lib Chimp128 data uncompressed_len dtype = chimp_decompress data uncompressed_len dtype"
| "codec_decompress lib Zstd data uncompressed_len dtype = zstd_decompress lib data uncompressed_len"
| "codec_decompress lib Lz4 data uncompressed_len dtype = lz4_decompress lib data uncompressed_len"

section \<open>Dictionaries\<close>

record trained_dict =
  td_data :: bytes
  td_signature :: u64

definition TrainedDict_new :: "bytes \<Rightarrow> u64 \<Rightarrow> trained_dict" where
  "TrainedDict_new data signature = \<lparr>td_data = data, td_signature = signature\<rparr>"

definition signature_input :: "u32 list \<Rightarrow> DTypeId \<Rightarrow> bytes" where
  "signature_input shape dtype = DTypeId_as_u8 dtype # concat (map (le_bytes 4) shape)"

definition compute_signature :: "codec_lib \<Rightarrow> u32 list \<Rightarrow> DTypeId \<Rightarrow> u64" where
  "compute_signature lib shape dtype = cl_xxh64 lib (signature_input shape dtype) 0"

text \<open>The message of a failed training carries the library's text after a fixed prefix.\<close>

definition train_dict :: "codec_lib \<Rightarrow> bytes list \<Rightarrow> nat \<Rightarrow> trained_dict res" where
  "train_dict lib samples max_size =
     (if samples = [] then Inl (CodecError (Lit ''Cannot train dictionary on empty sample set''))
      else case cl_zstd_train lib samples max_size of
        Inl e \<Rightarrow> Inl (CodecError (Lit (''Dictionary training failed: '' @ e)))
      | Inr dict_data \<Rightarrow> Inr (TrainedDict_new dict_data (cl_xxh64 lib dict_data 0)))"

section \<open>Losslessness\<close>

definition codec_lib_ok :: "codec_lib \<Rightarrow> bool" where
  "codec_lib_ok lib \<longleftrightarrow>
     (\<forall>d. cl_lz4_decompress lib (cl_lz4_compress lib d) = Inr d) \<and>
     (\<forall>d l c. cl_zstd_compress lib d l = Inr c \<longrightarrow> cl_zstd_decompress lib c (length d) = Inr d)"

text \<open>The blocks a codec can carry: the float codec needs whole words and a 32-bit count.\<close>

definition float_width :: "DTypeId \<Rightarrow> nat" where
  "float_width dtype = (if dtype = Float64 then 8 else 4)"

fun codec_domain :: "CodecId \<Rightarrow> bytes \<Rightarrow> DTypeId \<Rightarrow> bool" where
  "codec_domain Chimp128 data dtype \<longleftrightarrow>
     length data mod float_width dtype = 0 \<and> length data div float_width dtype < 2 ^ 32"
| "codec_domain c data dtype \<longleftrightarrow> True"

locale block_codec =
  fixes compress :: "bytes \<Rightarrow> int \<Rightarrow> DTypeId \<Rightarrow> bytes res"
    and decompress :: "bytes \<Rightarrow> nat \<Rightarrow> DTypeId \<Rightarrow> bytes res"
    and domain :: "bytes \<Rightarrow> DTypeId \<Rightarrow> bool"
  assumes decompress_compress:
    "domain data dtype \<Longrightarrow> compress data level dtype = Inr z \<Longrightarrow> decompress z (length data) dtype = Inr data"
begin

lemma compress_inj:
  assumes "domain a dtype" "domain b dtype" "length a = length b"
    and "compress a l dtype = Inr z" "compress b l' dtype = Inr z"
  shows "a = b"
proof -
  have "Inr a = (Inr b :: bytes res)"
    using decompress_compress [OF assms(1,4)] decompress_compress [OF assms(2,5)] assms(3) by argo
  then show ?thesis by simp
qed

end

text \<open>What the storage path does with a segment: filter, compress; decompress, revert.\<close>

locale chunk_pipeline = block_filter apply_f revert_f + block_codec compress decompress domain
  for apply_f revert_f compress decompress domain
begin

lemma pipeline_lossless:
  assumes "domain (apply_f seg dtype) dtype" "compress (apply_f seg dtype) level dtype = Inr z"
  shows "bindR (decompress z (length seg) dtype) (\<lambda>d. Inr (revert_f d dtype)) = Inr seg"
  using decompress_compress [OF assms] by (simp add: length_apply revert_apply)

end

interpretation raw_codec: block_codec "codec_compress lib Raw" "codec_decompress lib Raw" "codec_domain Raw" for lib
  by unfold_locales (simp add: raw_compress_def raw_decompress_def exact_length_def)

interpretation chimp_codec: block_codec "codec_compress lib Chimp128" "codec_decompress lib Chimp128" "codec_domain Chimp128" for lib
proof unfold_locales
  fix data dtype level z
  assume d: "codec_domain Chimp128 data dtype" and z: "codec_compress lib Chimp128 data level dtype = Inr z"
  from chimp_stream [of data dtype "length data"] d z
  show "codec_decompress lib Chimp128 z (length data) dtype = Inr data"
    by (auto simp: float_width_def Let_def mod_0_imp_dvd split: if_splits)
qed

definition lib_domain :: "codec_lib \<Rightarrow> CodecId \<Rightarrow> bytes \<Rightarrow> DTypeId \<Rightarrow> bool" where
  "lib_domain lib c data dtype \<longleftrightarrow> codec_lib_ok lib \<and> codec_domain c data dtype"

interpretation any_codec: block_codec "codec_compress lib c" "codec_decompress lib c" "lib_domain lib c" for lib c
proof unfold_locales
  fix data dtype level z
  assume d: "lib_domain lib c data dtype" and z: "codec_compress lib c data level dtype = Inr z"
  show "codec_decompress lib c z (length data) dtype = Inr data"
  proof (cases c)
    case Raw
    then show ?thesis using raw_codec.decompress_compress d z by (simp add: lib_domain_def)
  next
    case Chimp128
    then show ?thesis using chimp_codec.decompress_compress d z by (simp add: lib_domain_def)
  next
    case Zstd
    then show ?thesis using d z
      by (auto simp: lib_domain_def codec_lib_ok_def zstd_compress_def zstd_decompress_def codec_error_def
          split: sum.splits)
  next
    case Lz4
    then show ?thesis using d z
      by (auto simp: lib_domain_def codec_lib_ok_def lz4_compress_def lz4_decompress_def codec_error_def
          exact_length_def)
  qed
qed

interpretation pipeline: chunk_pipeline "filter_apply f" "filter_revert f" "codec_compress lib c"
  "codec_decompress lib c" "lib_domain lib c" for f lib c
  by unfold_locales

text \<open>
  C35: the write path of a chunk is undone by its read path, for every filter, codec, level
  and element type: when compression of the filtered segment succeeds, decompressing to the
  segment's length and reverting the filter gives the segment back. The libraries are
  assumed to invert themselves, and the float codec is limited to whole words.
\<close>

theorem codec_pipeline_lossless:
  assumes "codec_lib_ok lib" and "codec_domain c (filter_apply f seg dtype) dtype"
    and "codec_compress lib c (filter_apply f seg dtype) level dtype = Inr z"
  shows "bindR (codec_decompress lib c z (length seg) dtype) (\<lambda>d. Inr (filter_revert f d dtype)) = Inr seg"
  by (rule pipeline.pipeline_lossless [OF _ assms(3)]) (simp add: assms lib_domain_def)

definition identity_lib :: codec_lib where
  "identity_lib = \<lparr>cl_lz4_compress = (\<lambda>d. d), cl_lz4_decompress = Inr, cl_zstd_compress = (\<lambda>d l. Inr d),
     cl_zstd_decompress = (\<lambda>d n. Inr d), cl_zstd_compress_dict = (\<lambda>d l t. Inr d),
     cl_zstd_decompress_dict = (\<lambda>d n t. Inr d), cl_zstd_train = (\<lambda>s n. Inr []),
     cl_xxh64 = (\<lambda>d s. of_nat (length d) + s)\<rparr>"

lemma identity_lib_ok: "codec_lib_ok identity_lib"
  by (simp add: codec_lib_ok_def identity_lib_def)

theorem codec_pipeline_lossless_witness:
  "bindR (codec_decompress identity_lib Lz4 (filter_apply ByteShuffle (replicate 5 7) Float32) 5 Float32)
     (\<lambda>d. Inr (filter_revert ByteShuffle d Float32)) = Inr (replicate 5 7)"
  using codec_pipeline_lossless [OF identity_lib_ok, of Lz4 ByteShuffle "replicate 5 7" Float32 1
      "filter_apply ByteShuffle (replicate 5 7) Float32"]
  by (simp add: identity_lib_def lz4_compress_def del: bindR_eq_Inr)

text \<open>
  Length checking. Whatever bytes are decompressed, damaged ones included, the raw, LZ4
  and float codecs return either an error or exactly as many bytes as the chunk header
  promised.
\<close>

lemma codec_decompress_length:
  assumes "codec_decompress lib c z n dtype = Inr out" and "c \<noteq> Zstd"
  shows "length out = n"
  using assms
  by (cases c) (auto simp: raw_decompress_def lz4_decompress_def exact_length_def chimp_decompress_def
      Let_def split: if_splits)

lemma codec_decompress_length_witness: "length [1, 2, 3 :: u8] = 3"
  by (rule codec_decompress_length [of identity_lib Lz4 "[1, 2, 3]" 3 Float32])
    (simp_all add: identity_lib_def lz4_decompress_def codec_error_def exact_length_def)

lemma concat_le_bytes_inj: "concat (map (le_bytes 4) a) = concat (map (le_bytes 4) b) \<Longrightarrow> a = (b :: u32 list)"
proof (induction a arbitrary: b)
  case Nil
  then show ?case by (cases b) (auto dest: arg_cong [where f = length])
next
  case (Cons x a)
  then obtain y b' where b: "b = y # b'" by (cases b) (auto dest: arg_cong [where f = length])
  with Cons.prems have "le_bytes 4 x = le_bytes 4 y \<and> concat (map (le_bytes 4) a) = concat (map (le_bytes 4) b')"
    by (intro append_eq_append_conv [THEN iffD1]) simp_all
  moreover from this have "x = y" by (metis of_le_le_bytes_widths(3))
  ultimately show ?case using b Cons.IH [of b'] by simp
qed

text \<open>
  A dictionary signature identifies shape and element type: two tensors hash the same
  bytes exactly when they have the same shape and type, so equal signatures of different
  kinds of tensors are collisions of the hash function only.
\<close>

lemma signature_input_injective:
  "signature_input a s = signature_input b t \<longleftrightarrow> a = b \<and> s = t"
proof -
  have "DTypeId_as_u8 s = DTypeId_as_u8 t \<longleftrightarrow> s = t"
    using DTypeId_rt by (metis sum.inject(2))
  then show ?thesis by (auto simp: signature_input_def dest: concat_le_bytes_inj)
qed

end
