(* ===== verification/Auto_Select.thy ===== *)
theory Auto_Select
  imports Complex_Main Codec
begin

text \<open>
  The codec selection of \<open>crates/tpx-codec/src/auto_select.rs\<close>. The throughput floor and the
  entropy estimate are real numbers here; the code computes the entropy in \<open>f64\<close>, so close
  to the threshold 7.6 it may decide differently. Everything else is exact: the leading-zero
  test works on bit patterns, and the trend test on sign-extended 64-bit words, whose
  difference wraps as in a release build.
\<close>

record codec_selection =
  sel_codec :: CodecId
  sel_filter :: FilterId
  sel_level :: int

definition CodecSelection_default :: codec_selection where
  "CodecSelection_default = \<lparr>sel_codec = Zstd, sel_filter = ByteShuffle, sel_level = 3\<rparr>"

definition byte_count :: "bytes \<Rightarrow> u8 \<Rightarrow> nat" where
  "byte_count bs b = length (filter (\<lambda>x. x = b) bs)"

definition estimate_entropy :: "bytes \<Rightarrow> real" where
  "estimate_entropy data =
     (if data = [] then 0
      else
        let head = take (min (length data) 4096) data;
            counts = map (\<lambda>i. byte_count head (of_nat i)) [0..<256];
            total = real (length head) in
        fold (\<lambda>c entropy. if c > 0 then let p = real c / total in entropy - p * log 2 p else entropy)
          counts 0)"

text \<open>The \<open>i\<close>-th element of width \<open>w\<close>, as a bit pattern.\<close>

definition element :: "nat \<Rightarrow> bytes \<Rightarrow> nat \<Rightarrow> 'a::len word" where
  "element w data i = of_le (take w (drop (i * w) data))"

definition similar_pairs :: "nat \<Rightarrow> nat \<Rightarrow> 'a::len word list \<Rightarrow> nat" where
  "similar_pairs threshold count vals =
     length (filter (\<lambda>i. threshold \<le> leading_zeros ((vals ! (i - 1)) XOR (vals ! i))) [1..<count])"

definition is_correlated_float :: "bytes \<Rightarrow> DTypeId \<Rightarrow> bool" where
  "is_correlated_float data dtype =
     (let count = min (length data div element_size dtype) 64 in
      if count < 4 then False
      else
        let high =
          (if dtype = Float32
           then similar_pairs 12 count (map (element 4 data) [0..<count] :: u32 list)
           else similar_pairs 16 count (map (element 8 data) [0..<count] :: u64 list)) in
        count * 3 div 4 \<le> high)"

definition trend_value :: "bytes \<Rightarrow> DTypeId \<Rightarrow> nat \<Rightarrow> u64" where
  "trend_value data dtype i =
     (if element_size dtype = 4 then scast (element 4 data i :: u32)
      else if element_size dtype = 8 then element 8 data i
      else 0)"

definition is_monotonic_trend :: "bytes \<Rightarrow> DTypeId \<Rightarrow> bool" where
  "is_monotonic_trend data dtype =
     (if element_size dtype < 2 then False
      else
        let count = min (length data div element_size dtype) 64 in
        if count < 8 then False
        else
          let vals = map (trend_value data dtype) [0..<count];
              steps = length (filter (\<lambda>i. let val = vals ! i; prev = vals ! (i - 1) in
                        prev \<le>s val \<and> val - prev <s 1000) [1..<count]) in
          count * 3 div 4 < steps)"

definition auto_select :: "bytes \<Rightarrow> DTypeId \<Rightarrow> real \<Rightarrow> codec_selection" where
  "auto_select sample dtype target_mb_s_floor =
     (if sample = [] then \<lparr>sel_codec = Raw, sel_filter = NoFilter, sel_level = 0\<rparr>
      else if target_mb_s_floor \<ge> 200 then \<lparr>sel_codec = Lz4, sel_filter = NoFilter, sel_level = 1\<rparr>
      else if dtype = Float32 \<or> dtype = Float64 then
        if is_correlated_float sample dtype
        then \<lparr>sel_codec = Chimp128, sel_filter = NoFilter, sel_level = 0\<rparr>
        else if estimate_entropy sample > 7.6
        then \<lparr>sel_codec = Lz4, sel_filter = NoFilter, sel_level = 1\<rparr>
        else \<lparr>sel_codec = Zstd, sel_filter = ByteShuffle, sel_level = 3\<rparr>
      else if is_monotonic_trend sample dtype
      then \<lparr>sel_codec = Zstd, sel_filter = DeltaZigZag, sel_level = 3\<rparr>
      else if estimate_entropy sample > 7.6
      then \<lparr>sel_codec = Raw, sel_filter = NoFilter, sel_level = 0\<rparr>
      else \<lparr>sel_codec = Zstd, sel_filter = ByteShuffle, sel_level = 3\<rparr>)"

section \<open>What is selected\<close>

lemma auto_select_engine:
  "data \<noteq> [] \<Longrightarrow> auto_select data dtype 250 = \<lparr>sel_codec = Lz4, sel_filter = NoFilter, sel_level = 1\<rparr>"
  by (simp add: auto_select_def)

text \<open>
  For every sample, element type and throughput floor, a segment of whole elements that
  is written with the selected filter, codec and level is read back unchanged, whatever the
  heuristics decided.
\<close>

lemma auto_select_lossless:
  assumes "codec_lib_ok lib" and "length seg mod element_size dtype = 0"
    and "length seg < 2 ^ 32" and "sel = auto_select sample dtype speed_floor"
    and "codec_compress lib (sel_codec sel) (filter_apply (sel_filter sel) seg dtype) (sel_level sel) dtype = Inr z"
  shows "bindR (codec_decompress lib (sel_codec sel) z (length seg) dtype)
           (\<lambda>d. Inr (filter_revert (sel_filter sel) d dtype)) = Inr seg"
proof (rule pipeline.pipeline_lossless [OF _ assms(5)])
  have "codec_domain (sel_codec sel) (filter_apply (sel_filter sel) seg dtype) dtype"
    using assms(2,3) unfolding assms(4)
    by (auto simp: auto_select_def float_width_def any_filter.length_apply split: if_splits)
  with assms(1) show "lib_domain lib (sel_codec sel) (filter_apply (sel_filter sel) seg dtype) dtype"
    by (simp add: lib_domain_def)
qed

lemma auto_select_lossless_witness:
  "bindR (codec_decompress identity_lib Lz4 (replicate 4 9) 4 Float32) (\<lambda>d. Inr (filter_revert NoFilter d Float32))
     = Inr (replicate 4 9)"
  using auto_select_lossless [OF identity_lib_ok, of "replicate 4 9" Float32
      "auto_select (replicate 4 9) Float32 250" "replicate 4 9" 250 "replicate 4 9"]
  by (simp add: auto_select_engine identity_lib_def lz4_compress_def del: bindR_eq_Inr)

text \<open>
  The trend test is blind on two-byte types: it reads every element of such a type as
  zero, so any sample of at least eight elements counts as monotonic and delta coding is
  chosen below the fast path, whatever the data.
\<close>

lemma two_byte_always_monotonic:
  assumes "element_size dtype = 2" and "16 \<le> length data" and "speed_floor < 200"
  shows "auto_select data dtype speed_floor = \<lparr>sel_codec = Zstd, sel_filter = DeltaZigZag, sel_level = 3\<rparr>"
proof -
  define n where "n = min (length data div element_size dtype) 64"
  have n: "8 \<le> n" using assms(1,2) by (simp add: n_def)
  have v: "map (trend_value data dtype) [0..<n] = replicate n 0"
    by (rule nth_equalityI) (simp_all add: trend_value_def assms(1))
  have f: "filter (\<lambda>i. let val = replicate n (0 :: u64) ! i; prev = replicate n 0 ! (i - 1) in
      prev \<le>s val \<and> val - prev <s 1000) [1..<n] = [1..<n]"
    by (rule filter_True) (auto simp: word_sless_alt)
  have "n * 3 div 4 < n - 1" using n by linarith
  then have "is_monotonic_trend data dtype"
    using assms(1) n unfolding is_monotonic_trend_def n_def [symmetric] Let_def [of n] Let_def [of "map _ _"] v f
    by simp
  moreover have "dtype \<noteq> Float32" "dtype \<noteq> Float64" "data \<noteq> []" using assms by auto
  ultimately show ?thesis using assms(3) by (simp add: auto_select_def)
qed

lemma two_byte_always_monotonic_witness:
  "auto_select [9, 255, 3, 128, 7, 0, 1, 99, 200, 5, 6, 7, 30, 20, 10, 0] Int16 100
     = \<lparr>sel_codec = Zstd, sel_filter = DeltaZigZag, sel_level = 3\<rparr>"
  by (rule two_byte_always_monotonic) simp_all

end
