(* ===== verification/Version_Chain.thy ===== *)
theory Version_Chain
  imports Attrs
begin

text \<open>
  The version chain of one key, \<open>crates/tpx-version/src/chain.rs\<close>. The clock that
  \<open>VersionEntry::new\<close> reads is the argument \<open>now\<close>. A \<open>HashSet\<close> built from a list and
  turned back into a list is represented by the list without repetitions; its order stands
  for the iteration order of the set.
\<close>

datatype RetentionPolicy = KeepLatest | KeepLastN u32 | KeepForever

definition RetentionPolicy_default :: RetentionPolicy where
  "RetentionPolicy_default = KeepLatest"

record version_entry =
  ve_version_id :: u32
  ve_timestamp :: u64
  ve_dtype_id :: DTypeId
  ve_shape :: "u32 list"
  ve_attrs :: "(bytes \<times> AttrValue) list"
  ve_chunk_refs :: "u128 list"

definition VersionEntry_new ::
  "u64 \<Rightarrow> u32 \<Rightarrow> DTypeId \<Rightarrow> u32 list \<Rightarrow> (bytes \<times> AttrValue) list \<Rightarrow> u128 list \<Rightarrow> version_entry" where
  "VersionEntry_new now version_id dtype_id shape attrs chunk_refs =
     \<lparr>ve_version_id = version_id, ve_timestamp = now, ve_dtype_id = dtype_id, ve_shape = shape,
      ve_attrs = attrs, ve_chunk_refs = chunk_refs\<rparr>"

record version_diff =
  vd_added :: "u128 list"
  vd_removed :: "u128 list"

record version_chain =
  vc_key :: bytes
  vc_versions :: "version_entry list"
  vc_retention :: RetentionPolicy

definition VersionChain_new :: "bytes \<Rightarrow> RetentionPolicy \<Rightarrow> version_chain" where
  "VersionChain_new key retention = \<lparr>vc_key = key, vc_versions = [], vc_retention = retention\<rparr>"

definition VersionChain_latest :: "version_chain \<Rightarrow> version_entry option" where
  "VersionChain_latest c = (if vc_versions c = [] then None else Some (last (vc_versions c)))"

definition VersionChain_get_version :: "version_chain \<Rightarrow> u32 \<Rightarrow> version_entry option" where
  "VersionChain_get_version c version = find (\<lambda>v. ve_version_id v = version) (vc_versions c)"

definition VersionChain_list_versions :: "version_chain \<Rightarrow> u32 list" where
  "VersionChain_list_versions c = map ve_version_id (vc_versions c)"

text \<open>The versions drained from the front, with the hashes they held.\<close>

definition drain_versions :: "nat \<Rightarrow> version_chain \<Rightarrow> u128 list \<times> version_chain" where
  "drain_versions to_remove c =
     (concat (map ve_chunk_refs (take to_remove (vc_versions c))),
      c\<lparr>vc_versions := drop to_remove (vc_versions c)\<rparr>)"

definition apply_retention :: "version_chain \<Rightarrow> u128 list \<times> version_chain" where
  "apply_retention c =
     (case vc_retention c of
        KeepLatest \<Rightarrow>
          if length (vc_versions c) > 1 then drain_versions (length (vc_versions c) - 1) c else ([], c)
      | KeepLastN n \<Rightarrow>
          let limit = unat (max n 1) in
          if length (vc_versions c) > limit then drain_versions (length (vc_versions c) - limit) c else ([], c)
      | KeepForever \<Rightarrow> ([], c))"

text \<open>The next identifier is a \<open>u32\<close> addition, which wraps in a release build.\<close>

definition next_version_id :: "version_chain \<Rightarrow> u32" where
  "next_version_id c = (case VersionChain_latest c of Some v \<Rightarrow> ve_version_id v + 1 | None \<Rightarrow> 0)"

definition VersionChain_append ::
  "version_chain \<Rightarrow> u64 \<Rightarrow> DTypeId \<Rightarrow> u32 list \<Rightarrow> (bytes \<times> AttrValue) list \<Rightarrow> u128 list
     \<Rightarrow> (u32 \<times> u128 list) \<times> version_chain" where
  "VersionChain_append c now dtype_id shape attrs chunk_refs =
     (let version_id = next_version_id c;
          entry = VersionEntry_new now version_id dtype_id shape attrs chunk_refs;
          (evicted, c') = apply_retention (c\<lparr>vc_versions := vc_versions c @ [entry]\<rparr>) in
      ((version_id, evicted), c'))"

definition hash_difference :: "u128 list \<Rightarrow> u128 list \<Rightarrow> u128 list" where
  "hash_difference a b = filter (\<lambda>h. h \<notin> set b) (remdups a)"

definition VersionChain_diff :: "version_chain \<Rightarrow> u32 \<Rightarrow> u32 \<Rightarrow> version_diff res" where
  "VersionChain_diff c v1 v2 =
     (case VersionChain_get_version c v1 of
        None \<Rightarrow> Inl (VersionNotFound (vc_key c) v1)
      | Some e1 \<Rightarrow>
          (case VersionChain_get_version c v2 of
             None \<Rightarrow> Inl (VersionNotFound (vc_key c) v2)
           | Some e2 \<Rightarrow>
               Inr \<lparr>vd_added = hash_difference (ve_chunk_refs e2) (ve_chunk_refs e1),
                    vd_removed = hash_difference (ve_chunk_refs e1) (ve_chunk_refs e2)\<rparr>))"

section \<open>Retention\<close>

text \<open>How many versions a policy leaves of a chain of \<open>n\<close>.\<close>

fun retained :: "RetentionPolicy \<Rightarrow> nat \<Rightarrow> nat" where
  "retained KeepLatest n = min n 1"
| "retained (KeepLastN k) n = min n (max (unat k) 1)"
| "retained KeepForever n = n"

lemma unat_max_1: "unat (max n (1 :: u32)) = max (unat n) 1"
  by (simp add: max_def word_le_nat_alt)

lemma apply_retention_eq:
  "apply_retention c = drain_versions (length (vc_versions c) - retained (vc_retention c) (length (vc_versions c))) c"
proof -
  have "drain_versions 0 c = ([], c)" by (simp add: drain_versions_def)
  then show ?thesis
    by (cases "vc_retention c") (auto simp: apply_retention_def Let_def unat_max_1 min_def)
qed

lemma retained_le: "retained p n \<le> n"
  by (cases p) auto

lemma retained_pos: "0 < n \<Longrightarrow> 0 < retained p n"
  by (cases p) auto

lemma VersionChain_append_eq:
  fixes c :: version_chain and now dt sh at hs
  defines "e \<equiv> VersionEntry_new now (next_version_id c) dt sh at hs"
  defines "vs \<equiv> vc_versions c @ [e]"
  defines "k \<equiv> length vs - retained (vc_retention c) (length vs)"
  shows "VersionChain_append c now dt sh at hs =
    ((next_version_id c, concat (map ve_chunk_refs (take k vs))), c\<lparr>vc_versions := drop k vs\<rparr>)"
  unfolding VersionChain_append_def Let_def apply_retention_eq drain_versions_def e_def vs_def k_def
  by simp

text \<open>
  C36: appending a version. The new version is the last one; what is kept is a suffix of the
  old versions followed by the new one, of exactly the length the policy allows; and the
  hashes reported as evicted are those of the versions dropped, in order, so no reference is
  lost or released twice.
\<close>

theorem VersionChain_append_spec:
  "\<exists>dropped kept e. VersionChain_append c now dt sh at hs =
       ((ve_version_id e, concat (map ve_chunk_refs dropped)), c\<lparr>vc_versions := kept @ [e]\<rparr>) \<and>
     vc_versions c = dropped @ kept \<and> e = VersionEntry_new now (next_version_id c) dt sh at hs \<and>
     length kept + 1 = retained (vc_retention c) (length (vc_versions c) + 1)"
proof -
  let ?e = "VersionEntry_new now (next_version_id c) dt sh at hs"
  let ?r = "retained (vc_retention c) (length (vc_versions c) + 1)"
  let ?k = "length (vc_versions c) + 1 - ?r"
  have r: "?r \<le> length (vc_versions c) + 1" "0 < ?r" using retained_le retained_pos by simp_all
  then have k: "?k \<le> length (vc_versions c)" by linarith
  have "VersionChain_append c now dt sh at hs =
       ((ve_version_id ?e, concat (map ve_chunk_refs (take ?k (vc_versions c)))),
        c\<lparr>vc_versions := drop ?k (vc_versions c) @ [?e]\<rparr>)"
    using k by (simp add: VersionChain_append_eq VersionEntry_new_def)
  moreover have "length (drop ?k (vc_versions c)) + 1 = ?r" using r by simp
  ultimately show ?thesis by (metis append_take_drop_id)
qed

section \<open>Version identifiers\<close>

text \<open>The identifiers of a chain are consecutive and stay below the 32-bit bound.\<close>

definition ids_consecutive :: "version_chain \<Rightarrow> bool" where
  "ids_consecutive c \<longleftrightarrow>
     (\<exists>n. map (unat \<circ> ve_version_id) (vc_versions c) = [n..<n + length (vc_versions c)])"

lemma ids_consecutive_new [simp]: "ids_consecutive (VersionChain_new k r)"
  by (simp add: ids_consecutive_def VersionChain_new_def)

lemma next_version_id_last:
  assumes "map (unat \<circ> ve_version_id) (vc_versions c) = [n..<n + length (vc_versions c)]"
    and "vc_versions c \<noteq> []"
  shows "unat (ve_version_id (last (vc_versions c))) = n + length (vc_versions c) - 1"
proof -
  have "last (map (unat \<circ> ve_version_id) (vc_versions c)) = last [n..<n + length (vc_versions c)]"
    using assms(1) by (rule arg_cong)
  then show ?thesis using assms(2) by (simp add: last_map)
qed

lemma find_last:
  assumes "xs \<noteq> []" and "distinct (map f xs)"
  shows "find (\<lambda>v. f v = f (last xs)) xs = Some (last xs)"
  using assms
proof (induction xs)
  case (Cons a xs)
  show ?case
  proof (cases "xs = []")
    case False
    then have "f (last xs) \<in> f ` set xs" by simp
    then have "f a \<noteq> f (last xs)" using Cons.prems by auto
    then show ?thesis using Cons False by simp
  qed simp
qed simp

text \<open>
  Version identifiers. While the 32-bit counter has not wrapped, appending keeps the
  identifiers of a chain consecutive, returns the identifier of the newest version, and
  looking that identifier up yields exactly that version.
\<close>

lemma VersionChain_append_ids:
  assumes "ids_consecutive c" and "next_version_id c \<noteq> 0 \<or> vc_versions c = []"
    and "VersionChain_append c now dt sh at hs = ((i, ev), c')"
  shows "ids_consecutive c' \<and> VersionChain_latest c' = VersionChain_get_version c' i \<and>
    VersionChain_get_version c' i = Some (VersionEntry_new now i dt sh at hs)"
proof -
  let ?e = "VersionEntry_new now (next_version_id c) dt sh at hs"
  let ?vs = "vc_versions c @ [?e]"
  from assms(1) obtain n where n: "map (unat \<circ> ve_version_id) (vc_versions c) = [n..<n + length (vc_versions c)]"
    unfolding ids_consecutive_def by blast
  obtain m where m: "map (unat \<circ> ve_version_id) ?vs = [m..<m + length ?vs]"
  proof (cases "vc_versions c = []")
    case True
    then show ?thesis using that [of 0]
      by (simp add: VersionEntry_new_def next_version_id_def VersionChain_latest_def)
  next
    case False
    then have "next_version_id c = ve_version_id (last (vc_versions c)) + 1"
      by (simp add: next_version_id_def VersionChain_latest_def)
    then have "unat (next_version_id c) = Suc (unat (ve_version_id (last (vc_versions c))))"
      using assms(2) False 
      by (auto simp: unatSuc add.commute [of _ 1])
    with next_version_id_last [OF n False] False show ?thesis using that [of n] n
      by (simp add: VersionEntry_new_def)
  qed
  define k where "k = length ?vs - retained (vc_retention c) (length ?vs)"
  have k: "k < length ?vs" using retained_pos [of "length ?vs" "vc_retention c"] by (simp add: k_def)
  have c': "c' = c\<lparr>vc_versions := drop k ?vs\<rparr>" "i = next_version_id c"
    using assms(3) unfolding VersionChain_append_eq k_def prod.inject by blast+
  have vs': "vc_versions c' = drop k ?vs" unfolding c'(1) by (cases c) (simp del: drop_append)
  have ids: "map (unat \<circ> ve_version_id) (drop k ?vs) = [m + k..<m + k + length (drop k ?vs)]"
    using arg_cong [OF m, of "drop k"] k unfolding drop_map by (simp add: drop_upt)
  have "distinct (map (unat \<circ> ve_version_id) (drop k ?vs))" unfolding ids by simp
  then have "distinct (map ve_version_id (drop k ?vs))"
    using distinct_map [of unat "map ve_version_id (drop k ?vs)"] by simp
  moreover have l: "last (drop k ?vs) = ?e" "drop k ?vs \<noteq> []" using k by simp_all
  ultimately have "find (\<lambda>v. ve_version_id v = ve_version_id ?e) (drop k ?vs) = Some ?e"
    using find_last [of "drop k ?vs" ve_version_id] by simp
  moreover have "ve_version_id ?e = i" by (simp add: VersionEntry_new_def c'(2))
  moreover have "ids_consecutive c'" unfolding ids_consecutive_def c'(1)
    by (rule exI [of _ "m + k"]) (use ids in \<open>simp only: vs' [unfolded c'(1)]\<close>)
  ultimately show ?thesis using l
    unfolding VersionChain_get_version_def VersionChain_latest_def c'(1) c'(2)
    by (simp del: drop_append)
qed

lemma VersionChain_append_ids_witness:
  "VersionChain_get_version
     (snd (VersionChain_append (VersionChain_new (str ''w'') KeepForever) 7 Float32 [2] [] [1])) 0
   = Some (VersionEntry_new 7 0 Float32 [2] [] [1])"
proof -
  let ?r = "VersionChain_append (VersionChain_new (str ''w'') KeepForever) 7 Float32 [2] [] [1]"
  have r: "?r = ((0, snd (fst ?r)), snd ?r)"
    by (simp add: VersionChain_append_eq next_version_id_def VersionChain_new_def VersionChain_latest_def)
  show ?thesis
    using VersionChain_append_ids [OF ids_consecutive_new _ r] by (simp add: VersionChain_new_def)
qed

section \<open>Difference of two versions\<close>

text \<open>
  The difference of two versions. An unknown version is reported, the first one first;
  otherwise the two lists have no repetitions and hold exactly the content hashes that only
  the second, respectively only the first, version refers to.
\<close>

lemma VersionChain_diff_spec:
  "(case VersionChain_diff c v1 v2 of
      Inl e \<Rightarrow>
        (if VersionChain_get_version c v1 = None then e = VersionNotFound (vc_key c) v1
         else VersionChain_get_version c v2 = None \<and> e = VersionNotFound (vc_key c) v2)
    | Inr d \<Rightarrow> (\<exists>e1 e2. VersionChain_get_version c v1 = Some e1 \<and> VersionChain_get_version c v2 = Some e2 \<and>
        set (vd_added d) = set (ve_chunk_refs e2) - set (ve_chunk_refs e1) \<and>
        set (vd_removed d) = set (ve_chunk_refs e1) - set (ve_chunk_refs e2) \<and>
        distinct (vd_added d) \<and> distinct (vd_removed d)))"
  by (auto simp: VersionChain_diff_def hash_difference_def split: option.splits)

end
