(* ===== verification/Content_Store.thy ===== *)
theory Content_Store
  imports Core_Types
begin

text \<open>
  The deduplication index of \<open>crates/tpx-dedup/src/content_store.rs\<close>: where the chunk with
  a given content hash is stored, and how many versions refer to it. The concurrent map is
  an association list; each operation of the code takes one entry under its lock, so the
  sequence of operations is the interleaving. Cloned entries share their counter with the
  map, which is why only the location of a looked-up entry is read by the callers.
\<close>

record content_entry =
  ce_shard_id :: u16
  ce_chunk_offset :: u64
  ce_chunk_len :: u32
  ce_refcount :: u32

definition ContentEntry_new :: "u16 \<Rightarrow> u64 \<Rightarrow> u32 \<Rightarrow> u32 \<Rightarrow> content_entry" where
  "ContentEntry_new shard_id chunk_offset chunk_len initial_refcount =
     \<lparr>ce_shard_id = shard_id, ce_chunk_offset = chunk_offset, ce_chunk_len = chunk_len,
      ce_refcount = initial_refcount\<rparr>"

type_synonym content_store = "(u128, content_entry) hash_map"

definition ContentStore_new :: content_store where
  "ContentStore_new = []"

definition cs_lookup :: "content_store \<Rightarrow> u128 \<Rightarrow> content_entry option" where
  "cs_lookup s h = map_of s h"

definition cs_insert :: "content_store \<Rightarrow> u128 \<Rightarrow> content_entry \<Rightarrow> bool \<times> content_store" where
  "cs_insert s h e = (if map_of s h \<noteq> None then (False, s) else (True, AList.update h e s))"

text \<open>The message \<open>Content hash {:032x}\<close>.\<close>

definition hex_digit :: "nat \<Rightarrow> u8" where
  "hex_digit d = (if d < 10 then of_nat (48 + d) else of_nat (87 + d))"

definition hash_message :: "u128 \<Rightarrow> bytes" where
  "hash_message h =
     str ''Content hash '' @ map (\<lambda>i. hex_digit (unat (drop_bit (4 * i) h) mod 16)) (rev [0..<32])"

text \<open>The counter is an atomic \<open>u32\<close>: \<open>fetch_add\<close> and \<open>fetch_sub\<close> wrap.\<close>

definition cs_add_ref :: "content_store \<Rightarrow> u128 \<Rightarrow> u32 res \<times> content_store" where
  "cs_add_ref s h =
     (case map_of s h of
        Some e \<Rightarrow> let prev = ce_refcount e in
          (Inr (prev + 1), AList.update h (e\<lparr>ce_refcount := prev + 1\<rparr>) s)
      | None \<Rightarrow> (Inl (KeyNotFound (hash_message h)), s))"

definition cs_release :: "content_store \<Rightarrow> u128 \<Rightarrow> u32 res \<times> content_store" where
  "cs_release s h =
     (case map_of s h of
        Some e \<Rightarrow> let prev = ce_refcount e in
          (Inr (if prev = 0 then 0 else prev - 1), AList.update h (e\<lparr>ce_refcount := prev - 1\<rparr>) s)
      | None \<Rightarrow> (Inl (KeyNotFound (hash_message h)), s))"

definition cs_gc_candidates :: "content_store \<Rightarrow> (u128 \<times> content_entry) list" where
  "cs_gc_candidates s = filter (\<lambda>(h, e). ce_refcount e = 0) s"

definition cs_remove :: "content_store \<Rightarrow> u128 \<Rightarrow> content_entry option \<times> content_store" where
  "cs_remove s h = (map_of s h, AList.delete h s)"

definition cs_len :: "content_store \<Rightarrow> nat" where "cs_len s = length s"

definition cs_is_empty :: "content_store \<Rightarrow> bool" where "cs_is_empty s \<longleftrightarrow> s = []"

section \<open>Reference counts\<close>

definition refcount :: "content_store \<Rightarrow> u128 \<Rightarrow> u32 option" where
  "refcount s h = map_option ce_refcount (map_of s h)"

definition location :: "content_store \<Rightarrow> u128 \<Rightarrow> (u16 \<times> u64 \<times> u32) option" where
  "location s h = map_option (\<lambda>e. (ce_shard_id e, ce_chunk_offset e, ce_chunk_len e)) (map_of s h)"

lemma location_None: "location s h = None \<longleftrightarrow> map_of s h = None"
  by (simp add: location_def)

lemma location_insert:
  "location (snd (cs_insert s h e)) k =
     (if k = h \<and> location s h = None then Some (ce_shard_id e, ce_chunk_offset e, ce_chunk_len e) else location s k)"
  by (auto simp: cs_insert_def location_def update_conv')

lemma location_add_ref: "location (snd (cs_add_ref s h)) k = location s k"
  by (auto simp: cs_add_ref_def location_def update_conv' Let_def split: option.split)

lemma location_release: "location (snd (cs_release s h)) k = location s k"
  by (auto simp: cs_release_def location_def update_conv' Let_def split: option.split)

lemma location_remove: "location (snd (cs_remove s h)) k = (if k = h then None else location s k)"
  by (simp add: cs_remove_def location_def delete_conv')

text \<open>
  What the storage engine relies on: a lookup answers the location a chunk was inserted
  with, and neither later inserts nor reference counting ever move it.
\<close>

locale chunk_index =
  fixes loc :: "'s \<Rightarrow> 'h \<Rightarrow> 'l option"
    and ins :: "'s \<Rightarrow> 'h \<Rightarrow> 'l \<Rightarrow> 's"
    and addr :: "'s \<Rightarrow> 'h \<Rightarrow> 's"
    and rel :: "'s \<Rightarrow> 'h \<Rightarrow> 's"
  assumes loc_ins: "loc (ins s h l) k = (if k = h \<and> loc s h = None then Some l else loc s k)"
    and loc_addr: "loc (addr s h) k = loc s k"
    and loc_rel: "loc (rel s h) k = loc s k"
begin

lemma loc_ins_new: "loc s h = None \<Longrightarrow> loc (ins s h l) h = Some l"
  by (simp add: loc_ins)

lemma loc_ins_stable: "loc s k = Some x \<Longrightarrow> loc (ins s h l) k = Some x"
  by (auto simp: loc_ins)

lemma loc_fold_rel: "loc (fold (\<lambda>h s. rel s h) hs s) k = loc s k"
  by (induction hs arbitrary: s) (simp_all add: loc_rel)

lemma dom_ins: "{k. loc (ins s h l) k \<noteq> None} = insert h {k. loc s k \<noteq> None}"
  by (auto simp: loc_ins)

end

interpretation content_index: chunk_index location
  "\<lambda>s h (sh, off, len). snd (cs_insert s h (ContentEntry_new sh off len 1))"
  "\<lambda>s h. snd (cs_add_ref s h)" "\<lambda>s h. snd (cs_release s h)"
  by unfold_locales
    (auto simp: location_insert location_add_ref location_release ContentEntry_new_def)

lemma refcount_add_ref:
  "refcount (snd (cs_add_ref s h)) k = (if k = h then map_option (\<lambda>c. c + 1) (refcount s h) else refcount s k)"
  by (auto simp: cs_add_ref_def refcount_def update_conv' Let_def split: option.split)

lemma refcount_release:
  "refcount (snd (cs_release s h)) k = (if k = h then map_option (\<lambda>c. c - 1) (refcount s h) else refcount s k)"
  by (auto simp: cs_release_def refcount_def update_conv' Let_def split: option.split)

lemma cs_add_ref_result:
  "fst (cs_add_ref s h) = (case refcount s h of Some c \<Rightarrow> Inr (c + 1) | None \<Rightarrow> Inl (KeyNotFound (hash_message h)))"
  by (auto simp: cs_add_ref_def refcount_def Let_def split: option.split)

lemma cs_release_result:
  "fst (cs_release s h) = (case refcount s h of Some c \<Rightarrow> Inr (c - of_bool (c \<noteq> 0))
     | None \<Rightarrow> Inl (KeyNotFound (hash_message h)))"
  by (auto simp: cs_release_def refcount_def Let_def split: option.split)

datatype ref_op = AddRef u128 | Release u128

fun ref_step :: "ref_op \<Rightarrow> content_store \<Rightarrow> content_store" where
  "ref_step (AddRef h) s = snd (cs_add_ref s h)"
| "ref_step (Release h) s = snd (cs_release s h)"

lemma refcount_steps:
  "refcount s h = Some c \<Longrightarrow>
   refcount (fold ref_step ops s) h =
     Some (c + of_nat (count_list ops (AddRef h)) - of_nat (count_list ops (Release h)))"
proof (induction ops arbitrary: s c)
  case (Cons x ops)
  show ?case
  proof (cases x)
    case (AddRef g)
    then show ?thesis using Cons.prems Cons.IH [of "snd (cs_add_ref s g)" "if g = h then c + 1 else c"]
      by (auto simp: refcount_add_ref algebra_simps)
  next
    case (Release g)
    then show ?thesis using Cons.prems Cons.IH [of "snd (cs_release s g)" "if g = h then c - 1 else c"]
      by (auto simp: refcount_release algebra_simps)
  qed
qed simp

lemma location_steps: "location (fold ref_step ops s) h = location s h"
proof (induction ops arbitrary: s)
  case (Cons x ops)
  then show ?case by (cases x) (simp_all add: location_add_ref location_release)
qed simp

text \<open>
  Reference counting under any interleaving. From a chunk inserted with count one, any
  sequence of \<open>add_ref\<close> and \<open>release\<close> calls, on this and on other hashes, leaves the chunk's
  count at one plus its additions minus its releases, modulo 2^32, and its location unchanged.
\<close>

lemma refcount_interleaving:
  fixes s h sh off len ops
  defines "s1 \<equiv> snd (cs_insert s h (ContentEntry_new sh off len 1))"
  assumes "cs_lookup s h = None"
  shows "refcount (fold ref_step ops s1) h =
      Some (1 + of_nat (count_list ops (AddRef h)) - of_nat (count_list ops (Release h)))
    \<and> location (fold ref_step ops s1) h = Some (sh, off, len)"
proof -
  have "refcount s1 h = Some 1" "location s1 h = Some (sh, off, len)"
    using assms by (simp_all add: cs_insert_def cs_lookup_def refcount_def location_def
        ContentEntry_new_def update_conv')
  then show ?thesis using refcount_steps [of s1 h 1 ops] location_steps [of ops s1 h] by simp
qed

lemma refcount_interleaving_witness:
  "refcount (fold ref_step [AddRef 5, Release 9, Release 5]
     (snd (cs_insert ContentStore_new 5 (ContentEntry_new 0 4096 4096 1)))) 5 = Some 1"
  using refcount_interleaving [of ContentStore_new 5 "[AddRef 5, Release 9, Release 5]" 0 4096 4096]
  by (simp add: cs_lookup_def ContentStore_new_def)

text \<open>
  Releasing once too often. A chunk at count zero is offered for collection; one more
  release answers zero again, but the stored counter has wrapped to 2^32 - 1 and the chunk
  is never offered again.
\<close>

lemma release_underflow:
  fixes h sh off len
  defines "s1 \<equiv> snd (cs_insert ContentStore_new h (ContentEntry_new sh off len 1))"
  defines "s2 \<equiv> snd (cs_release s1 h)"
  defines "s3 \<equiv> snd (cs_release s2 h)"
  shows "map fst (cs_gc_candidates s2) = [h] \<and> fst (cs_release s2 h) = Inr 0 \<and>
    refcount s3 h = Some (2 ^ 32 - 1) \<and> cs_gc_candidates s3 = []"
  by (simp add: s1_def s2_def s3_def cs_insert_def cs_release_def ContentStore_new_def
      ContentEntry_new_def cs_gc_candidates_def refcount_def)

end
