(* ===== verification/Cdc.thy ===== *)
theory Cdc
  imports TPX_Prelude
begin

text \<open>
  Content-defined chunking, \<open>crates/tpx-dedup/src/cdc.rs\<close>. The gear table is computed as the
  code computes it. The 128-bit content hash is the function \<open>xxh3_128\<close> of the
  \<open>xxhash-rust\<close> crate and is the parameter \<open>xxh\<close>. A configuration for which the loop makes no
  progress never returns in the code; the model answers \<open>None\<close> for it.
\<close>

definition gear_step :: "u64 \<Rightarrow> u64" where
  "gear_step val = val * 6364136223846793005 + 1442695040888963407"

fun gear_values :: "nat \<Rightarrow> u64 \<Rightarrow> u64 list" where
  "gear_values 0 val = []"
| "gear_values (Suc n) val = (let val = gear_step val in val # gear_values n val)"

definition GEAR_TABLE :: "u64 list" where
  "GEAR_TABLE = gear_values 256 0x9E3779B97F4A7C15"

record cdc_segment =
  sg_offset :: nat
  sg_len :: nat
  sg_content_hash :: u128

record cdc_config =
  cc_min_size :: nat
  cc_max_size :: nat
  cc_target_avg :: nat
  cc_boundary_mask :: u64

definition CdcConfig_default :: cdc_config where
  "CdcConfig_default = \<lparr>cc_min_size = 32 * 1024, cc_max_size = 512 * 1024,
     cc_target_avg = 128 * 1024, cc_boundary_mask = 0x0001FFFF\<rparr>"

text \<open>One step of the rolling hash, and the scan for a boundary in \<open>i..<scan_end\<close>.\<close>

definition gear_hash :: "u64 \<Rightarrow> u8 \<Rightarrow> u64" where
  "gear_hash hash b = push_bit 1 hash + GEAR_TABLE ! unat b"

fun scan_cut :: "u64 \<Rightarrow> bytes \<Rightarrow> nat \<Rightarrow> u64 \<Rightarrow> nat \<Rightarrow> nat" where
  "scan_cut boundary [] i hash scan_end = scan_end"
| "scan_cut boundary (b # bs) i hash scan_end =
     (let hash = gear_hash hash b in
      if hash AND boundary = 0 then i + 1 else scan_cut boundary bs (i + 1) hash scan_end)"

definition slice :: "bytes \<Rightarrow> nat \<Rightarrow> nat \<Rightarrow> bytes" where
  "slice data a b = take (b - a) (drop a data)"

definition cut_point :: "bytes \<Rightarrow> cdc_config \<Rightarrow> nat \<Rightarrow> nat" where
  "cut_point data config chunk_start =
     (let remaining = length data - chunk_start;
          max_chunk_len = min remaining (cc_max_size config);
          scan_start = chunk_start + cc_min_size config;
          scan_end = chunk_start + max_chunk_len in
      scan_cut (cc_boundary_mask config) (slice data scan_start scan_end) scan_start 0 scan_end)"

lemma scan_cut_le: "i + length bs \<le> e \<Longrightarrow> scan_cut m bs i h e \<le> e"
  by (induction bs arbitrary: i h) (simp_all add: Let_def)

lemma scan_cut_ge: "scan_cut m bs i h e = e \<or> i < scan_cut m bs i h e"
  by (induction bs arbitrary: i h) (auto simp: Let_def, metis Suc_lessD)

lemma length_slice [simp]: "length (slice data a b) = min (b - a) (length data - a)"
  by (simp add: slice_def)

lemma cut_point_bounds:
  assumes "chunk_start < length data" and "cc_min_size config < length data - chunk_start"
  defines "cp \<equiv> cut_point data config chunk_start"
  shows "cp \<le> chunk_start + min (length data - chunk_start) (cc_max_size config)"
    and "cp = chunk_start + min (length data - chunk_start) (cc_max_size config)
          \<or> chunk_start + cc_min_size config < cp"
proof -
  let ?e = "chunk_start + min (length data - chunk_start) (cc_max_size config)"
  let ?s = "chunk_start + cc_min_size config"
  show "cp \<le> ?e"
  proof (cases "?s \<le> ?e")
    case True
    then show ?thesis unfolding cp_def cut_point_def Let_def by (intro scan_cut_le) simp
  next
    case False
    then have "?e - ?s = 0" by linarith
    then have "slice data ?s ?e = []" by (simp only: slice_def take_0)
    then show ?thesis unfolding cp_def cut_point_def Let_def by simp
  qed
  show "cp = ?e \<or> ?s < cp"
    unfolding cp_def cut_point_def Let_def by (rule scan_cut_ge)
qed

definition cdc_segment_at :: "(bytes \<Rightarrow> u128) \<Rightarrow> bytes \<Rightarrow> nat \<Rightarrow> nat \<Rightarrow> cdc_segment" where
  "cdc_segment_at xxh data start end =
     \<lparr>sg_offset = start, sg_len = end - start, sg_content_hash = xxh (slice data start end)\<rparr>"

function cdc_loop :: "(bytes \<Rightarrow> u128) \<Rightarrow> bytes \<Rightarrow> cdc_config \<Rightarrow> nat \<Rightarrow> cdc_segment list option" where
  "cdc_loop xxh data config chunk_start =
     (if chunk_start < length data then
        if length data - chunk_start \<le> cc_min_size config
        then Some [cdc_segment_at xxh data chunk_start (length data)]
        else
          let cp = cut_point data config chunk_start in
          if cp \<le> chunk_start then None
          else map_option (\<lambda>segs. cdc_segment_at xxh data chunk_start cp # segs)
                 (cdc_loop xxh data config cp)
      else Some [])"
  by pat_completeness auto
termination
  by (relation "measure (\<lambda>(x, data, c, s). length data - s)") auto

declare cdc_loop.simps [simp del]

definition cdc_chunk :: "(bytes \<Rightarrow> u128) \<Rightarrow> bytes \<Rightarrow> cdc_config \<Rightarrow> cdc_segment list option" where
  "cdc_chunk xxh data config =
     (if data = [] then Some []
      else if length data \<le> cc_min_size config
      then Some [\<lparr>sg_offset = 0, sg_len = length data, sg_content_hash = xxh data\<rparr>]
      else cdc_loop xxh data config 0)"

definition segment_bytes :: "bytes \<Rightarrow> cdc_segment \<Rightarrow> bytes" where
  "segment_bytes data seg = slice data (sg_offset seg) (sg_offset seg + sg_len seg)"

section \<open>The segments partition the input\<close>

fun contiguous :: "nat \<Rightarrow> cdc_segment list \<Rightarrow> nat \<Rightarrow> bool" where
  "contiguous a [] b \<longleftrightarrow> a = b"
| "contiguous a (s # ss) b \<longleftrightarrow> sg_offset s = a \<and> 0 < sg_len s \<and> contiguous (a + sg_len s) ss b"

definition segment_ok :: "(bytes \<Rightarrow> u128) \<Rightarrow> bytes \<Rightarrow> cdc_config \<Rightarrow> cdc_segment \<Rightarrow> bool" where
  "segment_ok xxh data config s \<longleftrightarrow>
     sg_content_hash s = xxh (segment_bytes data s) \<and>
     sg_len s \<le> max (cc_min_size config) (cc_max_size config) \<and>
     (sg_offset s + sg_len s = length data \<or> cc_min_size config < sg_len s \<or> sg_len s = cc_max_size config)"

lemma slice_append: "a \<le> b \<Longrightarrow> b \<le> c \<Longrightarrow> slice data a b @ slice data b c = slice data a c"
  by (auto simp: slice_def le_iff_add take_add add.commute)

lemma contiguous_bytes:
  "contiguous a segs b \<Longrightarrow> concat (map (segment_bytes data) segs) = slice data a b \<and> a \<le> b"
proof (induction segs arbitrary: a)
  case (Cons s segs)
  then show ?case using slice_append [of a "a + sg_len s" b data]
    by (force simp: segment_bytes_def)
qed (simp add: slice_def)

lemma segment_at_bytes: "a \<le> b \<Longrightarrow> segment_bytes data (cdc_segment_at x data a b) = slice data a b"
  by (simp add: segment_bytes_def cdc_segment_at_def)

lemma cdc_loop_partition:
  assumes "0 < cc_max_size config" and "chunk_start \<le> length data"
  shows "\<exists>segs. cdc_loop xxh data config chunk_start = Some segs \<and>
    contiguous chunk_start segs (length data) \<and> list_all (segment_ok xxh data config) segs"
  using assms
proof (induction xxh data config chunk_start rule: cdc_loop.induct)
  case (1 x data config s)
  let ?cp = "cut_point data config s"
  show ?case
  proof (cases "s < length data")
    case False
    then show ?thesis using 1 by (subst cdc_loop.simps) simp
  next
    case lt: True
    show ?thesis
    proof (cases "length data - s \<le> cc_min_size config")
      case True
      with lt show ?thesis by (subst cdc_loop.simps)
          (auto simp: segment_ok_def segment_at_bytes, auto simp: cdc_segment_at_def)
    next
      case False
      note b = cut_point_bounds [OF lt False [unfolded not_le]]
      have cp: "s < ?cp" "?cp \<le> length data" using b lt 1(2) by (auto simp: min_def split: if_splits)
      from 1(1) [OF lt False refl] cp 1(2) obtain segs where segs:
        "cdc_loop x data config ?cp = Some segs" "contiguous ?cp segs (length data)"
        "list_all (segment_ok x data config) segs" by auto
      have "segment_ok x data config (cdc_segment_at x data s ?cp)"
        using cp b by (auto simp: segment_ok_def segment_at_bytes, auto simp: cdc_segment_at_def min_def split: if_splits)
      then show ?thesis using segs lt False cp
        by (subst cdc_loop.simps) (simp add: Let_def, simp add: cdc_segment_at_def)
    qed
  qed
qed

lemma cdc_chunk_partition:
  assumes "0 < cc_max_size config"
  shows "\<exists>segs. cdc_chunk xxh data config = Some segs \<and>
    contiguous 0 segs (length data) \<and> list_all (segment_ok xxh data config) segs"
  using cdc_loop_partition [OF assms, of 0 data xxh]
  by (auto simp: cdc_chunk_def segment_ok_def segment_bytes_def slice_def)

text \<open>
  C33: chunking partitions the input. For every input and every configuration with a positive
  maximum size the loop terminates, the segments are contiguous, not empty and cover the
  input, their bytes in order are the input, each carries the hash of its own bytes, none is
  longer than the larger of the two bounds, and only the last may be as short as the minimum.
\<close>

theorem cdc_chunk_spec:
  assumes "0 < cc_max_size config"
  shows "\<exists>segs. cdc_chunk xxh data config = Some segs \<and> contiguous 0 segs (length data) \<and>
    concat (map (segment_bytes data) segs) = data \<and> list_all (segment_ok xxh data config) segs"
proof -
  from cdc_chunk_partition [OF assms] obtain segs where
    "cdc_chunk xxh data config = Some segs" "contiguous 0 segs (length data)"
    "list_all (segment_ok xxh data config) segs" by blast
  with contiguous_bytes [of 0 segs "length data" data] show ?thesis by (simp add: slice_def)
qed

theorem cdc_chunk_spec_witness:
  "\<exists>segs. cdc_chunk (\<lambda>bs. of_nat (length bs)) (replicate 100 7) CdcConfig_default = Some segs \<and>
     concat (map (segment_bytes (replicate 100 7)) segs) = replicate 100 7"
  using cdc_chunk_spec [of CdcConfig_default "\<lambda>bs. of_nat (length bs)" "replicate 100 7"]
  by (auto simp: CdcConfig_default_def)

section \<open>Boundaries do not depend on what comes before\<close>

lemma scan_cut_shift: "scan_cut m bs (k + i) h (k + e) = k + scan_cut m bs i h e"
proof (induction bs arbitrary: i h)
  case (Cons b bs)
  from Cons.IH [of "Suc i"] show ?case by (simp add: Let_def)
qed simp

lemma slice_shift: "slice (p @ d) (length p + a) (length p + b) = slice d a b"
  by (simp add: slice_def)

lemma cut_point_shift: "cut_point (p @ d) config (length p + s) = length p + cut_point d config s"
  unfolding cut_point_def Let_def length_append add_diff_cancel_left add.assoc
  by (simp only: scan_cut_shift slice_shift)

definition move_segment :: "nat \<Rightarrow> cdc_segment \<Rightarrow> cdc_segment" where
  "move_segment k s = s\<lparr>sg_offset := k + sg_offset s\<rparr>"

lemma segment_at_shift:
  "cdc_segment_at x (p @ d) (length p + a) (length p + b) = move_segment (length p) (cdc_segment_at x d a b)"
  by (simp add: cdc_segment_at_def move_segment_def slice_shift)

lemma cdc_loop_end: "length data \<le> s \<Longrightarrow> cdc_loop x data config s = Some []"
  by (subst cdc_loop.simps) simp

lemma cdc_loop_last: "s < length data \<Longrightarrow> length data - s \<le> cc_min_size config \<Longrightarrow>
    cdc_loop x data config s = Some [cdc_segment_at x data s (length data)]"
  by (subst cdc_loop.simps) simp

lemma cdc_loop_cut: "s < length data \<Longrightarrow> cc_min_size config < length data - s \<Longrightarrow>
    cdc_loop x data config s =
      (if cut_point data config s \<le> s then None
       else map_option ((#) (cdc_segment_at x data s (cut_point data config s)))
              (cdc_loop x data config (cut_point data config s)))"
  by (subst cdc_loop.simps) (simp add: Let_def)

lemma cdc_loop_shift:
  "cdc_loop x (p @ d) config (length p + s) = map_option (map (move_segment (length p))) (cdc_loop x d config s)"
proof (induction x d config s rule: cdc_loop.induct)
  case (1 x d config s)
  consider "length d \<le> s" | "s < length d" "length d - s \<le> cc_min_size config"
    | "s < length d" "cc_min_size config < length d - s" by linarith
  then show ?case
  proof cases
    case 1
    then show ?thesis by (simp add: cdc_loop_end)
  next
    case 2
    then show ?thesis using segment_at_shift [of x p d s "length d"] by (simp add: cdc_loop_last)
  next
    case 3
    then show ?thesis using 1
      by (simp add: cdc_loop_cut cut_point_shift segment_at_shift option.map_comp comp_def)
  qed
qed

lemma cdc_chunk_loop: "cdc_chunk x data config = cdc_loop x data config 0"
  by (auto simp: cdc_chunk_def cdc_loop_end cdc_loop_last cdc_segment_at_def slice_def)

lemma cdc_loop_rest:
  "cdc_loop x data config a = Some (xs @ ys) \<Longrightarrow> contiguous a xs b \<Longrightarrow> cdc_loop x data config b = Some ys"
proof (induction xs arbitrary: a)
  case (Cons s xs)
  show ?case
  proof (cases "length data - a \<le> cc_min_size config")
    case True
    with Cons.prems(1) have "s = cdc_segment_at x data a (length data)" "xs = []" "ys = []" "a < length data"
      by (simp_all add: cdc_loop.simps [of x data config a] split: if_splits)
    moreover from this Cons.prems(2) have "b = length data" by (simp add: cdc_segment_at_def)
    ultimately show ?thesis by (simp add: cdc_loop_end)
  next
    case False
    with Cons.prems(1) have "s = cdc_segment_at x data a (cut_point data config a)"
      "a < cut_point data config a" "cdc_loop x data config (cut_point data config a) = Some (xs @ ys)"
      by (auto simp add: cdc_loop.simps [of x data config a] Let_def split: if_splits)
    then show ?thesis using Cons.prems(2) Cons.IH [of "cut_point data config a"]
      by (simp add: cdc_segment_at_def)
  qed
qed simp

text \<open>
  C34: chunking resynchronises. When two inputs end in the same bytes \<open>t\<close> and both happen to
  have a boundary where \<open>t\<close> starts, the segments of \<open>t\<close> have the same lengths and content
  hashes in both, so every chunk of the common tail is deduplicated.
\<close>

theorem cdc_resynchronises:
  assumes "cdc_chunk xxh (a @ t) config = Some (sa @ ra)" and "contiguous 0 sa (length a)"
    and "cdc_chunk xxh (b @ t) config = Some (sb @ rb)" and "contiguous 0 sb (length b)"
  shows "map (\<lambda>s. (sg_len s, sg_content_hash s)) ra = map (\<lambda>s. (sg_len s, sg_content_hash s)) rb"
proof -
  have ra: "map_option (map (move_segment (length a))) (cdc_loop xxh t config 0) = Some ra"
    using cdc_loop_rest [OF assms(1) [unfolded cdc_chunk_loop] assms(2)] cdc_loop_shift [of xxh a t config 0]
    by simp
  have rb: "map_option (map (move_segment (length b))) (cdc_loop xxh t config 0) = Some rb"
    using cdc_loop_rest [OF assms(3) [unfolded cdc_chunk_loop] assms(4)] cdc_loop_shift [of xxh b t config 0]
    by simp
  from ra rb show ?thesis by (auto simp: move_segment_def)
qed

theorem cdc_resynchronises_witness:
  "map (\<lambda>s. (sg_len s, sg_content_hash s)) [\<lparr>sg_offset = 2, sg_len = 2, sg_content_hash = 2\<rparr>, \<lparr>sg_offset = 4, sg_len = 1, sg_content_hash = 1\<rparr>] =
   map (\<lambda>s. (sg_len s, sg_content_hash s)) [\<lparr>sg_offset = 4, sg_len = 2, sg_content_hash = 2\<rparr>, \<lparr>sg_offset = 6, sg_len = 1, sg_content_hash = 1\<rparr>]"
proof (rule cdc_resynchronises [where t = "[7, 8, 9]" and xxh = "\<lambda>bs. of_nat (length bs)"
      and config = "\<lparr>cc_min_size = 2, cc_max_size = 2, cc_target_avg = 2, cc_boundary_mask = 0\<rparr>"
      and a = "[1, 2]" and b = "[3, 4, 5, 6]"
      and sa = "[\<lparr>sg_offset = 0, sg_len = 2, sg_content_hash = 2\<rparr>]"
      and sb = "[\<lparr>sg_offset = 0, sg_len = 2, sg_content_hash = 2\<rparr>, \<lparr>sg_offset = 2, sg_len = 2, sg_content_hash = 2\<rparr>]"])
qed (simp_all add: cdc_chunk_loop cdc_loop.simps cut_point_def slice_def cdc_segment_at_def Let_def)

end
