(* ===== verification/Range_Index.thy ===== *)
theory Range_Index
  imports TPX_Prelude
begin

text \<open>
  The two read-only indexes built with the table of contents: the range filter of
  \<open>crates/tpx-index/src/surf.rs\<close> and the position index of
  \<open>crates/tpx-index/src/radix_spline.rs\<close>. Byte strings are compared as Rust compares
  slices, lexicographically by unsigned bytes, which is the list order of the library.
  \<open>binary_search\<close> is the standard library's search: the index of a match, any one if there
  are several, or the insertion point.
\<close>

section \<open>Binary search\<close>

function bsearch :: "'a::linorder list \<Rightarrow> 'a \<Rightarrow> nat \<Rightarrow> nat \<Rightarrow> nat + nat" where
  "bsearch xs k lo hi =
     (if lo < hi then
        let mid = (lo + hi) div 2 in
        if xs ! mid = k then Inr mid
        else if xs ! mid < k then bsearch xs k (mid + 1) hi
        else bsearch xs k lo mid
      else Inl lo)"
  by pat_completeness auto
termination
  by (relation "measure (\<lambda>(xs, k, lo, hi). hi - lo)") auto

declare bsearch.simps [simp del]

definition binary_search :: "'a::linorder list \<Rightarrow> 'a \<Rightarrow> nat + nat" where
  "binary_search xs k = bsearch xs k 0 (length xs)"

lemma bsearch_spec:
  assumes "sorted xs" and "lo \<le> hi" and "hi \<le> length xs"
    and "\<forall>i < lo. xs ! i < k" and "\<forall>i. hi \<le> i \<and> i < length xs \<longrightarrow> k < xs ! i"
  shows "case bsearch xs k lo hi of
      Inr i \<Rightarrow> i < length xs \<and> xs ! i = k
    | Inl i \<Rightarrow> i \<le> length xs \<and> (\<forall>j < i. xs ! j < k) \<and> (\<forall>j. i \<le> j \<and> j < length xs \<longrightarrow> k < xs ! j)"
  using assms
proof (induction xs k lo hi rule: bsearch.induct)
  case (1 xs k lo hi)
  show ?case
  proof (cases "lo < hi")
    case False
    then show ?thesis using 1(4-7) by (subst bsearch.simps) auto
  next
    case True
    let ?m = "(lo + hi) div 2"
    have m: "lo \<le> ?m" "?m < hi" "?m < length xs" using True 1(5) by simp_all
    have le: "xs ! i \<le> xs ! j" if "i \<le> j" "j < length xs" for i j
      using 1(3) that by (rule sorted_nth_mono)
    consider "xs ! ?m = k" | "xs ! ?m \<noteq> k" "xs ! ?m < k" | "xs ! ?m \<noteq> k" "\<not> xs ! ?m < k" by blast
    then show ?thesis
    proof cases
      case 1
      then show ?thesis using True m by (subst bsearch.simps) (simp add: Let_def)
    next
      case 2
      have "\<forall>i < ?m + 1. xs ! i < k"
        using le [of _ ?m] m 2(2) by (auto simp: less_Suc_eq_le intro: le_less_trans)
      with 1(1) [OF True refl 2] 1(3-7) m 2 True show ?thesis
        by (subst bsearch.simps) (simp add: Let_def)
    next
      case 3
      have "\<forall>i. ?m \<le> i \<and> i < length xs \<longrightarrow> k < xs ! i"
        using le [of ?m] 3 by (meson leI le_neq_trans less_le_trans)
      with 1(2) [OF True refl 3] 1(3-7) m 3 True show ?thesis
        by (subst bsearch.simps) (simp add: Let_def)
    qed
  qed
qed

lemma binary_search_spec:
  "sorted xs \<Longrightarrow> case binary_search xs k of
      Inr i \<Rightarrow> i < length xs \<and> xs ! i = k
    | Inl i \<Rightarrow> i \<le> length xs \<and> (\<forall>j < i. xs ! j < k) \<and> (\<forall>j. i \<le> j \<and> j < length xs \<longrightarrow> k < xs ! j)"
  unfolding binary_search_def by (rule bsearch_spec) auto

section \<open>Range filter\<close>

type_synonym surf = "bytes list"

definition Surf_default :: surf where "Surf_default = []"

definition Surf_build :: "bytes list \<Rightarrow> surf" where
  "Surf_build keys = remdups_adj (sort keys)"

definition Surf_is_empty :: "surf \<Rightarrow> bool" where "Surf_is_empty s \<longleftrightarrow> s = []"

definition Surf_len :: "surf \<Rightarrow> nat" where "Surf_len s = length s"

definition range_lookup :: "surf \<Rightarrow> bytes \<Rightarrow> bytes \<Rightarrow> bool" where
  "range_lookup s left right =
     (if s = [] then False
      else case binary_search s left of
        Inr _ \<Rightarrow> True
      | Inl idx \<Rightarrow> if idx < length s then s ! idx \<le> right else False)"

definition approx_mem_usage :: "surf \<Rightarrow> nat" where
  "approx_mem_usage s = sum_list (map length s) + length s * 24"

lemma sorted_Surf_build: "sorted (Surf_build keys)"
  unfolding Surf_build_def by (rule sorted_remdups_adj) simp

lemma set_Surf_build [simp]: "set (Surf_build keys) = set keys"
  by (simp add: Surf_build_def)

lemma range_lookup_sorted:
  assumes "sorted s"
  shows "range_lookup s left right \<longleftrightarrow> left \<in> set s \<or> (\<exists>k \<in> set s. left \<le> k \<and> k \<le> right)"
proof (cases "binary_search s left")
  case (Inr i)
  with binary_search_spec [OF assms, of left] have "left \<in> set s" by (auto simp: in_set_conv_nth)
  then show ?thesis using Inr by (auto simp: range_lookup_def)
next
  case (Inl i)
  with binary_search_spec [OF assms, of left] have i: "i \<le> length s" "\<forall>j < i. s ! j < left"
    "\<forall>j. i \<le> j \<and> j < length s \<longrightarrow> left < s ! j" by simp_all
  have "left \<notin> set s"
  proof
    assume "left \<in> set s"
    then obtain j where "j < length s" "s ! j = left" by (auto simp: in_set_conv_nth)
    then show False using i by (metis less_irrefl leI)
  qed
  moreover have "(\<exists>k \<in> set s. left \<le> k \<and> k \<le> right) \<longleftrightarrow> i < length s \<and> s ! i \<le> right"
  proof
    assume "\<exists>k \<in> set s. left \<le> k \<and> k \<le> right"
    then obtain j where j: "j < length s" "left \<le> s ! j" "s ! j \<le> right" by (auto simp: in_set_conv_nth)
    then have "i \<le> j" using i(2) by (meson leD leI)
    then show "i < length s \<and> s ! i \<le> right"
      using j sorted_nth_mono [OF assms, of i j] by auto
  next
    assume "i < length s \<and> s ! i \<le> right"
    then show "\<exists>k \<in> set s. left \<le> k \<and> k \<le> right" using i(3) by (intro bexI [of _ "s ! i"]) auto
  qed
  ultimately show ?thesis using Inl i(1) by (auto simp: range_lookup_def)
qed

text \<open>
  The range filter is exact on proper ranges, so in particular it never answers no for a
  range that contains a key; on an inverted range it answers whether the left end is a key.
\<close>

lemma range_lookup_exact:
  "range_lookup (Surf_build keys) left right \<longleftrightarrow>
     (if left \<le> right then \<exists>k \<in> set keys. left \<le> k \<and> k \<le> right else left \<in> set keys)"
  using range_lookup_sorted [OF sorted_Surf_build, of keys left right] by auto

section \<open>Position index\<close>

record radix_spline =
  rs_keys :: "u64 list"
  rs_positions :: "u32 list"

definition RadixSpline_default :: radix_spline where
  "RadixSpline_default = \<lparr>rs_keys = [], rs_positions = []\<rparr>"

definition RadixSpline_build :: "u64 list \<Rightarrow> u32 list \<Rightarrow> radix_spline" where
  "RadixSpline_build sorted_keys positions = \<lparr>rs_keys = sorted_keys, rs_positions = positions\<rparr>"

fun run_lower :: "u64 list \<Rightarrow> u64 \<Rightarrow> nat \<Rightarrow> nat" where
  "run_lower keys key 0 = 0"
| "run_lower keys key (Suc i) = (if keys ! i = key then run_lower keys key i else Suc i)"

function run_upper :: "u64 list \<Rightarrow> u64 \<Rightarrow> nat \<Rightarrow> nat" where
  "run_upper keys key i =
     (if i + 1 < length keys \<and> keys ! (i + 1) = key then run_upper keys key (i + 1) else i)"
  by pat_completeness auto
termination
  by (relation "measure (\<lambda>(ks, k, i). length ks - i)") auto

declare run_upper.simps [simp del]

definition RadixSpline_lookup :: "radix_spline \<Rightarrow> u64 \<Rightarrow> u32 \<times> u32" where
  "RadixSpline_lookup r key =
     (if rs_keys r = [] then (0, 0)
      else case binary_search (rs_keys r) key of
        Inr idx \<Rightarrow> (rs_positions r ! run_lower (rs_keys r) key idx,
                    rs_positions r ! run_upper (rs_keys r) key idx)
      | Inl idx \<Rightarrow>
          (if idx > 0 then rs_positions r ! (idx - 1) else 0,
           if idx < length (rs_positions r) then rs_positions r ! idx
           else if rs_positions r = [] then 0 else last (rs_positions r)))"

lemma run_lower_spec:
  assumes "sorted keys" "i < length keys" "keys ! i = key"
  shows "run_lower keys key i \<le> i \<and> keys ! run_lower keys key i = key \<and>
    (\<forall>j < run_lower keys key i. keys ! j < key)"
  using assms(2,3)
proof (induction i)
  case (Suc i)
  show ?case
  proof (cases "keys ! i = key")
    case True
    then show ?thesis using Suc by (simp add: le_Suc_eq)
  next
    case False
    have "keys ! j < key" if "j < Suc i" for j
    proof -
      have "keys ! j \<le> keys ! i" "keys ! i \<le> key"
        using that Suc.prems sorted_nth_mono [OF assms(1)] by auto
      with False show ?thesis by auto
    qed
    then show ?thesis using False Suc.prems by simp
  qed
qed simp

lemma run_upper_spec:
  assumes "i < length keys" "keys ! i = key" "sorted keys"
  shows "i \<le> run_upper keys key i \<and> run_upper keys key i < length keys \<and>
    keys ! run_upper keys key i = key \<and>
    (\<forall>j. run_upper keys key i < j \<and> j < length keys \<longrightarrow> key < keys ! j)"
  using assms
proof (induction keys key i rule: run_upper.induct)
  case (1 keys key i)
  show ?case
  proof (cases "i + 1 < length keys \<and> keys ! (i + 1) = key")
    case True
    with 1 show ?thesis by (subst (1 2 3 4) run_upper.simps) auto
  next
    case False
    have "key < keys ! j" if "i < j" "j < length keys" for j
    proof -
      have "key \<le> keys ! (i + 1)" "keys ! (i + 1) \<le> keys ! j"
        using that 1(2-4) sorted_nth_mono [OF 1(4)] by auto
      moreover have "keys ! (i + 1) \<noteq> key" using False that by simp
      ultimately show ?thesis by simp
    qed
    then show ?thesis using False 1(2,3) by (subst (1 2 3 4) run_upper.simps) auto
  qed
qed

text \<open>
  The position index. For sorted hashes, looking up a present hash returns the positions
  of the first and the last of the entries with that hash (the run \<open>lo..hi\<close> contains all of
  them and nothing else); a hash that is absent is bracketed by its two neighbours, with
  position 0 below the first and the last position above the last.
\<close>

lemma RadixSpline_lookup_spec:
  assumes "sorted keys" and "length positions = length keys" and "keys \<noteq> []"
  shows "\<exists>lo hi. RadixSpline_lookup (RadixSpline_build keys positions) key =
       (if key \<in> set keys then (positions ! lo, positions ! hi)
        else (if lo = 0 then 0 else positions ! (lo - 1),
              if lo < length keys then positions ! lo else last positions)) \<and>
     (if key \<in> set keys
      then lo \<le> hi \<and> hi < length keys \<and> (\<forall>i < length keys. keys ! i = key \<longleftrightarrow> lo \<le> i \<and> i \<le> hi)
      else lo \<le> length keys \<and> (\<forall>i < length keys. if i < lo then keys ! i < key else key < keys ! i))"
proof (cases "binary_search keys key")
  case (Inr i)
  with binary_search_spec [OF assms(1), of key] have i: "i < length keys" "keys ! i = key" by simp_all
  let ?lo = "run_lower keys key i" and ?hi = "run_upper keys key i"
  note lo = run_lower_spec [OF assms(1) i] and hi = run_upper_spec [OF i assms(1)]
  have "keys ! j = key \<longleftrightarrow> ?lo \<le> j \<and> j \<le> ?hi" if "j < length keys" for j
  proof
    assume "keys ! j = key"
    then show "?lo \<le> j \<and> j \<le> ?hi" using lo hi that by (metis leI less_irrefl)
  next
    assume j: "?lo \<le> j \<and> j \<le> ?hi"
    have "keys ! ?lo \<le> keys ! j" by (rule sorted_nth_mono [OF assms(1)]) (use j that in simp_all)
    moreover have "keys ! j \<le> keys ! ?hi" by (rule sorted_nth_mono [OF assms(1)]) (use j hi in simp_all)
    ultimately show "keys ! j = key" using lo hi by simp
  qed
  moreover have "key \<in> set keys" using i by auto
  ultimately show ?thesis using lo hi assms(3) Inr
    by (intro exI [of _ ?lo] exI [of _ ?hi]) (auto simp: RadixSpline_lookup_def RadixSpline_build_def)
next
  case (Inl i)
  with binary_search_spec [OF assms(1), of key] have i: "i \<le> length keys" "\<forall>j < i. keys ! j < key"
    "\<forall>j. i \<le> j \<and> j < length keys \<longrightarrow> key < keys ! j" by simp_all
  have "key \<notin> set keys"
  proof
    assume "key \<in> set keys"
    then obtain j where "j < length keys" "keys ! j = key" by (auto simp: in_set_conv_nth)
    then show False using i by (metis less_irrefl leI)
  qed
  moreover have "positions \<noteq> []" using assms by auto
  ultimately show ?thesis using i assms Inl
    by (intro exI [of _ i]) (auto simp: RadixSpline_lookup_def RadixSpline_build_def)
qed

lemma RadixSpline_lookup_spec_witness:
  "\<exists>lo hi. RadixSpline_lookup (RadixSpline_build [3, 5, 5, 9] [7, 1, 4, 2]) 5 =
     ([7, 1, 4, 2] ! lo, [7, 1, 4, 2] ! hi) \<and> lo \<le> hi"
  using RadixSpline_lookup_spec [of "[3, 5, 5, 9]" "[7, 1, 4, 2]" 5] by auto

end
