(* ===== verification/Key_Map.thy ===== *)
theory Key_Map
  imports TPX_Prelude
begin

text \<open>
  The contract of a keyed store: a lookup after a write or a removal. The attribute map, the
  table of contents and the radix tree of a shard each interpret it, and inherit that a
  lookup after any sequence of operations answers the last one on its key.
\<close>

datatype ('k, 'v) key_op = Put 'k 'v | Del 'k

text \<open>The outcome of a sequence of operations for one key, starting from \<open>r\<close>.\<close>

fun last_write :: "('k, 'v) key_op list \<Rightarrow> 'k \<Rightarrow> 'v option \<Rightarrow> 'v option" where
  "last_write [] key r = r"
| "last_write (Put k v # ops) key r = last_write ops key (if k = key then Some v else r)"
| "last_write (Del k # ops) key r = last_write ops key (if k = key then None else r)"

lemma last_write_append: "last_write (xs @ ys) key r = last_write ys key (last_write xs key r)"
  by (induction xs key r rule: last_write.induct) simp_all

locale key_map =
  fixes inv :: "'m \<Rightarrow> bool"
    and get :: "'m \<Rightarrow> 'k \<Rightarrow> 'v option"
    and put :: "'k \<Rightarrow> 'v \<Rightarrow> 'm \<Rightarrow> 'm"
    and del :: "'k \<Rightarrow> 'm \<Rightarrow> 'm"
    and valid :: "'k \<Rightarrow> 'v \<Rightarrow> bool"
  assumes inv_put: "inv m \<Longrightarrow> valid k v \<Longrightarrow> inv (put k v m)"
    and inv_del: "inv m \<Longrightarrow> inv (del k m)"
    and get_put: "inv m \<Longrightarrow> valid k v \<Longrightarrow> get (put k v m) j = (if j = k then Some v else get m j)"
    and get_del: "inv m \<Longrightarrow> get (del k m) j = (if j = k then None else get m j)"
begin

fun key_step :: "('k, 'v) key_op \<Rightarrow> 'm \<Rightarrow> 'm" where
  "key_step (Put k v) m = put k v m"
| "key_step (Del k) m = del k m"

fun valid_op :: "('k, 'v) key_op \<Rightarrow> bool" where
  "valid_op (Put k v) = valid k v"
| "valid_op (Del k) = True"

lemma inv_steps: "inv m \<Longrightarrow> list_all valid_op ops \<Longrightarrow> inv (fold key_step ops m)"
proof (induction ops arbitrary: m)
  case (Cons op ops)
  then show ?case by (cases op) (simp_all add: inv_put inv_del)
qed simp

lemma get_steps:
  "inv m \<Longrightarrow> list_all valid_op ops \<Longrightarrow> get (fold key_step ops m) key = last_write ops key (get m key)"
proof (induction ops arbitrary: m)
  case (Cons op ops)
  then show ?case by (cases op) (simp_all add: inv_put inv_del get_put get_del)
qed simp

lemma put_twice: "inv m \<Longrightarrow> valid k v \<Longrightarrow> valid k w \<Longrightarrow> get (put k w (put k v m)) = get (put k w m)"
  by (rule ext) (simp add: inv_put get_put)

end

end
