(* ===== verification/Toc.thy ===== *)
theory Toc
  imports Attrs Range_Index Key_Map
begin

text \<open>
  The table of contents, \<open>crates/tpx-index/src/toc.rs\<close>: its entries in the order they were
  written, and the indexes over them. Only the last entry of a key is current; deletion
  marks every entry of the key. The key hash is the function \<open>xxh64\<close> of the \<open>xxhash-rust\<close>
  crate, a parameter. \<open>HashSet\<close>s of seen keys are sets.
\<close>

record toc_entry =
  te_key_hash :: u64
  te_key :: bytes
  te_dtype_id :: DTypeId
  te_shape :: "u32 list"
  te_attrs :: "(bytes \<times> AttrValue) list"
  te_chunk_refs :: "chunk_ref list"
  te_tombstone :: u8

type_synonym hash64 = "bytes \<Rightarrow> u64 \<Rightarrow> u64"

definition TocEntry_new ::
  "hash64 \<Rightarrow> bytes \<Rightarrow> DTypeId \<Rightarrow> u32 list \<Rightarrow> (bytes \<times> AttrValue) list \<Rightarrow> chunk_ref list \<Rightarrow> toc_entry" where
  "TocEntry_new xxh64 key dtype_id shape attrs chunk_refs =
     \<lparr>te_key_hash = xxh64 key 0, te_key = key, te_dtype_id = dtype_id, te_shape = shape,
      te_attrs = attrs, te_chunk_refs = chunk_refs, te_tombstone = 0\<rparr>"

record toc =
  toc_entries :: "toc_entry list"
  toc_surf :: surf
  toc_radix_spline :: radix_spline
  toc_hash_index :: "(u64, u32) hash_map"

definition Toc_new :: toc where
  "Toc_new = \<lparr>toc_entries = [], toc_surf = Surf_default, toc_radix_spline = RadixSpline_default,
     toc_hash_index = []\<rparr>"

definition Toc_build :: "toc_entry list \<Rightarrow> toc" where
  "Toc_build entries =
     (let indexed = zip entries [0..<length entries];
          hash_index = fold (\<lambda>(e, idx) m. AList.update (te_key_hash e) (of_nat idx) m) indexed [];
          sorted_pairs = sort_key fst (map (\<lambda>(e, idx). (te_key_hash e, of_nat idx)) indexed) in
      \<lparr>toc_entries = entries,
       toc_surf = Surf_build (map te_key entries),
       toc_radix_spline = RadixSpline_build (map fst sorted_pairs) (map snd sorted_pairs),
       toc_hash_index = hash_index\<rparr>)"

definition Toc_entry_count :: "toc \<Rightarrow> nat" where
  "Toc_entry_count t = length (toc_entries t)"

definition Toc_lookup :: "hash64 \<Rightarrow> toc \<Rightarrow> bytes \<Rightarrow> toc_entry option" where
  "Toc_lookup xxh64 t key =
     (case map_of (toc_hash_index t) (xxh64 key 0) of
        None \<Rightarrow> None
      | Some idx \<Rightarrow>
          if unat idx < length (toc_entries t) then
            (let entry = toc_entries t ! unat idx in
             if te_key entry = key \<and> te_tombstone entry = 0 then Some entry else None)
          else None)"

definition starts_with :: "bytes \<Rightarrow> bytes \<Rightarrow> bool" where
  "starts_with s p \<longleftrightarrow> take (length p) s = p"

fun prefix_scan :: "bytes \<Rightarrow> bytes set \<Rightarrow> toc_entry list \<Rightarrow> toc_entry list" where
  "prefix_scan pre seen [] = []"
| "prefix_scan pre seen (e # es) =
     (if starts_with (te_key e) pre \<and> te_key e \<notin> seen
      then (if te_tombstone e = 0 then [e] else []) @ prefix_scan pre (insert (te_key e) seen) es
      else prefix_scan pre seen es)"

definition Toc_lookup_prefix :: "toc \<Rightarrow> bytes \<Rightarrow> toc_entry list" where
  "Toc_lookup_prefix t pre = prefix_scan pre {} (rev (toc_entries t))"

definition Toc_add_entry :: "toc \<Rightarrow> toc_entry \<Rightarrow> toc" where
  "Toc_add_entry t entry =
     t\<lparr>toc_hash_index := AList.update (te_key_hash entry) (of_nat (length (toc_entries t))) (toc_hash_index t),
       toc_entries := toc_entries t @ [entry]\<rparr>"

definition Toc_tombstone :: "toc \<Rightarrow> bytes \<Rightarrow> toc" where
  "Toc_tombstone t key =
     t\<lparr>toc_entries := map (\<lambda>e. if te_key e = key then e\<lparr>te_tombstone := 1\<rparr> else e) (toc_entries t)\<rparr>"

section \<open>The current entry of a key\<close>

definition latest :: "toc_entry list \<Rightarrow> bytes \<Rightarrow> toc_entry option" where
  "latest es key = find (\<lambda>e. te_key e = key) (rev es)"

definition live :: "toc_entry list \<Rightarrow> bytes \<Rightarrow> toc_entry option" where
  "live es key = (case latest es key of Some e \<Rightarrow> if te_tombstone e = 0 then Some e else None | None \<Rightarrow> None)"

lemma latest_Nil [simp]: "latest [] k = None"
  by (simp add: latest_def)

lemma latest_append [simp]: "latest (es @ [e]) k = (if te_key e = k then Some e else latest es k)"
  by (simp add: latest_def)

lemma latest_key: "latest es k = Some e \<Longrightarrow> te_key e = k \<and> e \<in> set es"
  unfolding latest_def by (metis (mono_tags, lifting) find_Some_iff nth_mem set_rev)

lemma latest_None: "latest es k = None \<longleftrightarrow> k \<notin> te_key ` set es"
  by (auto simp: latest_def find_None_iff)

lemma live_append [simp]: "live (es @ [e]) k =
    (if te_key e = k then (if te_tombstone e = 0 then Some e else None) else live es k)"
  by (simp add: live_def)

lemma live_key: "live es k = Some e \<Longrightarrow> te_key e = k \<and> te_tombstone e = 0 \<and> e \<in> set es"
  by (auto simp: live_def latest_key split: option.splits if_splits)

definition mark :: "bytes \<Rightarrow> toc_entry \<Rightarrow> toc_entry" where
  "mark key e = (if te_key e = key then e\<lparr>te_tombstone := 1\<rparr> else e)"

lemma latest_mark: "latest (map (mark key) es) k = map_option (mark key) (latest es k)"
  by (induction es rule: rev_induct) (auto simp: mark_def)

lemma live_mark: "live (map (mark key) es) k = (if k = key then None else live es k)"
  by (auto simp: live_def latest_mark mark_def dest: latest_key split: option.splits)

section \<open>The invariant of the hash index\<close>

definition hashed :: "hash64 \<Rightarrow> toc_entry list \<Rightarrow> bool" where
  "hashed xxh64 es \<longleftrightarrow> (\<forall>e \<in> set es. te_key_hash e = xxh64 (te_key e) 0)"

lemma hashed_append [simp]: "hashed x (es @ [e]) \<longleftrightarrow> hashed x es \<and> te_key_hash e = x (te_key e) 0"
  by (auto simp: hashed_def)

lemma hashed_Nil [simp]: "hashed x []"
  by (simp add: hashed_def)

lemma mark_fields [simp]:
  "te_key (mark k e) = te_key e" "te_key_hash (mark k e) = te_key_hash e"
  "te_chunk_refs (mark k e) = te_chunk_refs e" "te_shape (mark k e) = te_shape e"
  "te_dtype_id (mark k e) = te_dtype_id e" "te_attrs (mark k e) = te_attrs e"
  by (simp_all add: mark_def)

lemma hashed_mark [simp]: "hashed x (map (mark k) es) = hashed x es"
  by (simp add: hashed_def)

lemma te_key_new [simp]:
  "te_key (TocEntry_new x k d s a c) = k" "te_key_hash (TocEntry_new x k d s a c) = x k 0"
  "te_tombstone (TocEntry_new x k d s a c) = 0" "te_dtype_id (TocEntry_new x k d s a c) = d"
  "te_shape (TocEntry_new x k d s a c) = s" "te_attrs (TocEntry_new x k d s a c) = a"
  "te_chunk_refs (TocEntry_new x k d s a c) = c"
  by (simp_all add: TocEntry_new_def)

text \<open>The index holds, for every hash, the position of the last entry with that hash.\<close>

definition last_pos :: "toc_entry list \<Rightarrow> u64 \<Rightarrow> nat option" where
  "last_pos es h = find (\<lambda>i. te_key_hash (es ! i) = h) (rev [0..<length es])"

lemma last_pos_Nil [simp]: "last_pos [] h = None"
  by (simp add: last_pos_def)

lemma last_pos_append [simp]:
  "last_pos (es @ [e]) h = (if te_key_hash e = h then Some (length es) else last_pos es h)"
proof -
  have "find (\<lambda>i. te_key_hash ((es @ [e]) ! i) = h) (rev [0..<length es]) = last_pos es h"
    unfolding last_pos_def by (rule find_cong) (simp_all add: nth_append)
  then show ?thesis by (simp add: last_pos_def)
qed

lemma last_pos_less: "last_pos es h = Some i \<Longrightarrow> i < length es"
  unfolding last_pos_def
  by (metis (mono_tags, lifting) atLeastLessThan_iff find_Some_iff nth_mem set_rev set_upt)

definition index_ok :: "toc \<Rightarrow> bool" where
  "index_ok t \<longleftrightarrow> (\<forall>h. map_of (toc_hash_index t) h = map_option of_nat (last_pos (toc_entries t) h))"

lemma index_ok_new [simp]: "index_ok Toc_new"
  by (simp add: index_ok_def Toc_new_def)

lemma index_ok_add: "index_ok t \<Longrightarrow> index_ok (Toc_add_entry t e)"
  by (simp add: index_ok_def Toc_add_entry_def update_conv')

lemma toc_entries_add [simp]: "toc_entries (Toc_add_entry t e) = toc_entries t @ [e]"
  by (simp add: Toc_add_entry_def)

lemma Toc_tombstone_mark: "Toc_tombstone t k = t\<lparr>toc_entries := map (mark k) (toc_entries t)\<rparr>"
  by (simp add: Toc_tombstone_def mark_def [abs_def])

lemma toc_entries_tombstone [simp]: "toc_entries (Toc_tombstone t k) = map (mark k) (toc_entries t)"
  by (simp add: Toc_tombstone_mark)

lemma last_pos_mark: "last_pos (map (mark k) es) h = last_pos es h"
  by (induction es rule: rev_induct) simp_all

lemma index_ok_tombstone: "index_ok t \<Longrightarrow> index_ok (Toc_tombstone t k)"
  by (simp add: index_ok_def Toc_tombstone_mark last_pos_mark)

lemma build_index:
  "map_of (fold (\<lambda>(e, idx) m. AList.update (te_key_hash e) (of_nat idx :: u32) m) (zip es [0..<length es]) []) h
     = map_option of_nat (last_pos es h)"
proof (induction es rule: rev_induct)
  case (snoc e es)
  have "zip (es @ [e]) [0..<length (es @ [e])] = zip es [0..<length es] @ [(e, length es)]" by simp
  with snoc show ?case by (simp add: update_conv' del: upt_Suc)
qed simp

lemma index_ok_build: "index_ok (Toc_build es)"
  unfolding index_ok_def Toc_build_def Let_def using build_index by simp

lemma toc_entries_build [simp]: "toc_entries (Toc_build es) = es"
  by (simp add: Toc_build_def Let_def)

lemma toc_entries_new [simp]: "toc_entries Toc_new = []"
  by (simp add: Toc_new_def)

section \<open>Point lookups\<close>

definition no_collision :: "hash64 \<Rightarrow> toc_entry list \<Rightarrow> bytes \<Rightarrow> bool" where
  "no_collision xxh64 es key \<longleftrightarrow> (\<forall>e \<in> set es. xxh64 (te_key e) 0 = xxh64 key 0 \<longrightarrow> te_key e = key)"

lemma latest_last_pos:
  assumes "hashed x es" and "no_collision x es key"
  shows "latest es key = map_option ((!) es) (last_pos es (x key 0))"
  using assms
proof (induction es rule: rev_induct)
  case (snoc e es)
  have "map_option ((!) (es @ [e])) (last_pos es (x key 0)) = map_option ((!) es) (last_pos es (x key 0))"
    by (cases "last_pos es (x key 0)") (auto dest: last_pos_less simp: nth_append)
  with snoc show ?case by (auto simp: no_collision_def)
qed simp

lemma Toc_lookup_live:
  assumes "index_ok t" and "hashed x (toc_entries t)" and "no_collision x (toc_entries t) key"
    and "length (toc_entries t) \<le> 2 ^ 32"
  shows "Toc_lookup x t key = live (toc_entries t) key"
proof (cases "last_pos (toc_entries t) (x key 0)")
  case None
  then show ?thesis using assms(1) latest_last_pos [OF assms(2,3)]
    by (simp add: Toc_lookup_def index_ok_def live_def)
next
  case (Some i)
  then have "i < length (toc_entries t)" by (rule last_pos_less)
  moreover from this have "unat (of_nat i :: u32) = i" using assms(4) by (simp add: unat_of_nat)
  ultimately show ?thesis using assms(1) latest_last_pos [OF assms(2,3)] latest_key [of "toc_entries t" key] Some
    by (simp add: Toc_lookup_def index_ok_def live_def Let_def)
qed

datatype toc_op = AddEntry toc_entry | Tombstone bytes

fun toc_step :: "toc_op \<Rightarrow> toc \<Rightarrow> toc" where
  "toc_step (AddEntry e) t = Toc_add_entry t e"
| "toc_step (Tombstone k) t = Toc_tombstone t k"

lemma toc_steps:
  "index_ok t \<Longrightarrow> index_ok (fold toc_step ops t)"
proof (induction ops arbitrary: t)
  case (Cons op ops)
  then show ?case by (cases op) (simp_all add: index_ok_add index_ok_tombstone)
qed simp

definition op_ok :: "hash64 \<Rightarrow> toc_op \<Rightarrow> bool" where
  "op_ok x op \<longleftrightarrow> (case op of AddEntry e \<Rightarrow> te_key_hash e = x (te_key e) 0 \<and> te_tombstone e = 0 | Tombstone k \<Rightarrow> True)"

lemma hashed_steps:
  "hashed x (toc_entries t) \<Longrightarrow> list_all (op_ok x) ops \<Longrightarrow> hashed x (toc_entries (fold toc_step ops t))"
proof (induction ops arbitrary: t)
  case (Cons op ops)
  then show ?case by (cases op) (simp_all add: op_ok_def)
qed simp

text \<open>A table as a keyed store whose values are its live entries.\<close>

interpretation toc_map: key_map "\<lambda>t. index_ok t" "\<lambda>t. live (toc_entries t)"
  "\<lambda>k e t. Toc_add_entry t e" "\<lambda>k t. Toc_tombstone t k" "\<lambda>k e. te_key e = k \<and> te_tombstone e = 0"
  by unfold_locales (auto simp: index_ok_add index_ok_tombstone live_mark)

fun op_of :: "toc_op \<Rightarrow> (bytes, toc_entry) key_op" where
  "op_of (AddEntry e) = Put (te_key e) e"
| "op_of (Tombstone k) = Del k"

lemma toc_step_key_step: "toc_map.key_step (op_of op) = toc_step op"
  by (cases op) auto

lemma Toc_lookup_last_write:
  fixes es ops
  defines "t \<equiv> fold toc_step ops (Toc_build es)"
  assumes "hashed xxh es" and "list_all (op_ok xxh) ops"
    and "no_collision xxh (toc_entries t) key" and "length (toc_entries t) \<le> 2 ^ 32"
  shows "Toc_lookup xxh t key = last_write (map op_of ops) key (live es key)"
proof -
  have "Toc_lookup xxh t key = live (toc_entries t) key"
    using assms toc_steps [OF index_ok_build [of es], of ops] hashed_steps [of xxh "Toc_build es" ops]
    by (intro Toc_lookup_live) (simp_all add: op_ok_def)
  moreover have "t = fold toc_map.key_step (map op_of ops) (Toc_build es)"
    unfolding t_def fold_map comp_def toc_step_key_step ..
  moreover have "list_all toc_map.valid_op (map op_of ops)"
    using assms(3) by (auto simp: list_all_iff op_ok_def split: toc_op.splits) (case_tac x; simp)
  ultimately show ?thesis
    using toc_map.get_steps [OF index_ok_build, of "map op_of ops" es key] by simp
qed

text \<open>
  C26: point lookups. After any sequence of additions and deletions on a table built from any
  entries, looking a key up through the hash index answers the last addition of the key, or
  nothing if the last operation on the key was a deletion, or what the initial entries had
  for it, provided no other key in the table has the same 64-bit hash and the table has at
  most 2^32 entries.
\<close>

theorem Toc_lookup_correct:
  fixes es ops
  defines "t \<equiv> fold toc_step ops (Toc_build es)"
  assumes "hashed xxh es" and "list_all (op_ok xxh) ops"
    and "no_collision xxh (toc_entries t) key" and "length (toc_entries t) \<le> 2 ^ 32"
  shows "Toc_lookup xxh t key = last_write (map op_of ops) key (live es key)"
  using Toc_lookup_last_write [OF assms(2-5) [unfolded t_def]] unfolding t_def .

theorem Toc_lookup_correct_witness:
  "(let mk = \<lambda>k. TocEntry_new (\<lambda>bs s. of_nat (length bs) + s) k Float32 [] [] [];
        t = fold toc_step [Tombstone [1], AddEntry (mk [1, 2])] (Toc_build [mk [1]])
    in Toc_lookup (\<lambda>bs s. of_nat (length bs) + s) t [1, 2] = Some (mk [1, 2]))"
proof -
  let ?x = "\<lambda>bs s. of_nat (length bs) + s :: u64"
  let ?mk = "\<lambda>k. TocEntry_new ?x k Float32 [] [] []"
  show ?thesis
    using Toc_lookup_correct [of ?x "[?mk [1]]" "[Tombstone [1], AddEntry (?mk [1, 2])]" "[1, 2]"]
    by (simp add: hashed_def op_ok_def no_collision_def mark_def)
qed

section \<open>Prefix scans\<close>

lemma prefix_scan_spec:
  "e \<in> set (prefix_scan pre seen es) \<longleftrightarrow>
     starts_with (te_key e) pre \<and> te_key e \<notin> seen \<and> te_tombstone e = 0 \<and>
     find (\<lambda>e'. te_key e' = te_key e) es = Some e"
proof (induction es arbitrary: seen)
  case (Cons a es)
  then show ?case by (auto split: if_splits)
qed simp

lemma prefix_scan_distinct:
  "distinct (map te_key (prefix_scan pre seen es)) \<and> te_key ` set (prefix_scan pre seen es) \<inter> seen = {}"
proof (induction es arbitrary: seen)
  case (Cons a es)
  from Cons [of "insert (te_key a) seen"] Cons [of seen] show ?case by auto
qed simp

text \<open>
  C27: prefix scans agree with point lookups: the scan lists no key twice, and it lists an
  entry exactly when the entry's key has the prefix and the entry is the live one of its key.
\<close>

theorem Toc_lookup_prefix_spec:
  "distinct (map te_key (Toc_lookup_prefix t pre)) \<and>
   (e \<in> set (Toc_lookup_prefix t pre) \<longleftrightarrow>
      starts_with (te_key e) pre \<and> live (toc_entries t) (te_key e) = Some e)"
  using prefix_scan_distinct [of pre "{}" "rev (toc_entries t)"]
  by (auto simp: Toc_lookup_prefix_def prefix_scan_spec live_def latest_def split: option.splits if_splits)

section \<open>The range filter\<close>

lemma toc_surf_steps: "toc_surf (fold toc_step ops t) = toc_surf t"
proof (induction ops arbitrary: t)
  case (Cons op ops)
  then show ?case by (cases op) (simp_all add: Toc_add_entry_def Toc_tombstone_def)
qed simp

lemma toc_surf_build: "left \<le> right \<Longrightarrow>
    range_lookup (toc_surf (Toc_build es)) left right \<longleftrightarrow> (\<exists>k \<in> te_key ` set es. left \<le> k \<and> k \<le> right)"
  by (simp add: Toc_build_def Let_def range_lookup_exact)

text \<open>
  C28: the range filter of a table. However a table built from entries is changed afterwards,
  its filter goes on answering exactly for the keys it was built from: a proper range is
  confirmed iff one of these keys lies in it. So no key of the built table is ever denied,
  and a deleted one is still confirmed. But the table is searched for more than that: a point
  lookup answers the last change of a key, and every key that it finds and that was not in
  the built table, that is, every key that came with \<open>add_entry\<close>, is denied by the filter.
\<close>

theorem Toc_filter_built_keys:
  fixes es ops
  defines "t \<equiv> fold toc_step ops (Toc_build es)"
  assumes "hashed xxh es" and "list_all (op_ok xxh) ops"
    and "no_collision xxh (toc_entries t) key" and "length (toc_entries t) \<le> 2 ^ 32"
    and "left \<le> right"
  shows "(range_lookup (toc_surf t) left right \<longleftrightarrow> (\<exists>k \<in> te_key ` set es. left \<le> k \<and> k \<le> right)) \<and>
    Toc_lookup xxh t key = last_write (map op_of ops) key (live es key) \<and>
    (key \<in> te_key ` set es \<longrightarrow> range_lookup (toc_surf t) key key) \<and>
    (Toc_lookup xxh t key \<noteq> None \<and> key \<notin> te_key ` set es \<longrightarrow> \<not> range_lookup (toc_surf t) key key)"
proof -
  have surf: "toc_surf t = toc_surf (Toc_build es)" by (simp add: t_def toc_surf_steps)
  have "range_lookup (toc_surf t) key key \<longleftrightarrow> key \<in> te_key ` set es"
    unfolding surf by (subst toc_surf_build) (auto intro: order_antisym)
  then show ?thesis
    using toc_surf_build [OF assms(6), of es] Toc_lookup_last_write [OF assms(2-5) [unfolded t_def]]
    unfolding surf t_def [symmetric] by (intro conjI) simp_all
qed

theorem Toc_filter_built_keys_witness:
  "(let mk = \<lambda>k. TocEntry_new (\<lambda>bs s. of_nat (length bs) + s) k Float32 [] [] [];
        t = fold toc_step [AddEntry (mk [1, 2]), Tombstone [1]] (Toc_build [mk [1]])
    in Toc_lookup (\<lambda>bs s. of_nat (length bs) + s) t [1, 2] = Some (mk [1, 2]) \<and>
       \<not> range_lookup (toc_surf t) [1, 2] [1, 2] \<and> range_lookup (toc_surf t) [0] [1])"
proof -
  let ?x = "\<lambda>bs s. of_nat (length bs) + s :: u64"
  let ?mk = "\<lambda>k. TocEntry_new ?x k Float32 [] [] []"
  let ?t = "fold toc_step [AddEntry (?mk [1, 2]), Tombstone [1]] (Toc_build [?mk [1]])"
  have h: "hashed ?x [?mk [1]]" "list_all (op_ok ?x) [AddEntry (?mk [1, 2]), Tombstone [1]]"
    "no_collision ?x (toc_entries ?t) [1, 2]" "length (toc_entries ?t) \<le> 2 ^ 32"
    by (simp_all add: hashed_def op_ok_def no_collision_def mark_def)
  have le: "[0] \<le> [1 :: u8]" by simp
  have keys: "te_key ` set [?mk [1]] = {[1]}" by simp
  have lw: "last_write (map op_of [AddEntry (?mk [1, 2]), Tombstone [1]]) [1, 2] (live [?mk [1]] [1, 2]) = Some (?mk [1, 2])"
    by simp
  note claim = Toc_filter_built_keys [OF h le, unfolded keys lw]
  then have "Toc_lookup ?x ?t [1, 2] = Some (?mk [1, 2])" by blast
  moreover from this claim have "\<not> range_lookup (toc_surf ?t) [1, 2] [1, 2]" by simp
  moreover from claim le have "range_lookup (toc_surf ?t) [0] [1]" by blast
  ultimately show ?thesis unfolding Let_def by blast
qed

end
