(* ===== verification/Toc_Format.thy ===== *)
theory Toc_Format
  imports Toc
begin

text \<open>
  The binary form of the table of contents, \<open>Toc::serialize\<close> and \<open>Toc::deserialize\<close> of
  \<open>crates/tpx-index/src/toc.rs\<close>. Lengths are written through the casts of the code
  (\<open>as u16\<close>, \<open>as u8\<close>), so values outside their fields are cut.
\<close>

definition chunk_ref_bytes :: "chunk_ref \<Rightarrow> bytes" where
  "chunk_ref_bytes c = write_u16 (cr_shard_id c) @ write_u64 (cr_chunk_offset c) @ write_u32 (cr_chunk_len c)"

text \<open>The attribute object rebuilt from an entry; values that are too large are skipped.\<close>

definition entry_attrs :: "(bytes \<times> AttrValue) list \<Rightarrow> attrs" where
  "entry_attrs kvs = fold (\<lambda>(k, v) a. case Attrs_set a k v of Inr a' \<Rightarrow> a' | Inl _ \<Rightarrow> a) kvs Attrs_new"

definition toc_entry_bytes :: "toc_entry \<Rightarrow> bytes" where
  "toc_entry_bytes e =
     (let attrs_bytes = Attrs_serialize (entry_attrs (te_attrs e)) in
      write_u64 (te_key_hash e)
      @ write_u16 (of_nat (length (te_key e))) @ te_key e
      @ write_u8 (DTypeId_as_u8 (te_dtype_id e))
      @ write_u8 (of_nat (length (te_shape e))) @ concat (map write_u32 (te_shape e))
      @ write_u32 (of_nat (length attrs_bytes)) @ attrs_bytes
      @ write_u16 (of_nat (length (te_chunk_refs e))) @ concat (map chunk_ref_bytes (te_chunk_refs e))
      @ write_u8 (te_tombstone e))"

definition Toc_serialize :: "toc \<Rightarrow> bytes" where
  "Toc_serialize t =
     write_u32 (of_nat (length (toc_entries t))) @ concat (map toc_entry_bytes (toc_entries t))"

definition read_chunk_ref :: "bytes \<Rightarrow> (chunk_ref \<times> bytes) res" where
  "read_chunk_ref c =
     bindR (read_u16 c) (\<lambda>(shard_id, c).
     bindR (read_u64 c) (\<lambda>(chunk_offset, c).
     bindR (read_u32 c) (\<lambda>(chunk_len, c).
       Inr (\<lparr>cr_shard_id = shard_id, cr_chunk_offset = chunk_offset, cr_chunk_len = chunk_len\<rparr>, c))))"

definition read_toc_entry :: "bytes \<Rightarrow> (toc_entry \<times> bytes) res" where
  "read_toc_entry c =
     bindR (read_u64 c) (\<lambda>(key_hash, c).
     bindR (read_u16 c) (\<lambda>(key_len, c).
     bindR (read_exact (unat key_len) c) (\<lambda>(key_bytes, c).
     bindR (from_utf8 key_bytes) (\<lambda>key.
     bindR (read_u8 c) (\<lambda>(dtype_id_u8, c).
     bindR (DTypeId_from_u8 dtype_id_u8) (\<lambda>dtype_id.
     bindR (read_u8 c) (\<lambda>(ndim, c).
     bindR (read_many (unat ndim) read_u32 c) (\<lambda>(shape, c).
     bindR (read_u32 c) (\<lambda>(attrs_len, c).
     bindR (read_exact (unat attrs_len) c) (\<lambda>(attrs_bytes, c).
     bindR (Attrs_deserialize attrs_bytes) (\<lambda>attrs.
     bindR (read_u16 c) (\<lambda>(chunk_count, c).
     bindR (read_many (unat chunk_count) read_chunk_ref c) (\<lambda>(chunk_refs, c).
     bindR (read_u8 c) (\<lambda>(tombstone, c).
       Inr (\<lparr>te_key_hash = key_hash, te_key = key, te_dtype_id = dtype_id, te_shape = shape,
             te_attrs = attrs, te_chunk_refs = chunk_refs, te_tombstone = tombstone\<rparr>, c)))))))))))))))"

definition Toc_deserialize :: "bytes \<Rightarrow> toc res" where
  "Toc_deserialize buf =
     bindR (read_u32 buf) (\<lambda>(num_entries, c).
     bindR (read_many (unat num_entries) read_toc_entry c) (\<lambda>(entries, _).
       Inr (Toc_build entries)))"

section \<open>Round trip\<close>

text \<open>What the fields of the format can hold.\<close>

definition entry_encodable :: "toc_entry \<Rightarrow> bool" where
  "entry_encodable e \<longleftrightarrow> utf8_valid (te_key e) \<and> length (te_key e) < 2 ^ 16 \<and> length (te_shape e) < 2 ^ 8 \<and>
     attrs_encodable (te_attrs e) \<and> length (Attrs_serialize (te_attrs e)) < 2 ^ 32 \<and>
     length (te_chunk_refs e) < 2 ^ 16"

definition toc_encodable :: "toc \<Rightarrow> bool" where
  "toc_encodable t \<longleftrightarrow> list_all entry_encodable (toc_entries t) \<and> length (toc_entries t) < 2 ^ 32"

text \<open>An entry as it is read back: the attributes come in key order.\<close>

definition stored_entry :: "toc_entry \<Rightarrow> toc_entry" where
  "stored_entry e = e\<lparr>te_attrs := attrs_sorted (te_attrs e)\<rparr>"

lemma fold_set_fresh:
  "distinct (map fst (a @ kvs)) \<Longrightarrow> \<forall>(k, v) \<in> set kvs. attr_val_len v \<le> MAX_ATTR_VALUE_SIZE \<Longrightarrow>
   fold (\<lambda>(k, v) a. case Attrs_set a k v of Inr a' \<Rightarrow> a' | Inl _ \<Rightarrow> a) kvs a = a @ kvs"
proof (induction kvs arbitrary: a)
  case (Cons kv kvs)
  obtain k v where kv: "kv = (k, v)" by (cases kv)
  have "k \<notin> fst ` set a" using Cons.prems(1) kv by auto
  then have "Attrs_set a k v = Inr (a @ [(k, v)])"
    using Cons.prems(2) kv by (simp add: Attrs_set_def update_new)
  then show ?case using Cons.IH [of "a @ [(k, v)]"] Cons.prems kv by simp
qed simp

lemma entry_attrs_id: "attrs_encodable kvs \<Longrightarrow> entry_attrs kvs = kvs"
  using fold_set_fresh [of "[]" kvs]
  by (auto simp: entry_attrs_def attrs_encodable_def attrs_inv_def Attrs_new_def)

lemma read_chunk_ref_bytes: "read_chunk_ref (chunk_ref_bytes c @ r) = Inr (c, r)"
  by (simp add: read_chunk_ref_def chunk_ref_bytes_def)

lemma read_toc_entry_bytes:
  assumes "entry_encodable e"
  shows "read_toc_entry (toc_entry_bytes e @ r) = Inr (stored_entry e, r)"
proof -
  note e = assms [unfolded entry_encodable_def]
  have u: "unat (of_nat (length (te_key e)) :: u16) = length (te_key e)"
    "unat (of_nat (length (te_shape e)) :: u8) = length (te_shape e)"
    "unat (of_nat (length (Attrs_serialize (te_attrs e))) :: u32) = length (Attrs_serialize (te_attrs e))"
    "unat (of_nat (length (te_chunk_refs e)) :: u16) = length (te_chunk_refs e)"
    using e by (simp_all add: unat_of_nat)
  have sh: "read_many (length (te_shape e)) read_u32 (concat (map write_u32 (te_shape e)) @ s) = Inr (te_shape e, s)" for s
    by (rule read_many_written_id) simp_all
  have ch: "read_many (length (te_chunk_refs e)) read_chunk_ref (concat (map chunk_ref_bytes (te_chunk_refs e)) @ s) = Inr (te_chunk_refs e, s)" for s
    by (rule read_many_written_id) (simp_all add: read_chunk_ref_bytes)
  show ?thesis using e
    by (simp add: read_toc_entry_def toc_entry_bytes_def Let_def u sh ch entry_attrs_id
        Attrs_deserialize_serialize stored_entry_def)
qed

lemma Toc_deserialize_serialize:
  assumes "toc_encodable t"
  shows "Toc_deserialize (Toc_serialize t @ pad) = Inr (Toc_build (map stored_entry (toc_entries t)))"
proof -
  have u: "unat (of_nat (length (toc_entries t)) :: u32) = length (toc_entries t)"
    using assms by (simp add: toc_encodable_def unat_of_nat)
  have "read_many (length (toc_entries t)) read_toc_entry (concat (map toc_entry_bytes (toc_entries t)) @ pad)
     = Inr (map stored_entry (toc_entries t), pad)"
    by (rule read_many_written) (use assms in \<open>auto simp: toc_encodable_def list_all_iff read_toc_entry_bytes\<close>)
  then show ?thesis by (simp add: Toc_deserialize_def Toc_serialize_def u)
qed

lemma stored_entry_fields [simp]:
  "te_key (stored_entry e) = te_key e" "te_key_hash (stored_entry e) = te_key_hash e"
  "te_tombstone (stored_entry e) = te_tombstone e" "te_chunk_refs (stored_entry e) = te_chunk_refs e"
  "te_dtype_id (stored_entry e) = te_dtype_id e" "te_shape (stored_entry e) = te_shape e"
  "te_attrs (stored_entry e) = attrs_sorted (te_attrs e)"
  by (simp_all add: stored_entry_def)

lemma latest_stored: "latest (map stored_entry es) k = map_option stored_entry (latest es k)"
  by (induction es rule: rev_induct) simp_all

lemma live_stored: "live (map stored_entry es) k = map_option stored_entry (live es k)"
  by (auto simp: live_def latest_stored split: option.split)

text \<open>
  C29: a table that fits the format's length fields survives a checkpoint. Reading its bytes
  back, with the zero padding of the checkpoint block behind them, gives a table in which
  every key has the same live entry as before: same type, shape, chunks and the same value
  for every attribute.
\<close>

theorem Toc_roundtrip:
  assumes "toc_encodable t" and "hashed xxh (toc_entries t)" and "no_collision xxh (toc_entries t) key"
  shows "\<exists>t'. Toc_deserialize (Toc_serialize t @ pad) = Inr t' \<and>
    (case live (toc_entries t) key of
       None \<Rightarrow> Toc_lookup xxh t' key = None
     | Some e \<Rightarrow> \<exists>e'. Toc_lookup xxh t' key = Some e' \<and> te_dtype_id e' = te_dtype_id e \<and>
         te_shape e' = te_shape e \<and> te_chunk_refs e' = te_chunk_refs e \<and>
         map_of (te_attrs e') = map_of (te_attrs e))"
proof -
  let ?t = "Toc_build (map stored_entry (toc_entries t))"
  have "Toc_lookup xxh ?t key = live (toc_entries ?t) key"
    using assms by (intro Toc_lookup_live index_ok_build)
      (auto simp: hashed_def no_collision_def toc_encodable_def)
  then have "Toc_lookup xxh ?t key = map_option stored_entry (live (toc_entries t) key)"
    by (simp add: live_stored)
  moreover have "map_of (attrs_sorted (te_attrs e)) = map_of (te_attrs e)" if "live (toc_entries t) key = Some e" for e
    using live_key [OF that] assms(1)
    by (intro map_of_attrs_sorted)
      (auto simp: toc_encodable_def list_all_iff entry_encodable_def attrs_encodable_def attrs_inv_def)
  ultimately show ?thesis
    using Toc_deserialize_serialize [OF assms(1), of pad] by (auto split: option.split)
qed

theorem Toc_roundtrip_witness:
  "(let mk = \<lambda>k. TocEntry_new (\<lambda>bs s. of_nat (length bs) + s) k Float32 [2, 3] [] [\<lparr>cr_shard_id = 1, cr_chunk_offset = 4096, cr_chunk_len = 4096\<rparr>];
        t = Toc_build [mk [97]] in
    \<exists>t'. Toc_deserialize (Toc_serialize t @ [0, 0]) = Inr t' \<and>
      (\<exists>e. Toc_lookup (\<lambda>bs s. of_nat (length bs) + s) t' [97] = Some e \<and> te_shape e = [2, 3]))"
proof -
  let ?x = "\<lambda>bs s. of_nat (length bs) + s :: u64"
  let ?e = "TocEntry_new ?x [97] Float32 [2, 3] [] [\<lparr>cr_shard_id = 1, cr_chunk_offset = 4096, cr_chunk_len = 4096\<rparr>]"
  have "toc_encodable (Toc_build [?e])"
    by (simp add: toc_encodable_def entry_encodable_def attrs_encodable_def attrs_inv_def Attrs_serialize_def
        utf8_valid_ascii)
  then show ?thesis
    using Toc_roundtrip [of "Toc_build [?e]" ?x "[97]" "[0, 0]"]
    by (auto simp: hashed_def no_collision_def live_def latest_def)
qed

section \<open>Limits of the format\<close>

text \<open>
  An entry as it is read back when its number of chunks may exceed the 16 bits of its count:
  the chunks up to the wrapped count, and for the tombstone the byte that comes next, which
  is the low byte of a shard identifier if chunks are left.
\<close>

definition cut_entry :: "toc_entry \<Rightarrow> toc_entry" where
  "cut_entry e =
     (let refs = te_chunk_refs e; n = length refs mod 65536 in
      (stored_entry e)\<lparr>te_chunk_refs := take n refs,
        te_tombstone := if length refs < 65536 then te_tombstone e else ucast (cr_shard_id (refs ! n))\<rparr>)"

lemma chunk_ref_bytes_hd: "chunk_ref_bytes c = ucast (cr_shard_id c) # tl (chunk_ref_bytes c)"
  by (simp add: chunk_ref_bytes_def write_u16_def le_bytes_def upt_rec)

text \<open>What follows the chunks that are counted: the tombstone byte as it is read.\<close>

lemma chunk_refs_cut:
  assumes "n = length refs mod 65536"
  shows "\<exists>rest. concat (map chunk_ref_bytes refs) @ write_u8 t @ r =
    concat (map chunk_ref_bytes (take n refs)) @
      write_u8 (if length refs < 65536 then t else ucast (cr_shard_id (refs ! n))) @ rest"
proof (cases "length refs < 65536")
  case True
  then show ?thesis using assms by auto
next
  case False
  have "n < 65536" using assms by simp
  then have "n < length refs" using False by simp
  then have refs: "refs = take n refs @ refs ! n # drop (Suc n) refs" by (rule id_take_nth_drop)
  have "concat (map chunk_ref_bytes refs) = concat (map chunk_ref_bytes (take n refs)) @
      chunk_ref_bytes (refs ! n) @ concat (map chunk_ref_bytes (drop (Suc n) refs))"
    by (subst refs) simp
  also have "chunk_ref_bytes (refs ! n) = write_u8 (ucast (cr_shard_id (refs ! n))) @ tl (chunk_ref_bytes (refs ! n))"
    using chunk_ref_bytes_hd by (simp add: write_u8_eq)
  finally show ?thesis using False by simp
qed

lemma read_toc_entry_cut:
  assumes "entry_encodable (e\<lparr>te_chunk_refs := []\<rparr>)"
  shows "\<exists>rest. read_toc_entry (toc_entry_bytes e @ r) = Inr (cut_entry e, rest)"
proof -
  note e = assms [unfolded entry_encodable_def, simplified]
  let ?n = "length (te_chunk_refs e) mod 65536"
  have u: "unat (of_nat (length (te_key e)) :: u16) = length (te_key e)"
    "unat (of_nat (length (te_shape e)) :: u8) = length (te_shape e)"
    "unat (of_nat (length (Attrs_serialize (te_attrs e))) :: u32) = length (Attrs_serialize (te_attrs e))"
    "unat (of_nat (length (te_chunk_refs e)) :: u16) = ?n"
    using e by (simp_all add: unat_of_nat)
  have sh: "read_many (length (te_shape e)) read_u32 (concat (map write_u32 (te_shape e)) @ s) = Inr (te_shape e, s)" for s
    by (rule read_many_written_id) simp_all
  have ch: "read_many ?n read_chunk_ref (concat (map chunk_ref_bytes (take ?n (te_chunk_refs e))) @ s)
      = Inr (take ?n (te_chunk_refs e), s)" for s
    by (rule read_many_written_id) (simp_all add: read_chunk_ref_bytes)
  from chunk_refs_cut [OF refl, of "te_chunk_refs e" "te_tombstone e" r] obtain rest where
    "concat (map chunk_ref_bytes (te_chunk_refs e)) @ write_u8 (te_tombstone e) @ r =
      concat (map chunk_ref_bytes (take ?n (te_chunk_refs e))) @
        write_u8 (if length (te_chunk_refs e) < 65536 then te_tombstone e else ucast (cr_shard_id (te_chunk_refs e ! ?n))) @ rest"
    by blast
  then have "read_toc_entry (toc_entry_bytes e @ r) = Inr (cut_entry e, rest)" using e
    by (simp add: read_toc_entry_def toc_entry_bytes_def Let_def u sh ch entry_attrs_id
        Attrs_deserialize_serialize stored_entry_def cut_entry_def)
  then show ?thesis by blast
qed

lemma read_many_snoc:
  "read_many n rd c = Inr (xs, c1) \<Longrightarrow> rd c1 = Inr (x, c2) \<Longrightarrow> read_many (Suc n) rd c = Inr (xs @ [x], c2)"
proof (induction n arbitrary: c xs)
  case (Suc n)
  then obtain y ys c' where y: "rd c = Inr (y, c')" "read_many n rd c' = Inr (ys, c1)" "xs = y # ys" by auto
  from Suc.IH [OF y(2) Suc.prems(2)] show ?case
    by (subst read_many.simps) (simp add: y(1,3) del: read_many.simps)
qed simp

text \<open>
  C30: the number of chunks wraps. A table whose last entry has any number of chunk references,
  all else within the limits of the format, is written without an error and read back
  without one: all entries but the last as they were, and the last with its first chunks
  only, as many as the number of chunks modulo 65536. From 65536 chunks on, its tombstone is
  the low byte of the shard that holds the first chunk left out, so with a shard number that is
  no multiple of 256 the tensor counts as deleted, and else it is truncated.
\<close>

theorem chunk_count_wraps:
  assumes "toc_entries t = es @ [e]" and "list_all entry_encodable es"
    and "entry_encodable (e\<lparr>te_chunk_refs := []\<rparr>)" and "length es + 1 < 2 ^ 32"
  shows "Toc_deserialize (Toc_serialize t @ pad) = Inr (Toc_build (map stored_entry es @ [cut_entry e]))"
proof -
  have u: "unat (of_nat (length es + 1) :: u32) = Suc (length es)"
    using assms(4) unfolding unat_of_nat by simp
  obtain rest where last: "read_toc_entry (toc_entry_bytes e @ pad) = Inr (cut_entry e, rest)"
    using read_toc_entry_cut [OF assms(3)] by blast
  have "read_many (length es) read_toc_entry (concat (map toc_entry_bytes es) @ toc_entry_bytes e @ pad)
     = Inr (map stored_entry es, toc_entry_bytes e @ pad)"
    by (rule read_many_written) (use assms(2) in \<open>auto simp: list_all_iff read_toc_entry_bytes\<close>)
  then have "read_many (Suc (length es)) read_toc_entry (concat (map toc_entry_bytes es) @ toc_entry_bytes e @ pad)
     = Inr (map stored_entry es @ [cut_entry e], rest)"
    using last by (rule read_many_snoc)
  then show ?thesis using u
    by (simp add: Toc_deserialize_def Toc_serialize_def assms(1) del: read_many.simps)
qed

theorem chunk_count_wraps_witness:
  "\<exists>e. length (te_chunk_refs e) = 65537 \<and> te_tombstone e = 0 \<and>
     Toc_deserialize (Toc_serialize (Toc_build [e]) @ [0]) =
       Inr (Toc_build [e\<lparr>te_chunk_refs := [\<lparr>cr_shard_id = 3, cr_chunk_offset = 0, cr_chunk_len = 0\<rparr>], te_tombstone := 3\<rparr>])"
proof -
  let ?c = "\<lparr>cr_shard_id = 3, cr_chunk_offset = 0, cr_chunk_len = 0\<rparr>"
  obtain n :: nat where n: "n = 65537" by simp
  let ?e = "TocEntry_new (\<lambda>bs s. 0) [97] Float32 [2] [] (replicate n ?c)"
  have sorted: "stored_entry ?e = ?e" by (simp add: stored_entry_def TocEntry_new_def attrs_sorted_def)
  have ok: "entry_encodable (?e\<lparr>te_chunk_refs := []\<rparr>)"
    by (simp add: entry_encodable_def attrs_encodable_def attrs_inv_def Attrs_serialize_def
        utf8_valid_ascii TocEntry_new_def)
  have "n mod 65536 = Suc 0" "\<not> n < 65536" "Suc 0 < n" using n by simp_all
  then have "cut_entry ?e = ?e\<lparr>te_chunk_refs := [?c], te_tombstone := 3\<rparr>"
    unfolding cut_entry_def Let_def sorted by simp
  then show ?thesis
    using chunk_count_wraps [of "Toc_build [?e]" "[]" ?e "[0]"] ok n
    by (intro exI [of _ ?e]) simp
qed

end
