(* ===== verification/Io_Mmap.thy ===== *)
theory Io_Mmap
  imports Core_Types
begin

text \<open>
  The storage backend: the interface and the tier selection of \<open>crates/tpx-io/src/tier.rs\<close>
  and the buffered file of \<open>crates/tpx-io/src/mmap.rs\<close>. The file is its contents; offsets and
  lengths are natural numbers, and the calls of the operating system succeed, except where
  the code relies on a failure: opening a missing file for reading, a held lock, reading
  past the end, and resizing a file that was opened read-only.
\<close>

datatype IoTier = Spdk | IoUring bool bool | PosixVectored | Mmap

record io_hints =
  ih_direct_io :: bool
  ih_sqpoll :: bool
  ih_iopoll :: bool
  ih_spdk :: bool

definition WRITE_BUFFER_LIMIT :: nat where "WRITE_BUFFER_LIMIT = 1024 * 1024"

record mmap_backend =
  mb_file :: bytes
  mb_write_buffer :: bytes
  mb_write_buffer_start :: nat
  mb_logical_len :: nat
  mb_mode :: OpenMode

text \<open>Seek and \<open>write_all\<close>: the gap behind the end is filled with zeros; writing nothing does nothing.\<close>

definition file_write :: "bytes \<Rightarrow> nat \<Rightarrow> bytes \<Rightarrow> bytes" where
  "file_write file off data =
     (if data = [] then file
      else take off file @ replicate (off - length file) 0 @ data @ drop (off + length data) file)"

definition file_set_len :: "bytes \<Rightarrow> nat \<Rightarrow> bytes" where
  "file_set_len file n = take n file @ replicate (n - length file) 0"

text \<open>
  The file at the path, if there is one, and whether another process holds its lock.
\<close>

definition mmap_open_or_create :: "bytes option \<Rightarrow> bool \<Rightarrow> OpenMode \<Rightarrow> mmap_backend res" where
  "mmap_open_or_create existing locked mode =
     (let start = (\<lambda>file. Inr \<lparr>mb_file = file, mb_write_buffer = [], mb_write_buffer_start = length file,
                       mb_logical_len = length file, mb_mode = mode\<rparr>) in
      case mode of
        ReadOnly \<Rightarrow> (case existing of None \<Rightarrow> Inl (Io OtherIo) | Some file \<Rightarrow> start file)
      | _ \<Rightarrow> if locked then Inl AlreadyLocked
             else start (case existing of None \<Rightarrow> [] | Some file \<Rightarrow> file))"

definition detect_best_tier :: "bytes option \<Rightarrow> bool \<Rightarrow> OpenMode \<Rightarrow> io_hints \<Rightarrow> mmap_backend res" where
  "detect_best_tier existing locked mode hints = mmap_open_or_create existing locked mode"

definition flush_buffer_internal :: "mmap_backend \<Rightarrow> mmap_backend" where
  "flush_buffer_internal b =
     (if mb_write_buffer b = [] then b
      else b\<lparr>mb_file := file_write (mb_file b) (mb_write_buffer_start b) (mb_write_buffer b),
             mb_write_buffer_start := mb_write_buffer_start b + length (mb_write_buffer b),
             mb_write_buffer := []\<rparr>)"

definition io_write_at :: "nat \<Rightarrow> bytes \<Rightarrow> mmap_backend \<Rightarrow> unit res \<times> mmap_backend" where
  "io_write_at offset data b =
     (if mb_mode b = ReadOnly then (Inl ReadOnlyMode, b)
      else
        let b = flush_buffer_internal b; end = offset + length data in
        (Inr (), b\<lparr>mb_file := file_write (mb_file b) offset data,
                   mb_logical_len := max (mb_logical_len b) end,
                   mb_write_buffer_start := max (mb_write_buffer_start b) end\<rparr>))"

definition io_read_at :: "nat \<Rightarrow> nat \<Rightarrow> mmap_backend \<Rightarrow> bytes res \<times> mmap_backend" where
  "io_read_at offset len b =
     (let b = (if offset + len > mb_write_buffer_start b then flush_buffer_internal b else b) in
      (if len = 0 then Inr []
       else if offset + len \<le> length (mb_file b) then Inr (take len (drop offset (mb_file b)))
       else Inl (Io UnexpectedEof), b))"

definition io_append :: "bytes \<Rightarrow> mmap_backend \<Rightarrow> nat res \<times> mmap_backend" where
  "io_append data b =
     (if mb_mode b = ReadOnly then (Inl ReadOnlyMode, b)
      else
        let append_offset = mb_logical_len b;
            b = b\<lparr>mb_logical_len := append_offset + length data\<rparr> in
        if length data \<ge> WRITE_BUFFER_LIMIT then
          let b = (if mb_write_buffer b \<noteq> []
                   then b\<lparr>mb_file := file_write (mb_file b) (mb_write_buffer_start b) (mb_write_buffer b),
                          mb_write_buffer := []\<rparr>
                   else b) in
          (Inr append_offset,
           b\<lparr>mb_file := file_write (mb_file b) append_offset data,
             mb_write_buffer_start := append_offset + length data\<rparr>)
        else
          let b = b\<lparr>mb_write_buffer := mb_write_buffer b @ data\<rparr>;
              b = (if length (mb_write_buffer b) \<ge> WRITE_BUFFER_LIMIT
                   then b\<lparr>mb_file := file_write (mb_file b) (mb_write_buffer_start b) (mb_write_buffer b),
                          mb_write_buffer_start := mb_write_buffer_start b + length (mb_write_buffer b),
                          mb_write_buffer := []\<rparr>
                   else b) in
          (Inr append_offset, b))"

definition io_len :: "mmap_backend \<Rightarrow> nat" where "io_len b = mb_logical_len b"

definition io_is_empty :: "mmap_backend \<Rightarrow> bool" where "io_is_empty b \<longleftrightarrow> io_len b = 0"

definition io_sync :: "mmap_backend \<Rightarrow> unit res \<times> mmap_backend" where
  "io_sync b = (Inr (), if mb_mode b \<noteq> ReadOnly then flush_buffer_internal b else b)"

definition io_truncate :: "nat \<Rightarrow> mmap_backend \<Rightarrow> unit res \<times> mmap_backend" where
  "io_truncate len b =
     (let b = b\<lparr>mb_write_buffer := [], mb_write_buffer_start := len, mb_logical_len := len\<rparr> in
      if mb_mode b = ReadOnly then (Inl (Io InvalidInput), b)
      else (Inr (), b\<lparr>mb_file := file_set_len (mb_file b) len\<rparr>))"

definition io_tier :: "mmap_backend \<Rightarrow> IoTier" where "io_tier b = Mmap"

definition io_close :: "mmap_backend \<Rightarrow> unit res \<times> mmap_backend" where
  "io_close b = (Inr (), if mb_mode b \<noteq> ReadOnly then flush_buffer_internal b else b)"

text \<open>\<open>Drop\<close> of the backend.\<close>

definition io_drop :: "mmap_backend \<Rightarrow> mmap_backend" where
  "io_drop b = (if mb_mode b \<noteq> ReadOnly then flush_buffer_internal b else b)"

lemma io_drop_flushed [simp]: "mb_write_buffer b = [] \<Longrightarrow> io_drop b = b"
  by (simp add: io_drop_def flush_buffer_internal_def)

section \<open>The logical contents\<close>

text \<open>
  What the backend stands for: the file followed by the buffered bytes. The invariant says
  that the buffer continues the file and stays below its limit.
\<close>

definition contents :: "mmap_backend \<Rightarrow> bytes" where
  "contents b = mb_file b @ mb_write_buffer b"

definition io_inv :: "mmap_backend \<Rightarrow> bool" where
  "io_inv b \<longleftrightarrow> mb_write_buffer_start b = length (mb_file b) \<and>
     mb_logical_len b = length (contents b) \<and> length (mb_write_buffer b) < WRITE_BUFFER_LIMIT \<and>
     (mb_mode b = ReadOnly \<longrightarrow> mb_write_buffer b = [])"

lemma file_write_end [simp]: "file_write file (length file) data = file @ data"
  by (simp add: file_write_def)

lemma length_file_write: "length (file_write file off data) = (if data = [] then length file else max (length file) (off + length data))"
  by (auto simp: file_write_def max_def min_def)

lemma limit_pos [simp]: "0 < WRITE_BUFFER_LIMIT"
  by (simp add: WRITE_BUFFER_LIMIT_def)

lemma flush_spec:
  assumes "io_inv b"
  shows "io_inv (flush_buffer_internal b)" "contents (flush_buffer_internal b) = contents b"
    "mb_file (flush_buffer_internal b) = contents b" "mb_write_buffer (flush_buffer_internal b) = []"
    "mb_mode (flush_buffer_internal b) = mb_mode b"
  using assms by (auto simp: flush_buffer_internal_def io_inv_def contents_def)

lemma open_spec:
  assumes "mmap_open_or_create existing locked mode = Inr b"
  shows "io_inv b \<and> contents b = (case existing of None \<Rightarrow> [] | Some f \<Rightarrow> f) \<and> mb_mode b = mode"
  using assms by (auto simp: mmap_open_or_create_def io_inv_def contents_def split: OpenMode.splits option.splits if_splits)

lemma append_spec:
  assumes "io_inv b" and "mb_mode b \<noteq> ReadOnly"
  shows "fst (io_append data b) = Inr (length (contents b))"
    "contents (snd (io_append data b)) = contents b @ data"
    "io_inv (snd (io_append data b))" "mb_mode (snd (io_append data b)) = mb_mode b"
proof -
  have e: "mb_file b @ mb_write_buffer b = contents b" by (simp add: contents_def)
  have l: "length (mb_file b) + length (mb_write_buffer b) = length (contents b)" by (simp add: contents_def)
  have w: "file_write (mb_file b) (length (contents b)) data = mb_file b @ data" if "mb_write_buffer b = []"
    using that by (simp add: contents_def)
  have w2: "file_write (mb_file b @ mb_write_buffer b) (length (contents b)) data = contents b @ data"
    unfolding e by simp
  show "fst (io_append data b) = Inr (length (contents b))"
    using assms by (simp add: io_append_def io_inv_def Let_def)
  show "contents (snd (io_append data b)) = contents b @ data"
    using assms w w2 by (auto simp: io_append_def io_inv_def Let_def contents_def)
  show "io_inv (snd (io_append data b))"
    using assms w w2 by (auto simp: io_append_def io_inv_def Let_def contents_def)
  show "mb_mode (snd (io_append data b)) = mb_mode b"
    using assms by (simp add: io_append_def Let_def)
qed

lemma read_spec:
  assumes "io_inv b"
  shows "fst (io_read_at offset len b) =
      (if len = 0 then Inr []
       else if offset + len \<le> length (contents b) then Inr (take len (drop offset (contents b)))
       else Inl (Io UnexpectedEof))"
    "contents (snd (io_read_at offset len b)) = contents b" "io_inv (snd (io_read_at offset len b))"
    "mb_mode (snd (io_read_at offset len b)) = mb_mode b"
  using assms flush_spec [OF assms]
  by (auto simp: io_read_at_def Let_def contents_def io_inv_def)

text \<open>Overwriting inside or at the end of the contents; an empty write must lie inside.\<close>

lemma write_at_spec:
  assumes "io_inv b" and "mb_mode b \<noteq> ReadOnly" and "data \<noteq> [] \<or> offset \<le> length (contents b)"
  shows "fst (io_write_at offset data b) = Inr ()"
    "contents (snd (io_write_at offset data b)) = file_write (contents b) offset data"
    "io_inv (snd (io_write_at offset data b))" "mb_mode (snd (io_write_at offset data b)) = mb_mode b"
proof -
  note f = flush_spec [OF assms(1)]
  have s: "mb_write_buffer_start (flush_buffer_internal b) = length (contents b)"
    "mb_logical_len (flush_buffer_internal b) = length (contents b)"
    using f(1) unfolding io_inv_def by (simp_all add: f)
  show "fst (io_write_at offset data b) = Inr ()" "mb_mode (snd (io_write_at offset data b)) = mb_mode b"
    using assms(2) f(5) by (simp_all add: io_write_at_def Let_def)
  show "contents (snd (io_write_at offset data b)) = file_write (contents b) offset data"
    using assms(2) f(3,4) by (simp add: io_write_at_def Let_def contents_def)
  show "io_inv (snd (io_write_at offset data b))"
    using assms(2,3) f(3,4,5) s
    by (auto simp add: io_write_at_def Let_def io_inv_def length_file_write contents_def)
qed

lemma sync_spec:
  assumes "io_inv b"
  shows "fst (io_sync b) = Inr ()" "contents (snd (io_sync b)) = contents b" "io_inv (snd (io_sync b))"
    "mb_file (snd (io_sync b)) = contents b" "mb_mode (snd (io_sync b)) = mb_mode b"
  using assms flush_spec [OF assms] by (auto simp: io_sync_def io_inv_def contents_def)

lemma close_spec:
  assumes "io_inv b"
  shows "fst (io_close b) = Inr ()" "mb_file (snd (io_close b)) = contents b" "mb_write_buffer (snd (io_close b)) = []"
  using sync_spec [OF assms] assms by (auto simp: io_close_def io_sync_def flush_buffer_internal_def io_inv_def)

lemma length_file_set_len [simp]: "length (file_set_len f n) = n"
  by (simp add: file_set_len_def min_def)

lemma truncate_spec:
  assumes "io_inv b" and "mb_mode b \<noteq> ReadOnly"
  shows "fst (io_truncate n b) = Inr ()" "contents (snd (io_truncate n b)) = file_set_len (mb_file b) n"
    "io_inv (snd (io_truncate n b))" "mb_mode (snd (io_truncate n b)) = mb_mode b"
  using assms by (simp_all add: io_truncate_def Let_def contents_def io_inv_def)

lemma io_len_contents: "io_inv b \<Longrightarrow> io_len b = length (contents b)"
  by (simp add: io_len_def io_inv_def)

section \<open>Append-only storage\<close>

text \<open>What a writer does between an append and a later read, and the bytes it appends.\<close>

datatype store_op = AppendOp bytes | ReadOp nat nat | SyncOp

fun store_step ::
  "(bytes \<Rightarrow> 's \<Rightarrow> nat res \<times> 's) \<Rightarrow> (nat \<Rightarrow> nat \<Rightarrow> 's \<Rightarrow> bytes res \<times> 's) \<Rightarrow> ('s \<Rightarrow> unit res \<times> 's) \<Rightarrow>
    store_op \<Rightarrow> 's \<Rightarrow> 's" where
  "store_step app rd syn (AppendOp d) s = snd (app d s)"
| "store_step app rd syn (ReadOp off n) s = snd (rd off n s)"
| "store_step app rd syn SyncOp s = snd (syn s)"

fun appended :: "store_op list \<Rightarrow> bytes" where
  "appended [] = []"
| "appended (AppendOp d # ops) = d @ appended ops"
| "appended (_ # ops) = appended ops"

text \<open>
  What the engine needs of its storage: appended bytes are found at the returned offset and
  stay there under every later append, read and sync.
\<close>

locale append_store =
  fixes ok :: "'s \<Rightarrow> bool" and bytes_of :: "'s \<Rightarrow> bytes"
    and app :: "bytes \<Rightarrow> 's \<Rightarrow> nat res \<times> 's"
    and rd :: "nat \<Rightarrow> nat \<Rightarrow> 's \<Rightarrow> bytes res \<times> 's"
    and syn :: "'s \<Rightarrow> unit res \<times> 's"
  assumes app: "ok s \<Longrightarrow> fst (app d s) = Inr (length (bytes_of s)) \<and>
      bytes_of (snd (app d s)) = bytes_of s @ d \<and> ok (snd (app d s))"
    and rd_in: "ok s \<Longrightarrow> off + n \<le> length (bytes_of s) \<Longrightarrow>
      fst (rd off n s) = Inr (take n (drop off (bytes_of s)))"
    and rd_state: "ok s \<Longrightarrow> bytes_of (snd (rd off n s)) = bytes_of s \<and> ok (snd (rd off n s))"
    and syn: "ok s \<Longrightarrow> fst (syn s) = Inr () \<and> bytes_of (snd (syn s)) = bytes_of s \<and> ok (snd (syn s))"
begin

lemma read_back:
  assumes "ok s"
  shows "fst (rd (length (bytes_of s)) (length d) (snd (app d s))) = Inr d"
  using app [OF assms, of d] rd_in [of "snd (app d s)" "length (bytes_of s)" "length d"] by simp

lemma read_stable:
  assumes "ok s" and "off + n \<le> length (bytes_of s)"
  shows "fst (rd off n (snd (app d s))) = fst (rd off n s)"
  using app [OF assms(1), of d] rd_in [OF assms] rd_in [of "snd (app d s)" off n] assms(2) by simp

lemma steps:
  "ok s \<Longrightarrow> bytes_of (fold (store_step app rd syn) ops s) = bytes_of s @ appended ops \<and>
     ok (fold (store_step app rd syn) ops s)"
proof (induction ops arbitrary: s)
  case (Cons op ops)
  then show ?case using app [OF Cons.prems] rd_state [OF Cons.prems] syn [OF Cons.prems] by (cases op) simp_all
qed simp

lemma read_back_later:
  assumes "ok s"
  shows "fst (rd (length (bytes_of s)) (length d) (fold (store_step app rd syn) (AppendOp d # ops) s)) = Inr d"
  using steps [OF assms, of "AppendOp d # ops"]
    rd_in [of "fold (store_step app rd syn) (AppendOp d # ops) s" "length (bytes_of s)" "length d"]
  by simp

end

interpretation mmap_store: append_store "\<lambda>b. io_inv b \<and> mb_mode b \<noteq> ReadOnly" contents io_append io_read_at io_sync
  by unfold_locales
    (auto simp: append_spec read_spec sync_spec)

text \<open>The file backend under appends, reads and syncs.\<close>

abbreviation io_step :: "store_op \<Rightarrow> mmap_backend \<Rightarrow> mmap_backend" where
  "io_step \<equiv> store_step io_append io_read_at io_sync"

text \<open>
  C31: the write buffer is transparent. Whatever the sizes of the appended blocks, buffered
  or written through, an append returns the current length, and after any further appends,
  reads and syncs, in any order, the block is read back unchanged at that offset; so is every
  range of what was there before or came later. A sync then succeeds and leaves the file
  itself with everything in order.
\<close>

theorem mmap_append_read_back:
  fixes b d ops
  assumes "io_inv b" and "mb_mode b \<noteq> ReadOnly"
  defines "b' \<equiv> fold io_step (AppendOp d # ops) b"
  shows "fst (io_append d b) = Inr (io_len b) \<and>
    fst (io_read_at (io_len b) (length d) b') = Inr d \<and>
    io_len b' = io_len b + length d + length (appended ops) \<and>
    (\<forall>off n. off + n \<le> io_len b' \<longrightarrow>
       fst (io_read_at off n b') = Inr (take n (drop off (contents b @ d @ appended ops)))) \<and>
    fst (io_sync b') = Inr () \<and> mb_file (snd (io_sync b')) = contents b @ d @ appended ops"
proof -
  have ok: "io_inv b \<and> mb_mode b \<noteq> ReadOnly" using assms by simp
  have b': "contents b' = contents b @ d @ appended ops" "io_inv b'" "mb_mode b' \<noteq> ReadOnly"
    using mmap_store.steps [OF ok, of "AppendOp d # ops"] by (simp_all add: b'_def)
  have "fst (io_append d b) = Inr (io_len b)"
    using mmap_store.app [OF ok, of d] assms(1) by (simp add: io_len_contents)
  moreover have "fst (io_read_at (io_len b) (length d) b') = Inr d"
    using mmap_store.read_back_later [OF ok, of d ops] assms(1) unfolding b'_def by (simp add: io_len_contents)
  moreover have "io_len b' = io_len b + length d + length (appended ops)"
    using b'(1) io_len_contents [OF b'(2)] io_len_contents [OF assms(1)] by simp
  moreover have "fst (io_read_at off n b') = Inr (take n (drop off (contents b @ d @ appended ops)))"
    if "off + n \<le> io_len b'" for off n
    using mmap_store.rd_in [of b' off n] b' that io_len_contents [OF b'(2)] by metis
  ultimately show ?thesis using sync_spec(1,4) [OF b'(2)] b'(1) by auto
qed

definition empty_backend :: "OpenMode \<Rightarrow> mmap_backend" where
  "empty_backend m = \<lparr>mb_file = [], mb_write_buffer = [], mb_write_buffer_start = 0, mb_logical_len = 0, mb_mode = m\<rparr>"

lemma empty_backend_inv [simp]: "io_inv (empty_backend m)"
  by (simp add: empty_backend_def io_inv_def contents_def)

lemma empty_backend_fields [simp]:
  "mb_mode (empty_backend m) = m" "io_len (empty_backend m) = 0" "contents (empty_backend m) = []"
  by (simp_all add: empty_backend_def io_len_def contents_def)

theorem mmap_append_read_back_witness:
  "fst (io_read_at 0 3 (fold io_step [AppendOp [1, 2, 3], ReadOp 1 1, AppendOp [4, 5], SyncOp, AppendOp [6]]
     (empty_backend ReadWrite))) = Inr [1, 2, 3]"
  using mmap_append_read_back [of "empty_backend ReadWrite" "[1, 2, 3]" "[ReadOp 1 1, AppendOp [4, 5], SyncOp, AppendOp [6]]"]
  by (simp add: numeral_3_eq_3)

text \<open>
  Every operation keeps the backend consistent: the buffer continues the file, the
  logical length counts both, and the buffer stays below its limit. An empty write behind
  the end of the data is excluded: it would move the length without writing.
\<close>

lemma mmap_invariant:
  assumes "io_inv b" and "data \<noteq> [] \<or> offset \<le> length (contents b)"
  shows "io_inv (snd (io_append data b)) \<and> io_inv (snd (io_write_at offset data b)) \<and>
    io_inv (snd (io_read_at offset n b)) \<and> io_inv (snd (io_sync b)) \<and> io_inv (snd (io_close b)) \<and>
    (mb_mode b = ReadOnly \<or> io_inv (snd (io_truncate n b)))"
proof (cases "mb_mode b = ReadOnly")
  case True
  then show ?thesis using assms read_spec(3) [OF assms(1)]
    by (simp add: io_append_def io_write_at_def io_sync_def io_close_def)
next
  case False
  then show ?thesis
    using append_spec(3) [OF assms(1)] write_at_spec(3) [OF assms(1) False assms(2)] read_spec(3) [OF assms(1)]
      sync_spec(3) [OF assms(1)] truncate_spec(3) [OF assms(1)]
    by (simp add: io_close_def io_sync_def)
qed

lemma mmap_invariant_witness:
  "io_inv (snd (io_truncate 7 (snd (io_append [1, 2, 3] (empty_backend ReadWrite)))))"
proof -
  have "io_inv (snd (io_append [1, 2, 3] (empty_backend ReadWrite)))"
    using mmap_invariant [of "empty_backend ReadWrite" "[1, 2, 3]"] by simp
  from mmap_invariant [OF this, of "[1]" 0 7] show ?thesis by (simp add: append_spec)
qed

text \<open>
  C32: truncation discards the write buffer before it cuts the file. After an append that
  stays in the buffer, truncating to any length that is not behind the end keeps of the data only
  what had reached the file: the bytes below the new length that were still buffered read as
  zeros. The same truncation after a sync keeps all of them.
\<close>

theorem truncate_loses_buffered_bytes:
  fixes b data
  assumes "io_inv b" and "mb_mode b \<noteq> ReadOnly"
    and "length (mb_write_buffer b) + length data < WRITE_BUFFER_LIMIT" and "n \<le> io_len b + length data"
  defines "b1 \<equiv> snd (io_append data b)"
  shows "fst (io_truncate n b1) = Inr () \<and>
    fst (io_read_at 0 n (snd (io_truncate n b1))) =
      Inr (take n (mb_file b) @ replicate (n - length (mb_file b)) 0) \<and>
    fst (io_read_at 0 n (snd (io_truncate n (snd (io_sync b1))))) = Inr (take n (contents b @ data))"
proof -
  have b1: "contents b1 = contents b @ data" "io_inv b1" "mb_mode b1 \<noteq> ReadOnly"
    using append_spec [OF assms(1,2)] assms(2) by (simp_all add: b1_def)
  have old: "mb_file b1 = mb_file b"
    using assms(1-3) by (simp add: b1_def io_append_def Let_def)
  have read: "fst (io_read_at 0 n (snd (io_truncate n s))) = Inr (file_set_len (mb_file s) n)"
    if "io_inv s" "mb_mode s \<noteq> ReadOnly" for s
    using read_spec(1) [OF truncate_spec(3) [OF that], of 0 n n] truncate_spec(2) [OF that, of n]
      length_file_set_len [of "mb_file s" n]
    by (cases "n = 0") (simp add: file_set_len_def, simp)
  have "n \<le> length (contents b @ data)" using assms(1,4) by (simp add: io_len_contents)
  then have "fst (io_read_at 0 n (snd (io_truncate n (snd (io_sync b1))))) = Inr (take n (contents b @ data))"
    using read [of "snd (io_sync b1)"] sync_spec(3,4,5) [OF b1(2)] b1 by (simp add: file_set_len_def)
  then show ?thesis using read [OF b1(2,3)] truncate_spec(1) [OF b1(2,3)] old by (simp add: file_set_len_def)
qed

theorem truncate_loses_buffered_bytes_witness:
  "fst (io_read_at 0 2 (snd (io_truncate 2 (snd (io_append [1, 2, 3] (empty_backend ReadWrite)))))) = Inr [0, 0] \<and>
   fst (io_read_at 0 2 (snd (io_truncate 2 (snd (io_sync (snd (io_append [1, 2, 3] (empty_backend ReadWrite)))))))) = Inr [1, 2]"
proof -
  have "length (mb_write_buffer (empty_backend ReadWrite)) + length [1, 2, 3 :: u8] < WRITE_BUFFER_LIMIT"
    "mb_file (empty_backend ReadWrite) = []"
    by (simp_all add: empty_backend_def WRITE_BUFFER_LIMIT_def)
  then show ?thesis
    using truncate_loses_buffered_bytes [of "empty_backend ReadWrite" "[1, 2, 3]" 2] by (simp add: numeral_2_eq_2)
qed

end
