(* ===== verification/Art.thy ===== *)
theory Art
  imports Key_Map
begin

text \<open>
  The adaptive radix tree of \<open>crates/tpx-index/src/art.rs\<close>. A fixed-size array of the code is
  a list of that length. Each arm of a \<open>match\<close> over the node kinds is a clause of the
  operation's primitives below (find the child of a byte, replace it, add one and grow the
  node, take one out); the recursive functions are then the same for all kinds, as the arms
  of the code are. A call of \<open>unwrap\<close> on an empty child makes an insertion panic, which is the
  result \<open>None\<close> of \<open>insert_rec\<close>. The lock around the root makes every operation one step.
\<close>

datatype 'v art_node =
    Leaf bytes 'v
  | Node4 "u8 list" "'v art_node option list" nat "(bytes \<times> 'v) option"
  | Node16 "u8 list" "'v art_node option list" nat "(bytes \<times> 'v) option"
  | Node48 "u8 list" "'v art_node option list" nat "(bytes \<times> 'v) option"
  | Node256 "'v art_node option list" nat "(bytes \<times> 'v) option"

definition new_leaf :: "bytes \<Rightarrow> 'v \<Rightarrow> 'v art_node" where
  "new_leaf key value = Leaf key value"

definition new_node4 :: "'v art_node" where
  "new_node4 = Node4 (replicate 4 0) (replicate 4 None) 0 None"

fun get_node_val :: "'v art_node \<Rightarrow> (bytes \<times> 'v) option" where
  "get_node_val (Node4 _ _ _ val) = val"
| "get_node_val (Node16 _ _ _ val) = val"
| "get_node_val (Node48 _ _ _ val) = val"
| "get_node_val (Node256 _ _ val) = val"
| "get_node_val (Leaf _ _) = None"

fun replace_node_val :: "(bytes \<times> 'v) option \<Rightarrow> 'v art_node \<Rightarrow> 'v art_node" where
  "replace_node_val val (Node4 keys children n _) = Node4 keys children n val"
| "replace_node_val val (Node16 keys children n _) = Node16 keys children n val"
| "replace_node_val val (Node48 index children n _) = Node48 index children n val"
| "replace_node_val val (Node256 children n _) = Node256 children n val"
| "replace_node_val val (Leaf k v) = Leaf k v"

definition set_node_val :: "bytes \<Rightarrow> 'v \<Rightarrow> 'v art_node \<Rightarrow> 'v option \<times> 'v art_node" where
  "set_node_val key value node = (map_option snd (get_node_val node), replace_node_val (Some (key, value)) node)"

definition take_node_val :: "'v art_node \<Rightarrow> 'v option \<times> 'v art_node" where
  "take_node_val node = (map_option snd (get_node_val node), replace_node_val None node)"

section \<open>Children\<close>

definition EMPTY_SLOT :: u8 where "EMPTY_SLOT = 0xFF"

definition find_key :: "u8 list \<Rightarrow> nat \<Rightarrow> u8 \<Rightarrow> nat option" where
  "find_key keys n byte = find (\<lambda>i. keys ! i = byte) [0..<n]"

text \<open>Where a node keeps the child of a byte.\<close>

fun slot_of :: "'v art_node \<Rightarrow> u8 \<Rightarrow> nat option" where
  "slot_of (Node4 keys children n _) byte = find_key keys n byte"
| "slot_of (Node16 keys children n _) byte = find_key keys n byte"
| "slot_of (Node48 index children n _) byte =
     (let slot = index ! unat byte in if slot \<noteq> EMPTY_SLOT then Some (unat slot) else None)"
| "slot_of (Node256 children n _) byte =
     (case children ! unat byte of Some _ \<Rightarrow> Some (unat byte) | None \<Rightarrow> None)"
| "slot_of (Leaf _ _) byte = None"

fun children_of :: "'v art_node \<Rightarrow> 'v art_node option list" where
  "children_of (Node4 _ children _ _) = children"
| "children_of (Node16 _ children _ _) = children"
| "children_of (Node48 _ children _ _) = children"
| "children_of (Node256 children _ _) = children"
| "children_of (Leaf _ _) = []"

fun with_children :: "'v art_node option list \<Rightarrow> 'v art_node \<Rightarrow> 'v art_node" where
  "with_children cs (Node4 keys _ n val) = Node4 keys cs n val"
| "with_children cs (Node16 keys _ n val) = Node16 keys cs n val"
| "with_children cs (Node48 index _ n val) = Node48 index cs n val"
| "with_children cs (Node256 _ n val) = Node256 cs n val"
| "with_children cs (Leaf k v) = Leaf k v"

text \<open>Adding a child for a byte that has none, growing a full node to the next kind.\<close>

definition grow16 :: "u8 list \<Rightarrow> u8 \<Rightarrow> u8 list" where
  "grow16 keys byte =
     (fold (\<lambda>i index. index[unat (keys ! i) := of_nat i]) [0..<16] (replicate 256 EMPTY_SLOT))
       [unat byte := 16]"

definition grow48 :: "u8 list \<Rightarrow> 'v art_node option list \<Rightarrow> 'v art_node option list" where
  "grow48 index children =
     fst (fold (\<lambda>b (out, children). let s = index ! b in
            if s \<noteq> EMPTY_SLOT then (out[b := children ! unat s], children[unat s := None])
            else (out, children))
       [0..<256] (replicate 256 None, children))"

fun add_new :: "u8 \<Rightarrow> 'v art_node \<Rightarrow> 'v art_node \<Rightarrow> 'v art_node" where
  "add_new byte leaf (Node4 keys children n val) =
     (if n < 4 then Node4 (keys[n := byte]) (children[n := Some leaf]) (n + 1) val
      else Node16 (take 4 keys @ [byte] @ replicate 11 0)
             (take 4 children @ [Some leaf] @ replicate 11 None) 5 val)"
| "add_new byte leaf (Node16 keys children n val) =
     (if n < 16 then Node16 (keys[n := byte]) (children[n := Some leaf]) (n + 1) val
      else Node48 (grow16 keys byte) (take 16 children @ [Some leaf] @ replicate 31 None) 17 val)"
| "add_new byte leaf (Node48 index children n val) =
     (if n < 48 then Node48 (index[unat byte := of_nat n]) (children[n := Some leaf]) (n + 1) val
      else Node256 ((grow48 index children)[unat byte := Some leaf]) 49 val)"
| "add_new byte leaf (Node256 children n val) = Node256 (children[unat byte := Some leaf]) (n + 1) val"
| "add_new byte leaf (Leaf k v) = Leaf k v"

text \<open>\<open>add_child\<close> is called on fresh \<open>Node4\<close>s only.\<close>

fun add_child :: "'v art_node \<Rightarrow> u8 \<Rightarrow> 'v art_node \<Rightarrow> 'v art_node" where
  "add_child (Node4 keys children n val) byte child =
     (if n < 4 then Node4 (keys[n := byte]) (children[n := Some child]) (n + 1) val
      else Node4 keys children n val)"
| "add_child node byte child = node"

text \<open>Taking out the child in slot \<open>i\<close>: the two small kinds shift the rest down.\<close>

definition shift_down :: "nat \<Rightarrow> nat \<Rightarrow> u8 list \<Rightarrow> 'v art_node option list \<Rightarrow> u8 list \<times> 'v art_node option list" where
  "shift_down i n keys children =
     fold (\<lambda>j (keys, children).
             (keys[j := keys ! (j + 1)], (children[j := children ! (j + 1)])[j + 1 := None]))
       [i..<n - 1] (keys, children[i := None])"

fun take_child :: "u8 \<Rightarrow> nat \<Rightarrow> 'v art_node \<Rightarrow> 'v art_node" where
  "take_child byte i (Node4 keys children n val) =
     (case shift_down i n keys children of (keys, children) \<Rightarrow> Node4 keys children (n - 1) val)"
| "take_child byte i (Node16 keys children n val) =
     (case shift_down i n keys children of (keys, children) \<Rightarrow> Node16 keys children (n - 1) val)"
| "take_child byte i (Node48 index children n val) =
     Node48 (index[unat byte := EMPTY_SLOT]) (children[i := None]) (n - 1) val"
| "take_child byte i (Node256 children n val) = Node256 (children[i := None]) (n - 1) val"
| "take_child byte i (Leaf k v) = Leaf k v"

section \<open>Operations\<close>

type_synonym 'v art_tree = "'v art_node option"

definition Art_new :: "'v art_tree" where "Art_new = None"

definition byte_at :: "bytes \<Rightarrow> nat \<Rightarrow> u8 option" where
  "byte_at key depth = (if depth < length key then Some (key ! depth) else None)"

definition split_leaf :: "bytes \<Rightarrow> 'v \<Rightarrow> bytes \<Rightarrow> 'v \<Rightarrow> nat \<Rightarrow> 'v art_node" where
  "split_leaf old_key old_val key value depth =
     (let node = (case byte_at old_key depth of
                    Some ob \<Rightarrow> add_child new_node4 ob (new_leaf old_key old_val)
                  | None \<Rightarrow> snd (set_node_val old_key old_val new_node4)) in
      case byte_at key depth of
        Some nb \<Rightarrow> add_child node nb (new_leaf key value)
      | None \<Rightarrow> snd (set_node_val key value node))"

function insert_rec :: "'v art_node \<Rightarrow> bytes \<Rightarrow> 'v \<Rightarrow> nat \<Rightarrow> ('v option \<times> 'v art_node) option" where
  "insert_rec (Leaf leaf_key leaf_val) key value depth =
     (if leaf_key = key then Some (Some leaf_val, Leaf leaf_key value)
      else if byte_at leaf_key depth = byte_at key depth \<and> byte_at leaf_key depth \<noteq> None then
        map_option (\<lambda>(_, child). (None, add_child new_node4 (the (byte_at leaf_key depth)) child))
          (insert_rec (new_leaf leaf_key leaf_val) key value (depth + 1))
      else Some (None, split_leaf leaf_key leaf_val key value depth))"
| "\<not> (\<exists>k v. node = Leaf k v) \<Longrightarrow> insert_rec node key value depth =
     (case byte_at key depth of
        None \<Rightarrow> Some (set_node_val key value node)
      | Some byte \<Rightarrow>
          (case slot_of node byte of
             Some i \<Rightarrow>
               (case children_of node ! i of
                  None \<Rightarrow> None
                | Some child \<Rightarrow>
                    map_option (\<lambda>(old, child'). (old, with_children ((children_of node)[i := Some child']) node))
                      (insert_rec child key value (depth + 1)))
           | None \<Rightarrow> Some (None, add_new byte (new_leaf key value) node)))"
  by (metis prod.exhaust) auto
termination
  by (relation "measure (\<lambda>(node, key, value, depth). length key - depth)")
    (auto simp: byte_at_def split: if_splits)

definition Art_insert :: "bytes \<Rightarrow> 'v \<Rightarrow> 'v art_tree \<Rightarrow> ('v option \<times> 'v art_tree) option" where
  "Art_insert key value t =
     (case t of
        None \<Rightarrow> Some (None, Some (new_leaf key value))
      | Some root \<Rightarrow> map_option (\<lambda>(old, root'). (old, Some root')) (insert_rec root key value 0))"

function get_from :: "'v art_node \<Rightarrow> bytes \<Rightarrow> nat \<Rightarrow> 'v option" where
  "get_from (Leaf leaf_key value) key depth = (if leaf_key = key then Some value else None)"
| "\<not> (\<exists>k v. node = Leaf k v) \<Longrightarrow> get_from node key depth =
     (case byte_at key depth of
        None \<Rightarrow> map_option snd (get_node_val node)
      | Some byte \<Rightarrow>
          (case slot_of node byte of
             None \<Rightarrow> None
           | Some i \<Rightarrow>
               (case children_of node ! i of None \<Rightarrow> None | Some child \<Rightarrow> get_from child key (depth + 1))))"
  by (metis prod.exhaust) auto
termination
  by (relation "measure (\<lambda>(node, key, depth). length key - depth)")
    (auto simp: byte_at_def split: if_splits)

definition Art_get :: "'v art_tree \<Rightarrow> bytes \<Rightarrow> 'v option" where
  "Art_get t key = (case t of None \<Rightarrow> None | Some root \<Rightarrow> get_from root key 0)"

text \<open>The slot a removal works on: the first one of the byte that holds a child.\<close>

fun filled_slot :: "'v art_node \<Rightarrow> u8 \<Rightarrow> nat option" where
  "filled_slot (Node4 keys children n _) byte = find (\<lambda>i. keys ! i = byte \<and> children ! i \<noteq> None) [0..<n]"
| "filled_slot (Node16 keys children n _) byte = find (\<lambda>i. keys ! i = byte \<and> children ! i \<noteq> None) [0..<n]"
| "filled_slot node byte =
     (case slot_of node byte of
        Some i \<Rightarrow> if children_of node ! i \<noteq> None then Some i else None
      | None \<Rightarrow> None)"

function remove_rec :: "'v art_node \<Rightarrow> bytes \<Rightarrow> nat \<Rightarrow> 'v option \<times> 'v art_node" where
  "remove_rec (Leaf leaf_key value) key depth = (if leaf_key = key then Some value else None, Leaf leaf_key value)"
| "\<not> (\<exists>k v. node = Leaf k v) \<Longrightarrow> remove_rec node key depth =
     (case byte_at key depth of
        None \<Rightarrow> take_node_val node
      | Some byte \<Rightarrow>
          (case filled_slot node byte of
             None \<Rightarrow> (None, node)
           | Some i \<Rightarrow>
               (case children_of node ! i of
                  None \<Rightarrow> (None, node)
                | Some child \<Rightarrow>
                    (case child of
                       Leaf leaf_key value \<Rightarrow>
                         if leaf_key = key then (Some value, take_child byte i node)
                         else (None, node)
                     | _ \<Rightarrow>
                         (case remove_rec child key (depth + 1) of
                            (old, child') \<Rightarrow> (old, with_children ((children_of node)[i := Some child']) node))))))"
  by (metis prod.exhaust) auto
termination
  by (relation "measure (\<lambda>(node, key, depth). length key - depth)")
    (auto simp: byte_at_def split: if_splits)

definition Art_remove :: "bytes \<Rightarrow> 'v art_tree \<Rightarrow> 'v option \<times> 'v art_tree" where
  "Art_remove key t =
     (case t of
        None \<Rightarrow> (None, None)
      | Some (Leaf leaf_key value) \<Rightarrow> if leaf_key = key then (Some value, None) else (None, t)
      | Some root \<Rightarrow> apsnd Some (remove_rec root key 0))"

section \<open>Prefix collection\<close>

definition has_prefix :: "bytes \<Rightarrow> bytes \<Rightarrow> bool" where
  "has_prefix key pre \<longleftrightarrow> take (length pre) key = pre"

definition val_list :: "(bytes \<times> 'v) option \<Rightarrow> (bytes \<times> 'v) list" where
  "val_list val = (case val of None \<Rightarrow> [] | Some kv \<Rightarrow> [kv])"

text \<open>
  The children of a node in the order the code visits them: the first \<open>n\<close> of the small
  kinds, the slots of the bytes in order, or the whole array.
\<close>

fun ordered_children :: "'v art_node \<Rightarrow> 'v art_node list" where
  "ordered_children (Node4 keys children n val) = concat (map (\<lambda>c. case c of None \<Rightarrow> [] | Some c \<Rightarrow> [c]) (take n children))"
| "ordered_children (Node16 keys children n val) = concat (map (\<lambda>c. case c of None \<Rightarrow> [] | Some c \<Rightarrow> [c]) (take n children))"
| "ordered_children (Node48 index children n val) =
     concat (map (\<lambda>slot. if slot \<noteq> EMPTY_SLOT \<and> unat slot < length children
                         then (case children ! unat slot of None \<Rightarrow> [] | Some c \<Rightarrow> [c]) else []) index)"
| "ordered_children (Node256 children n val) = concat (map (\<lambda>c. case c of None \<Rightarrow> [] | Some c \<Rightarrow> [c]) children)"
| "ordered_children (Leaf k v) = []"

lemma size_child:
  assumes "Some c \<in> set cs"
  shows "size c < Suc (size_list (size_option size) cs)"
proof -
  have "size_option size (Some c) \<le> size_list (size_option size) cs"
    using assms by (rule size_list_estimation') simp
  then show ?thesis by simp
qed

lemma size_ordered_child: "c \<in> set (ordered_children node) \<Longrightarrow> size c < size node"
proof (induction node rule: ordered_children.induct)
  case (1 keys children n val)
  then have "Some c \<in> set children" by (auto split: option.splits dest: in_set_takeD)
  from size_child [OF this] show ?case by simp
next
  case (2 keys children n val)
  then have "Some c \<in> set children" by (auto split: option.splits dest: in_set_takeD)
  from size_child [OF this] show ?case by simp
next
  case (3 index children n val)
  then have "Some c \<in> set children" by (auto split: option.splits if_splits dest: nth_mem)
  from size_child [OF this] show ?case by simp
next
  case (4 children n val)
  then have "Some c \<in> set children" by (auto split: option.splits)
  from size_child [OF this] show ?case by simp
qed simp

function collect_all :: "'v art_node \<Rightarrow> (bytes \<times> 'v) list" where
  "collect_all (Leaf key value) = [(key, value)]"
| "\<not> (\<exists>k v. node = Leaf k v) \<Longrightarrow> collect_all node =
     val_list (get_node_val node) @ concat (map collect_all (ordered_children node))"
  by (metis) auto
termination
  by (relation "measure size") (auto simp: size_ordered_child)

text \<open>
  The children a prefix search descends into: every match of the small kinds, or the one
  child of the byte.
\<close>

fun matching_children :: "'v art_node \<Rightarrow> u8 \<Rightarrow> 'v art_node list" where
  "matching_children (Node4 keys children n val) byte =
     concat (map (\<lambda>i. if keys ! i = byte then (case children ! i of None \<Rightarrow> [] | Some c \<Rightarrow> [c]) else []) [0..<n])"
| "matching_children (Node16 keys children n val) byte =
     concat (map (\<lambda>i. if keys ! i = byte then (case children ! i of None \<Rightarrow> [] | Some c \<Rightarrow> [c]) else []) [0..<n])"
| "matching_children node byte =
     (case slot_of node byte of
        None \<Rightarrow> []
      | Some i \<Rightarrow> (case children_of node ! i of None \<Rightarrow> [] | Some c \<Rightarrow> [c]))"

function collect_prefix :: "'v art_node \<Rightarrow> bytes \<Rightarrow> nat \<Rightarrow> (bytes \<times> 'v) list" where
  "collect_prefix node pre depth =
     (if depth \<ge> length pre then collect_all node
      else
        filter (\<lambda>(k, v). has_prefix k pre) (val_list (get_node_val node)) @
        (case node of
           Leaf key value \<Rightarrow> if has_prefix key pre then [(key, value)] else []
         | _ \<Rightarrow> concat (map (\<lambda>c. collect_prefix c pre (depth + 1)) (matching_children node (pre ! depth)))))"
  by pat_completeness auto
termination
  by (relation "measure (\<lambda>(node, pre, depth). length pre - depth)") auto

definition Art_get_prefix :: "'v art_tree \<Rightarrow> bytes \<Rightarrow> (bytes \<times> 'v) list" where
  "Art_get_prefix t pre = (case t of None \<Rightarrow> [] | Some root \<Rightarrow> collect_prefix root pre 0)"

definition Art_snapshot :: "'v art_tree \<Rightarrow> (bytes \<times> 'v) list" where
  "Art_snapshot t = Art_get_prefix t []"

definition ArtSnapshot_get :: "(bytes \<times> 'v) list \<Rightarrow> bytes \<Rightarrow> 'v option" where
  "ArtSnapshot_get items key = map_option snd (find (\<lambda>(k, v). k = key) items)"

definition ArtSnapshot_get_prefix :: "(bytes \<times> 'v) list \<Rightarrow> bytes \<Rightarrow> (bytes \<times> 'v) list" where
  "ArtSnapshot_get_prefix items pre = filter (\<lambda>(k, v). has_prefix k pre) items"

section \<open>Evaluation\<close>

text \<open>The recursive functions in a form that evaluates.\<close>

lemma insert_rec_code [code]:
  "insert_rec node key value depth =
     (case node of
        Leaf leaf_key leaf_val \<Rightarrow>
          if leaf_key = key then Some (Some leaf_val, Leaf leaf_key value)
          else if byte_at leaf_key depth = byte_at key depth \<and> byte_at leaf_key depth \<noteq> None then
            map_option (\<lambda>(_, child). (None, add_child new_node4 (the (byte_at leaf_key depth)) child))
              (insert_rec (new_leaf leaf_key leaf_val) key value (depth + 1))
          else Some (None, split_leaf leaf_key leaf_val key value depth)
      | _ \<Rightarrow>
          (case byte_at key depth of
             None \<Rightarrow> Some (set_node_val key value node)
           | Some byte \<Rightarrow>
               (case slot_of node byte of
                  Some i \<Rightarrow>
                    (case children_of node ! i of
                       None \<Rightarrow> None
                     | Some child \<Rightarrow>
                         map_option (\<lambda>(old, child'). (old, with_children ((children_of node)[i := Some child']) node))
                           (insert_rec child key value (depth + 1)))
                | None \<Rightarrow> Some (None, add_new byte (new_leaf key value) node))))"
  by (cases node; hypsubst_thin; simp)

lemma get_from_code [code]:
  "get_from node key depth =
     (case node of
        Leaf leaf_key value \<Rightarrow> if leaf_key = key then Some value else None
      | _ \<Rightarrow>
          (case byte_at key depth of
             None \<Rightarrow> map_option snd (get_node_val node)
           | Some byte \<Rightarrow>
               (case slot_of node byte of
                  None \<Rightarrow> None
                | Some i \<Rightarrow>
                    (case children_of node ! i of None \<Rightarrow> None | Some child \<Rightarrow> get_from child key (depth + 1)))))"
  by (cases node; hypsubst_thin; simp)

lemma remove_rec_code [code]:
  "remove_rec node key depth =
     (case node of
        Leaf leaf_key value \<Rightarrow> (if leaf_key = key then Some value else None, node)
      | _ \<Rightarrow>
          (case byte_at key depth of
             None \<Rightarrow> take_node_val node
           | Some byte \<Rightarrow>
               (case filled_slot node byte of
                  None \<Rightarrow> (None, node)
                | Some i \<Rightarrow>
                    (case children_of node ! i of
                       None \<Rightarrow> (None, node)
                     | Some child \<Rightarrow>
                         (case child of
                            Leaf leaf_key value \<Rightarrow>
                              if leaf_key = key then (Some value, take_child byte i node)
                              else (None, node)
                          | _ \<Rightarrow>
                              (case remove_rec child key (depth + 1) of
                                 (old, child') \<Rightarrow> (old, with_children ((children_of node)[i := Some child']) node)))))))"
  by (cases node; hypsubst_thin; simp)

lemma collect_all_code [code]:
  "collect_all node =
     (case node of
        Leaf key value \<Rightarrow> [(key, value)]
      | _ \<Rightarrow> val_list (get_node_val node) @ concat (map collect_all (ordered_children node)))"
  by (cases node; hypsubst_thin; simp)

end
