(* ===== verification/Art_Lookup.thy ===== *)
theory Art_Lookup
  imports Art
begin

text \<open>
  The radix tree against its abstraction, the partial map from keys to values. A node's
  children are seen through \<open>child_at\<close>, so that the four kinds behave alike; the structural
  invariant says what the kinds need for that. It comes in a strict form, in which the
  occupied slots of a \<open>Node48\<close> are the ones below its counter, which insertion relies on, and
  a weak form, which is all that removal keeps.
\<close>

section \<open>Shape of a node\<close>

text \<open>The occupied slots of a \<open>Node48\<close>: different bytes use different slots, all of them filled.\<close>

definition index_inj :: "u8 list \<Rightarrow> bool" where
  "index_inj index \<longleftrightarrow> (\<forall>a b :: u8. index ! unat a \<noteq> EMPTY_SLOT \<and> index ! unat a = index ! unat b \<longrightarrow> a = b)"

definition index_filled :: "nat \<Rightarrow> u8 list \<Rightarrow> 'v art_node option list \<Rightarrow> bool" where
  "index_filled bound index children \<longleftrightarrow>
     (\<forall>b :: u8. index ! unat b \<noteq> EMPTY_SLOT \<longrightarrow>
        unat (index ! unat b) < bound \<and> children ! unat (index ! unat b) \<noteq> None)"

lemma index_injD: "index_inj index \<Longrightarrow> index ! unat a \<noteq> EMPTY_SLOT \<Longrightarrow> index ! unat a = index ! unat b \<Longrightarrow> a = (b :: u8)"
  unfolding index_inj_def by blast

lemma index_filledD: "index_filled bound index children \<Longrightarrow> index ! unat (b :: u8) \<noteq> EMPTY_SLOT \<Longrightarrow>
    unat (index ! unat b) < bound \<and> children ! unat (index ! unat b) \<noteq> None"
  unfolding index_filled_def by blast

lemma index_filled_mono: "index_filled m index children \<Longrightarrow> m \<le> n \<Longrightarrow> index_filled n index children"
  unfolding index_filled_def by (meson less_le_trans)

fun node_shape :: "bool \<Rightarrow> 'v art_node \<Rightarrow> bool" where
  "node_shape strict (Node4 keys children n val) \<longleftrightarrow> length keys = 4 \<and> length children = 4 \<and> n \<le> 4 \<and>
     distinct (take n keys) \<and> (\<forall>i < n. children ! i \<noteq> None)"
| "node_shape strict (Node16 keys children n val) \<longleftrightarrow> length keys = 16 \<and> length children = 16 \<and> n \<le> 16 \<and>
     distinct (take n keys) \<and> (\<forall>i < n. children ! i \<noteq> None)"
| "node_shape strict (Node48 index children n val) \<longleftrightarrow> length index = 256 \<and> length children = 48 \<and> n \<le> 48 \<and>
     index_inj index \<and> index_filled (if strict then n else 48) index children"
| "node_shape strict (Node256 children n val) \<longleftrightarrow> length children = 256"
| "node_shape strict (Leaf k v) \<longleftrightarrow> False"

lemma shape_weaken: "node_shape True node \<Longrightarrow> node_shape s node"
  by (cases node) (auto intro: index_filled_mono)

definition child_at :: "'v art_node \<Rightarrow> u8 \<Rightarrow> 'v art_node option" where
  "child_at node b = (case slot_of node b of None \<Rightarrow> None | Some i \<Rightarrow> children_of node ! i)"

lemma unat_u8 [simp]: "unat (b :: u8) < 256"
  using unsigned_less [of b] by simp

lemma find_upt_None: "find P [0..<n] = None \<longleftrightarrow> (\<forall>i < n. \<not> P i)"
  by (auto simp: find_None_iff)

lemma find_upt_Some: "find P [0..<n] = Some i \<Longrightarrow> i < n \<and> P i"
  by (auto simp: find_Some_iff)

lemma find_key_Some: "find_key keys n b = Some i \<Longrightarrow> i < n \<and> keys ! i = b"
  unfolding find_key_def by (rule find_upt_Some)

lemma find_key_None: "find_key keys n b = None \<longleftrightarrow> (\<forall>i < n. keys ! i \<noteq> b)"
  unfolding find_key_def by (rule find_upt_None)

lemma find_key_nth:
  assumes "distinct (take n keys)" "n \<le> length keys" "i < n"
  shows "find_key keys n (keys ! i) = Some i"
proof (cases "find_key keys n (keys ! i)")
  case None
  then show ?thesis using assms(3) by (auto simp: find_key_None)
next
  case (Some j)
  then have j: "j < n" "keys ! j = keys ! i" using find_key_Some by auto
  have "take n keys ! i = take n keys ! j" using assms j by simp
  then have "i = j" using assms j nth_eq_iff_index_eq [OF assms(1), of i j] by simp
  with Some show ?thesis by simp
qed

lemma find_key_eq:
  assumes "distinct (take n keys)" "n \<le> length keys"
  shows "find_key keys n b = Some i \<longleftrightarrow> i < n \<and> keys ! i = b"
  using find_key_Some find_key_nth [OF assms] by blast

section \<open>Replacing a child\<close>

lemma slot_child: "node_shape s node \<Longrightarrow> slot_of node b = Some i \<Longrightarrow> i < length (children_of node) \<and> children_of node ! i \<noteq> None"
proof (cases node)
  case (Node48 index children n val)
  assume "node_shape s node" "slot_of node b = Some i"
  then show ?thesis using Node48 index_filledD [of "if s then n else 48" index children b]
    by (auto simp: Let_def split: if_splits)
qed (auto dest!: find_key_Some split: option.splits)

lemma slot_inj: "node_shape s node \<Longrightarrow> slot_of node a = Some i \<Longrightarrow> slot_of node b = Some i \<Longrightarrow> a = b"
proof (cases node)
  case (Node48 index children n val)
  assume "node_shape s node" "slot_of node a = Some i" "slot_of node b = Some i"
  then have "index_inj index" "index ! unat a \<noteq> EMPTY_SLOT" "unat (index ! unat a) = unat (index ! unat b)"
    using Node48 by (auto simp: Let_def split: if_splits)
  then show ?thesis using index_injD [of index a b] by (metis word_unat_eq_iff)
qed (auto simp: word_unat_eq_iff dest!: find_key_Some split: option.splits)

lemma index_filled_update: "index_filled m index children \<Longrightarrow> index_filled m index (children[i := Some c])"
  by (cases "i < length children") (auto simp: index_filled_def nth_list_update list_update_beyond)

lemma with_children_fields [simp]:
  "get_node_val (with_children cs node) = get_node_val node"
  "\<not> (\<exists>k v. node = Leaf k v) \<Longrightarrow> children_of (with_children cs node) = cs"
  by (cases node; simp)+

lemma set_child_spec:
  fixes node :: "'v art_node" and c
  assumes "node_shape s node" and "slot_of node b = Some i"
  defines "node' \<equiv> with_children ((children_of node)[i := Some c]) node"
  shows "node_shape s node'" and "child_at node' b' = (if b' = b then Some c else child_at node b')"
    and "get_node_val node' = get_node_val node"
proof -
  note i = slot_child [OF assms(1,2)]
  show "node_shape s node'" using assms i
    by (cases node) (auto simp: nth_list_update index_filled_update)
  have nl: "\<not> (\<exists>k v. node = Leaf k v)" using assms(1) by auto
  have slot: "slot_of node' b' = slot_of node b'"
    using assms i by (cases node) (auto simp: nth_list_update split: option.splits)
  show "child_at node' b' = (if b' = b then Some c else child_at node b')"
  proof (cases "slot_of node b'")
    case None
    then show ?thesis using slot assms(2) by (auto simp: child_at_def)
  next
    case (Some j)
    have "j = i \<longleftrightarrow> b' = b" using slot_inj [OF assms(1)] Some assms(2) by auto
    then show ?thesis using Some slot i nl
      by (cases "b' = b") (auto simp add: child_at_def node'_def nth_list_update)
  qed
  show "get_node_val node' = get_node_val node" by (simp add: node'_def)
qed

section \<open>Adding a child\<close>

lemma slot_None: "node_shape s node \<Longrightarrow> slot_of node b = None \<longleftrightarrow> child_at node b = None"
  using slot_child [of s node b] by (auto simp: child_at_def split: option.split)

lemma child_at_small:
  "child_at (Node4 keys children n val) b = (case find_key keys n b of None \<Rightarrow> None | Some i \<Rightarrow> children ! i)"
  "child_at (Node16 keys children n val) b = (case find_key keys n b of None \<Rightarrow> None | Some i \<Rightarrow> children ! i)"
  by (simp_all add: child_at_def split: option.split)

lemma child_at_48: "child_at (Node48 index children n val) b =
    (if index ! unat b \<noteq> EMPTY_SLOT then children ! unat (index ! unat b) else None)"
  by (simp add: child_at_def Let_def)

lemma child_at_256: "child_at (Node256 children n val) b = children ! unat b"
  by (simp add: child_at_def split: option.split)

lemma find_key_append:
  assumes "n < length keys"
  shows "find_key (keys[n := byte]) (Suc n) b = (case find_key keys n b of Some i \<Rightarrow> Some i | None \<Rightarrow> if b = byte then Some n else None)"
proof -
  have "find (\<lambda>i. keys[n := byte] ! i = b) [0..<n] = find_key keys n b"
    unfolding find_key_def by (rule find_cong) auto
  moreover have "find P (xs @ [y]) = (case find P xs of Some i \<Rightarrow> Some i | None \<Rightarrow> if P y then Some y else None)" for P and xs :: "nat list" and y
    by (induction xs) auto
  ultimately show ?thesis using assms by (auto simp: find_key_def split: option.split)
qed

lemma distinct_take_append:
  assumes "n < length keys" "distinct (take n keys)" "find_key keys n byte = None"
  shows "distinct (take (Suc n) (keys[n := byte]))"
proof -
  have "take (Suc n) (keys[n := byte]) = take n keys @ [byte]"
    using assms(1) by (simp add: take_Suc_conv_app_nth)
  moreover have "byte \<notin> set (take n keys)"
    using assms(1,3) by (auto simp: find_key_None in_set_conv_nth)
  ultimately show ?thesis using assms(2) by simp
qed

text \<open>The index built when a \<open>Node16\<close> grows.\<close>

lemma nth_grow16_base:
  assumes "distinct keys" "length keys = 16" "n \<le> 16"
  shows "fold (\<lambda>i index. index[unat (keys ! i) := of_nat i]) [0..<n] (replicate 256 EMPTY_SLOT) ! unat b
      = (case find_key keys n b of Some i \<Rightarrow> of_nat i | None \<Rightarrow> EMPTY_SLOT)"
  using assms(3)
proof (induction n)
  case 0
  then show ?case by (simp add: find_key_def)
next
  case (Suc n)
  let ?f = "fold (\<lambda>i index. index[unat (keys ! i) := of_nat i]) [0..<n] (replicate 256 EMPTY_SLOT)"
  have l: "length ?f = 256" by simp
  have "find_key keys (Suc n) b = (case find_key keys n b of Some i \<Rightarrow> Some i | None \<Rightarrow> if b = keys ! n then Some n else None)"
    using find_key_append [of n keys "keys ! n" b] Suc.prems assms(2) by simp
  moreover have "find_key keys n (keys ! n) = None"
    unfolding find_key_None using assms Suc.prems by (auto simp: nth_eq_iff_index_eq)
  ultimately show ?case using Suc l
    by (auto simp: nth_list_update word_unat_eq_iff [symmetric] split: option.split)
qed

lemma nth_grow16:
  assumes "distinct keys" "length keys = 16"
  shows "grow16 keys byte ! unat b =
    (if b = byte then 16 else case find_key keys 16 b of Some i \<Rightarrow> of_nat i | None \<Rightarrow> EMPTY_SLOT)"
  unfolding grow16_def using nth_grow16_base [OF assms order_refl, of b]
  by (auto simp: nth_list_update word_unat_eq_iff [symmetric])

lemma length_grow16 [simp]: "length (grow16 keys byte) = 256"
  by (simp add: grow16_def)

lemma find_key_Suc: "find_key keys (Suc n) b =
    (case find_key keys n b of Some i \<Rightarrow> Some i | None \<Rightarrow> if keys ! n = b then Some n else None)"
proof -
  have "find P (xs @ [y]) = (case find P xs of Some i \<Rightarrow> Some i | None \<Rightarrow> if P y then Some y else None)" for P and xs :: "nat list" and y
    by (induction xs) auto
  then show ?thesis by (simp add: find_key_def)
qed

lemma find_key_cong: "(\<And>i. i < n \<Longrightarrow> ks ! i = keys ! i) \<Longrightarrow> find_key ks n b = find_key keys n b"
  unfolding find_key_def by (rule find_cong) auto

text \<open>The array built when a \<open>Node48\<close> grows.\<close>

lemma grow48_fold:
  assumes "index_inj index" "index_filled 48 index children" "length children = 48" "k \<le> 256"
  defines "step \<equiv> \<lambda>b (out, children). let s = index ! b in
            if s \<noteq> EMPTY_SLOT then (out[b := children ! unat s], children[unat s := None])
            else (out, children)"
  shows "\<exists>out cs. fold step [0..<k] (replicate 256 None, children) = (out, cs) \<and>
    length out = 256 \<and> length cs = 48 \<and>
    (\<forall>b :: u8. out ! unat b = (if unat b < k \<and> index ! unat b \<noteq> EMPTY_SLOT then children ! unat (index ! unat b) else None)) \<and>
    (\<forall>b :: u8. k \<le> unat b \<and> index ! unat b \<noteq> EMPTY_SLOT \<longrightarrow> cs ! unat (index ! unat b) = children ! unat (index ! unat b))"
  using assms(4)
proof (induction k)
  case 0
  then show ?case using assms(3) by simp
next
  case (Suc k)
  then obtain out cs where IH: "fold step [0..<k] (replicate 256 None, children) = (out, cs)"
    "length out = 256" "length cs = 48"
    "\<And>b :: u8. out ! unat b = (if unat b < k \<and> index ! unat b \<noteq> EMPTY_SLOT then children ! unat (index ! unat b) else None)"
    "\<And>b :: u8. k \<le> unat b \<Longrightarrow> index ! unat b \<noteq> EMPTY_SLOT \<Longrightarrow> cs ! unat (index ! unat b) = children ! unat (index ! unat b)"
    by auto
  define kb :: u8 where "kb = of_nat k"
  have kb: "unat kb = k" using Suc.prems by (simp add: kb_def unat_of_nat)
  have fold: "fold step [0..<Suc k] (replicate 256 None, children) = step k (out, cs)" using IH(1) by simp
  show ?case
  proof (cases "index ! k = EMPTY_SLOT")
    case True
    have less: "unat b < Suc k \<longleftrightarrow> unat b < k \<or> b = kb" for b :: u8
      using kb by (auto simp: less_Suc_eq word_unat_eq_iff)
    show ?thesis
      unfolding fold by (intro exI [of _ out] exI [of _ cs]) (use True IH kb less in \<open>auto simp: step_def\<close>)
  next
    case False
    have slot: "unat (index ! k) < 48" using index_filledD [OF assms(2), of kb] False kb by simp
    have out: "(out[k := cs ! unat (index ! k)]) ! unat b =
      (if unat b < Suc k \<and> index ! unat b \<noteq> EMPTY_SLOT then children ! unat (index ! unat b) else None)" for b :: u8
    proof (cases "unat b = k")
      case True
      then show ?thesis using IH(2) IH(5) [of b] False Suc.prems by simp
    next
      case False
      then show ?thesis using IH(4) [of b] by (simp add: less_Suc_eq)
    qed
    have cs: "cs[unat (index ! k) := None] ! unat (index ! unat b) = children ! unat (index ! unat b)"
      if "Suc k \<le> unat b" "index ! unat b \<noteq> EMPTY_SLOT" for b :: u8
    proof -
      have "index ! unat b \<noteq> index ! k"
        using index_injD [OF assms(1), of b kb] that kb by auto
      then have "unat (index ! unat b) \<noteq> unat (index ! k)" by (simp add: word_unat_eq_iff)
      then show ?thesis using IH(5) [of b] that by simp
    qed
    show ?thesis unfolding fold
      by (intro exI [of _ "out[k := cs ! unat (index ! k)]"] exI [of _ "cs[unat (index ! k) := None]"])
        (use False IH(2,3) out cs in \<open>auto simp: step_def Let_def\<close>)
  qed
qed

lemma nth_grow48:
  assumes "index_inj index" "index_filled 48 index children" "length children = 48"
  shows "length (grow48 index children) = 256 \<and> grow48 index children ! unat (b :: u8) =
    (if index ! unat b \<noteq> EMPTY_SLOT then children ! unat (index ! unat b) else None)"
proof -
  from grow48_fold [OF assms order_refl] obtain out where "grow48 index children = out" "length out = 256"
    "\<forall>b :: u8. out ! unat b = (if unat b < 256 \<and> index ! unat b \<noteq> EMPTY_SLOT then children ! unat (index ! unat b) else None)"
    unfolding grow48_def by (metis (no_types, lifting) fst_conv)
  then show ?thesis by simp
qed

lemma EMPTY_SLOT_of_nat: "i < 255 \<Longrightarrow> (of_nat i :: u8) \<noteq> EMPTY_SLOT"
proof
  assume i: "i < 255" and "(of_nat i :: u8) = EMPTY_SLOT"
  then have "unat (of_nat i :: u8) = unat EMPTY_SLOT" by (rule_tac arg_cong)
  then show False using i by (simp add: EMPTY_SLOT_def unat_of_nat)
qed

lemma nth_grow:
  assumes "length xs = m"
  shows "(take m xs @ [y] @ r) ! i = (if i < m then xs ! i else if i = m then y else r ! (i - Suc m))"
  using assms by (auto simp: nth_append nth_Cons')

lemma find_key_grow:
  assumes "length keys = m"
  shows "find_key (take m keys @ [b] @ r) (Suc m) b' =
    (case find_key keys m b' of Some i \<Rightarrow> Some i | None \<Rightarrow> if b' = b then Some m else None)"
proof -
  have "find_key (take m keys @ [b] @ r) m b' = find_key keys m b'"
    by (rule find_key_cong) (simp only: nth_grow [OF assms] if_True)
  then show ?thesis unfolding find_key_Suc nth_grow [OF assms]
    by (auto split: option.split)
qed

lemma distinct_grow:
  assumes "length keys = m" "distinct keys" "find_key keys m b = None"
  shows "distinct (take (Suc m) (take m keys @ [b] @ r))"
proof -
  have "b \<notin> set keys" using assms by (auto simp: find_key_None in_set_conv_nth)
  moreover have "take (Suc m) (take m keys @ [b] @ r) = keys @ [b]" using assms(1) by simp
  ultimately show ?thesis using assms(2) by simp
qed

lemma add_new_4:
  assumes "node_shape True (Node4 keys children n val)" "find_key keys n b = None"
  shows "node_shape True (add_new b c (Node4 keys children n val)) \<and>
    (\<forall>b'. child_at (add_new b c (Node4 keys children n val)) b' =
       (if b' = b then Some c else child_at (Node4 keys children n val) b'))"
proof (cases "n < 4")
  case True
  have fk: "find_key (keys[n := b]) (Suc n) b' = (case find_key keys n b' of Some i \<Rightarrow> Some i | None \<Rightarrow> if b' = b then Some n else None)" for b'
    using True assms(1) by (intro find_key_append) simp
  have lt: "find_key keys n b' = Some i \<Longrightarrow> i < n" for b' i using find_key_Some by blast
  show ?thesis using True assms distinct_take_append [of n keys b] lt
    by (auto simp: child_at_small fk nth_list_update less_Suc_eq split: option.split)
next
  case False
  then have n: "n = 4" using assms(1) by simp
  let ?K = "take 4 keys @ [b] @ replicate 11 0" and ?C = "take 4 children @ [Some c] @ replicate 11 None"
  have "length keys = 4" using assms(1) by simp
  then have l: "length keys = 4" "length children = 4" "distinct keys" "\<forall>i < 4. children ! i \<noteq> None"
    using assms(1) n by simp_all
  have "add_new b c (Node4 keys children n val) = Node16 ?K ?C (Suc 4) val" using n by simp
  moreover have "child_at (Node16 ?K ?C (Suc 4) val) b' = (if b' = b then Some c else child_at (Node4 keys children n val) b')" for b'
    unfolding child_at_small find_key_grow [OF l(1)] nth_grow [OF l(2)] n
    using assms(2) n by (auto dest: find_key_Some split: option.split)
  moreover have "node_shape True (Node16 ?K ?C (Suc 4) val)"
    using distinct_grow [OF l(1,3) assms(2) [unfolded n]] l
    unfolding node_shape.simps nth_grow [OF l(2)] by (auto simp: less_Suc_eq)
  ultimately show ?thesis by metis
qed

lemma add_new_16:
  assumes "node_shape True (Node16 keys children n val)" "find_key keys n b = None"
  shows "node_shape True (add_new b c (Node16 keys children n val)) \<and>
    (\<forall>b'. child_at (add_new b c (Node16 keys children n val)) b' =
       (if b' = b then Some c else child_at (Node16 keys children n val) b'))"
proof (cases "n < 16")
  case True
  have fk: "find_key (keys[n := b]) (Suc n) b' = (case find_key keys n b' of Some i \<Rightarrow> Some i | None \<Rightarrow> if b' = b then Some n else None)" for b'
    using True assms(1) by (intro find_key_append) simp
  have lt: "find_key keys n b' = Some i \<Longrightarrow> i < n" for b' i using find_key_Some by blast
  show ?thesis using True assms distinct_take_append [of n keys b] lt
    by (auto simp: child_at_small fk nth_list_update less_Suc_eq split: option.split)
next
  case False
  then have n: "n = 16" using assms(1) by simp
  let ?I = "grow16 keys b" and ?C = "take 16 children @ [Some c] @ replicate 31 None"
  have "length keys = 16" using assms(1) by simp
  then have l: "length keys = 16" "length children = 16" "distinct keys" "\<forall>i < 16. children ! i \<noteq> None"
    using assms(1) n by simp_all
  have idx: "?I ! unat b' = (if b' = b then 16 else case find_key keys 16 b' of Some i \<Rightarrow> of_nat i | None \<Rightarrow> EMPTY_SLOT)" for b'
    by (rule nth_grow16 [OF l(3,1)])
  have slot: "?I ! unat b' \<noteq> EMPTY_SLOT \<longleftrightarrow> b' = b \<or> find_key keys 16 b' \<noteq> None" for b'
    unfolding idx using EMPTY_SLOT_of_nat [of 16]
    by (auto dest!: find_key_Some simp: EMPTY_SLOT_of_nat split: option.split)
  have pos: "unat (?I ! unat b') = (if b' = b then 16 else the (find_key keys 16 b'))" if "b' = b \<or> find_key keys 16 b' \<noteq> None" for b'
    unfolding idx using that
    by (cases "find_key keys 16 b'") (auto dest: find_key_Some simp: unat_of_nat)
  have lt: "find_key keys 16 b' = Some i \<Longrightarrow> i < 16 \<and> keys ! i = b'" for b' i using find_key_Some by blast
  have child: "child_at (Node48 ?I ?C 17 val) b' = (if b' = b then Some c else child_at (Node16 keys children n val) b')" for b'
    unfolding child_at_48 child_at_small slot nth_grow [OF l(2)] n
    using pos [of b'] lt [of b'] by (auto split: option.split)
  have "index_inj ?I" unfolding index_inj_def
  proof (intro allI impI, elim conjE)
    fix a a' :: u8
    assume a: "?I ! unat a \<noteq> EMPTY_SLOT" and e: "?I ! unat a = ?I ! unat a'"
    have "a = b \<or> find_key keys 16 a \<noteq> None" using a unfolding slot .
    moreover have "a' = b \<or> find_key keys 16 a' \<noteq> None" using a unfolding e slot .
    moreover have "unat (?I ! unat a) = unat (?I ! unat a')" using e by (rule arg_cong)
    ultimately have "(if a = b then 16 else the (find_key keys 16 a)) = (if a' = b then 16 else the (find_key keys 16 a'))"
      using pos [of a] pos [of a'] by argo
    then show "a = a'" using lt [of a] lt [of a'] \<open>a = b \<or> _\<close> \<open>a' = b \<or> _\<close> by (auto split: if_splits)
  qed
  moreover have "index_filled 17 ?I ?C" unfolding index_filled_def
  proof (intro allI impI)
    fix b' :: u8
    assume "?I ! unat b' \<noteq> EMPTY_SLOT"
    then have s: "b' = b \<or> find_key keys 16 b' \<noteq> None" using slot by simp
    then show "unat (?I ! unat b') < 17 \<and> ?C ! unat (?I ! unat b') \<noteq> None"
      unfolding nth_grow [OF l(2)] using pos [OF s] lt [of b'] l(4) by auto
  qed
  ultimately show ?thesis using child l n by simp
qed

lemma add_new_48:
  assumes "node_shape True (Node48 index children n val)" "index ! unat b = EMPTY_SLOT"
  shows "node_shape True (add_new b c (Node48 index children n val)) \<and>
    (\<forall>b'. child_at (add_new b c (Node48 index children n val)) b' =
       (if b' = b then Some c else child_at (Node48 index children n val) b'))"
proof -
  have l: "length index = 256" "length children = 48" "n \<le> 48" "index_inj index" "index_filled n index children"
    using assms(1) by simp_all
  have neq: "unat b' \<noteq> unat b \<longleftrightarrow> b' \<noteq> b" for b' by (simp add: word_unat_eq_iff)
  show ?thesis
  proof (cases "n < 48")
    case True
    let ?I = "index[unat b := of_nat n]" and ?C = "children[n := Some c]"
    have u: "unat (of_nat n :: u8) = n" "(of_nat n :: u8) \<noteq> EMPTY_SLOT"
      using True by (simp_all add: unat_of_nat EMPTY_SLOT_of_nat)
    have idx: "?I ! unat b' = (if b' = b then of_nat n else index ! unat b')" for b'
      using l(1) neq [of b'] by (auto simp: nth_list_update)
    have fill: "unat (index ! unat b') < n \<and> children ! unat (index ! unat b') \<noteq> None" if "index ! unat b' \<noteq> EMPTY_SLOT" for b' :: u8
      using index_filledD [OF l(5) that] .
    have old: "index ! unat b' \<noteq> of_nat n" if "index ! unat b' \<noteq> EMPTY_SLOT" for b' :: u8
      using fill [OF that] u(1) by auto
    have "index_inj ?I" unfolding index_inj_def idx
      using old u(2) index_injD [OF l(4)] by (auto split: if_splits) metis+
    moreover have "index_filled (Suc n) ?I ?C" unfolding index_filled_def idx
    proof (intro allI impI)
      fix b' :: u8
      assume "(if b' = b then of_nat n else index ! unat b') \<noteq> EMPTY_SLOT"
      then show "unat (if b' = b then of_nat n else index ! unat b') < Suc n \<and>
          ?C ! unat (if b' = b then of_nat n else index ! unat b') \<noteq> None"
        using fill [of b'] u(1) True l(2) by (cases "b' = b") auto
    qed
    moreover have "child_at (Node48 ?I ?C (Suc n) val) b' = (if b' = b then Some c else child_at (Node48 index children n val) b')" for b'
      unfolding child_at_48 idx using fill [of b'] u True l(2) by (cases "b' = b") auto
    ultimately show ?thesis using True l by simp
  next
    case False
    then have "index_filled 48 index children" using l(3,5) by simp
    note g = nth_grow48 [OF l(4) this l(2)]
    have "child_at (Node256 ((grow48 index children)[unat b := Some c]) 49 val) b' =
        (if b' = b then Some c else child_at (Node48 index children n val) b')" for b'
      using g [of b'] neq [of b'] unfolding child_at_256 child_at_48 by (cases "b' = b") simp_all
    then show ?thesis using False g by simp
  qed
qed

lemma add_new_spec:
  assumes "node_shape True node" "child_at node b = None"
  shows "node_shape True (add_new b c node)" "get_node_val (add_new b c node) = get_node_val node"
    "child_at (add_new b c node) b' = (if b' = b then Some c else child_at node b')"
proof -
  have s: "slot_of node b = None" using slot_None [OF assms(1)] assms(2) by simp
  have "node_shape True (add_new b c node) \<and> (\<forall>b'. child_at (add_new b c node) b' = (if b' = b then Some c else child_at node b'))"
  proof (cases node)
    case (Node256 children n val)
    then show ?thesis using assms
      by (auto simp: child_at_256 nth_list_update word_unat_eq_iff)
  next
    case (Node4 keys children n val)
    then show ?thesis using add_new_4 [of keys children n val b c] assms(1) s by simp
  next
    case (Node16 keys children n val)
    then show ?thesis using add_new_16 [of keys children n val b c] assms(1) s by simp
  next
    case (Node48 index children n val)
    have "index ! unat b = EMPTY_SLOT" using s Node48 by (simp add: Let_def split: if_splits)
    then show ?thesis using add_new_48 [of index children n val b c] assms(1) Node48 by simp
  qed (use assms(1) in simp)
  then show "node_shape True (add_new b c node)" "child_at (add_new b c node) b' = (if b' = b then Some c else child_at node b')"
    by simp_all
  show "get_node_val (add_new b c node) = get_node_val node" by (cases node) simp_all
qed

section \<open>The tree invariant\<close>

text \<open>
  Below the path \<open>p\<close> every key extends \<open>p\<close>, and the value stored in an inner node belongs to
  the key \<open>p\<close> itself. The invariant is stated for a class \<open>P\<close> of inner nodes and keys over a
  set \<open>A\<close> of bytes.
\<close>

inductive art_wf :: "('v art_node \<Rightarrow> bool) \<Rightarrow> u8 set \<Rightarrow> bytes \<Rightarrow> 'v art_node \<Rightarrow> bool" for P A where
  wf_leaf: "has_prefix k p \<Longrightarrow> set k \<subseteq> A \<Longrightarrow> art_wf P A p (Leaf k v)"
| wf_node: "P node \<Longrightarrow> \<not> (\<exists>k v. node = Leaf k v) \<Longrightarrow> (\<And>kv. get_node_val node = Some kv \<Longrightarrow> fst kv = p) \<Longrightarrow>
    (\<And>b c. child_at node b = Some c \<Longrightarrow> art_wf P A (p @ [b]) c) \<Longrightarrow> art_wf P A p node"

inductive_simps art_wf_Leaf [simp]: "art_wf P A p (Leaf k v)"

inductive_cases art_wfE: "art_wf P A p node"

lemma art_wf_node:
  assumes "art_wf P A p node" "\<not> (\<exists>k v. node = Leaf k v)"
  shows "P node" "get_node_val node = Some kv \<Longrightarrow> fst kv = p"
    "child_at node b = Some c \<Longrightarrow> art_wf P A (p @ [b]) c"
  using assms by (auto elim: art_wfE)

lemma art_wf_mono:
  assumes "art_wf P A p node" "\<And>n. P n \<Longrightarrow> Q n" "A \<subseteq> B"
  shows "art_wf Q B p node"
  using assms(1) by induction (use assms(2,3) in \<open>auto intro: art_wf.intros\<close>)

lemma shape_not_leaf: "node_shape s node \<Longrightarrow> \<not> (\<exists>k v. node = Leaf k v)"
  by auto

lemma get_from_node:
  "\<not> (\<exists>k v. node = Leaf k v) \<Longrightarrow> get_from node key depth =
     (case byte_at key depth of
        None \<Rightarrow> map_option snd (get_node_val node)
      | Some b \<Rightarrow> (case child_at node b of None \<Rightarrow> None | Some c \<Rightarrow> get_from c key (depth + 1)))"
  by (simp add: child_at_def split: option.split)

lemma prefix_step: "has_prefix k p \<Longrightarrow> byte_at k (length p) = Some b \<Longrightarrow> has_prefix k (p @ [b])"
  by (auto simp: has_prefix_def byte_at_def take_Suc_conv_app_nth split: if_splits)

lemma prefix_end: "has_prefix k p \<Longrightarrow> byte_at k (length p) = None \<Longrightarrow> k = p"
  by (auto simp: has_prefix_def byte_at_def split: if_splits)

lemma new_node4_spec [simp]:
  "node_shape True new_node4" "child_at new_node4 b = None" "get_node_val new_node4 = None"
  by (simp_all add: new_node4_def child_at_def find_key_def)

lemma replace_val_spec [simp]:
  "node_shape s (replace_node_val val node) = node_shape s node"
  "child_at (replace_node_val val node) b = child_at node b"
  "node_shape True node \<Longrightarrow> get_node_val (replace_node_val val node) = val"
  "node_shape False node \<Longrightarrow> get_node_val (replace_node_val val node) = val"
  by (cases node; simp add: child_at_def split: option.split)+

lemma add_child_first:
  "add_child new_node4 b c = add_new b c new_node4"
  "add_child (snd (set_node_val k v new_node4)) b c = add_new b c (snd (set_node_val k v new_node4))"
  "add_child (add_new b' c' new_node4) b c = add_new b c (add_new b' c' new_node4)"
  by (simp_all add: new_node4_def set_node_val_def)

lemma split_leaf_spec:
  assumes "byte_at old_key d \<noteq> byte_at key d"
  shows "node_shape True (split_leaf old_key old_val key val d)"
    "child_at (split_leaf old_key old_val key val d) b =
      (if byte_at old_key d = Some b then Some (Leaf old_key old_val)
       else if byte_at key d = Some b then Some (Leaf key val) else None)"
    "get_node_val (split_leaf old_key old_val key val d) =
      (if byte_at old_key d = None then Some (old_key, old_val)
       else if byte_at key d = None then Some (key, val) else None)"
proof -
  let ?e = "new_node4 :: 'a art_node"
  consider (old_end) y where "byte_at old_key d = None" "byte_at key d = Some y"
    | (new_end) x where "byte_at old_key d = Some x" "byte_at key d = None"
    | (fork) x y where "byte_at old_key d = Some x" "byte_at key d = Some y" "x \<noteq> y"
    using assms by (cases "byte_at old_key d"; cases "byte_at key d") auto
  note cases = this
  have eqs: "byte_at old_key d = None \<Longrightarrow> byte_at key d = Some y \<Longrightarrow>
      split_leaf old_key old_val key val d = add_new y (Leaf key val) (replace_node_val (Some (old_key, old_val)) ?e)"
    "byte_at old_key d = Some x \<Longrightarrow> byte_at key d = None \<Longrightarrow>
      split_leaf old_key old_val key val d = replace_node_val (Some (key, val)) (add_new x (Leaf old_key old_val) ?e)"
    "byte_at old_key d = Some x \<Longrightarrow> byte_at key d = Some y \<Longrightarrow>
      split_leaf old_key old_val key val d = add_new y (Leaf key val) (add_new x (Leaf old_key old_val) ?e)" for x y
    by (simp_all add: split_leaf_def add_child_first new_leaf_def set_node_val_def)
      (simp add: new_node4_def)
  note specs = add_new_spec [of "replace_node_val (Some (old_key, old_val)) ?e"] add_new_spec [of ?e]
    add_new_spec [of "add_new x c ?e" for x c]
  show "node_shape True (split_leaf old_key old_val key val d)"
    using cases by cases (simp_all add: eqs specs)
  show "child_at (split_leaf old_key old_val key val d) b =
      (if byte_at old_key d = Some b then Some (Leaf old_key old_val)
       else if byte_at key d = Some b then Some (Leaf key val) else None)"
    using cases by cases (auto simp: eqs specs)
  show "get_node_val (split_leaf old_key old_val key val d) =
      (if byte_at old_key d = None then Some (old_key, old_val)
       else if byte_at key d = None then Some (key, val) else None)"
    using cases by cases (simp_all add: eqs specs)
qed

text \<open>What an insertion below the path \<open>p\<close> makes of a node.\<close>

definition inserted ::
  "('v art_node \<Rightarrow> bool) \<Rightarrow> u8 set \<Rightarrow> bytes \<Rightarrow> nat \<Rightarrow> bytes \<Rightarrow> 'v \<Rightarrow> 'v art_node \<Rightarrow> 'v art_node \<Rightarrow> bool" where
  "inserted P A p depth key val node node' \<longleftrightarrow> art_wf P A p node' \<and>
     (\<forall>k. has_prefix k p \<longrightarrow> get_from node' k depth = (if k = key then Some val else get_from node k depth))"

text \<open>What insertion needs of the class of inner nodes.\<close>

locale insert_class =
  fixes P :: "'v art_node \<Rightarrow> bool" and A :: "u8 set"
  assumes P_shape: "P node \<Longrightarrow> node_shape True node"
    and P_new: "P new_node4"
    and P_val: "P node \<Longrightarrow> P (replace_node_val val node)"
    and P_child: "P node \<Longrightarrow> slot_of node b = Some i \<Longrightarrow> P (with_children ((children_of node)[i := Some c]) node)"
    and P_add: "P node \<Longrightarrow> child_at node b = None \<Longrightarrow> b \<in> A \<Longrightarrow> P (add_new b c node)"
begin

lemmas wf_inner = wf_node [where P = P and A = A]

lemma P_not_leaf: "P node \<Longrightarrow> \<not> (\<exists>k v. node = Leaf k v)"
  using P_shape shape_not_leaf by blast

lemma byte_in: "set key \<subseteq> A \<Longrightarrow> byte_at key d = Some b \<Longrightarrow> b \<in> A"
  by (auto simp: byte_at_def split: if_splits dest: nth_mem)

lemma P_split_leaf:
  assumes "byte_at old_key d \<noteq> byte_at key d" "set old_key \<subseteq> A" "set key \<subseteq> A"
  shows "P (split_leaf old_key old_val key val d)"
proof -
  have add: "b \<in> A \<Longrightarrow> P (add_new b c new_node4)" for b c
    using P_new by (rule P_add) simp_all
  have 1: "b \<in> A \<Longrightarrow> P (add_new b c (replace_node_val v new_node4))" for b c v
    using P_val [OF P_new] by (rule P_add) simp_all
  have 2: "b \<in> A \<Longrightarrow> b' \<in> A \<Longrightarrow> b \<noteq> b' \<Longrightarrow> P (add_new b c (add_new b' c' new_node4))" for b b' c c'
    by (rule P_add [OF add]) (simp_all add: add_new_spec)
  have first: "add_child (replace_node_val v new_node4) b c = add_new b c (replace_node_val v new_node4)"
    for b c and v :: "(bytes \<times> 'v) option" by (simp add: new_node4_def)
  show ?thesis
    using assms(1) byte_in [OF assms(2)] byte_in [OF assms(3)] 1 2 P_val [OF add]
    by (cases "byte_at old_key d"; cases "byte_at key d")
      (auto simp: split_leaf_def first add_child_first set_node_val_def)
qed

lemma split_leaf_inserted:
  assumes "has_prefix lk p" "has_prefix key p" "length p = depth" "set lk \<subseteq> A" "set key \<subseteq> A" "lk \<noteq> key"
    and "byte_at lk depth \<noteq> byte_at key depth"
  shows "inserted P A p depth key val (Leaf lk lv) (split_leaf lk lv key val depth)"
proof -
  let ?n = "split_leaf lk lv key val depth"
  note n = split_leaf_spec [OF assms(7), of lv val]
  have nl: "\<not> (\<exists>k v. ?n = Leaf k v)" using n(1) by (rule shape_not_leaf)
  have "art_wf P A p ?n"
  proof (rule wf_inner [OF P_split_leaf [OF assms(7,4,5)] nl])
    show "fst kv = p" if "get_node_val ?n = Some kv" for kv
      using that n(3) prefix_end [of lk p] prefix_end [of key p] assms(1-3) by (auto split: if_splits)
    show "art_wf P A (p @ [b]) c" if "child_at ?n b = Some c" for b c
      using that n(2) prefix_step [of lk p] prefix_step [of key p] assms(1-5) by (auto split: if_splits)
  qed
  moreover have "get_from ?n k depth = (if k = key then Some val else get_from (Leaf lk lv) k depth)"
    if k: "has_prefix k p" for k
    using get_from_node [OF nl, of k depth] n(2,3) assms(6,7) prefix_end [of _ p] k assms(1-3)
    by (cases "byte_at k depth") (auto split: if_splits)
  ultimately show ?thesis by (simp add: inserted_def)
qed

lemma new_level_inserted:
  assumes b: "byte_at lk depth = Some b" "byte_at key depth = Some b" and d: "length p = depth" and kA: "set key \<subseteq> A"
    and c: "inserted P A (p @ [b]) (depth + 1) key val (Leaf lk lv) child"
  shows "inserted P A p depth key val (Leaf lk lv) (add_new b child new_node4)"
proof -
  let ?n = "add_new b child new_node4"
  have n: "P ?n" "get_node_val ?n = None" "child_at ?n b' = (if b' = b then Some child else None)" for b'
    using P_add [OF P_new new_node4_spec(2)] byte_in [OF kA b(2)] by (simp_all add: add_new_spec)
  have nl: "\<not> (\<exists>k v. ?n = Leaf k v)" using n(1) by (rule P_not_leaf)
  have "art_wf P A p ?n"
  proof (rule wf_inner [OF n(1) nl])
    show "fst kv = p" if "get_node_val ?n = Some kv" for kv using that n(2) by simp
    show "art_wf P A (p @ [b']) c'" if "child_at ?n b' = Some c'" for b' c'
      using that n(3) c by (simp add: inserted_def split: if_splits)
  qed
  moreover have "get_from ?n k depth = (if k = key then Some val else get_from (Leaf lk lv) k depth)"
    if k: "has_prefix k p" for k
  proof (cases "byte_at k depth = Some b")
    case True
    then show ?thesis using c prefix_step [OF k] d n(3) [of b] get_from_node [OF nl] by (simp add: inserted_def)
  next
    case False
    then have "k \<noteq> lk" "k \<noteq> key" using b by auto
    then show ?thesis using False n get_from_node [OF nl] by (auto split: option.split)
  qed
  ultimately show ?thesis by (simp add: inserted_def)
qed

lemma own_value_inserted:
  assumes wf: "art_wf P A p node" and nl: "\<not> (\<exists>k v. node = Leaf k v)" and d: "length p = depth" and kp: "has_prefix key p"
    and None: "byte_at key depth = None"
  shows "inserted P A p depth key val node (replace_node_val (Some (key, val)) node)"
proof -
  note w = art_wf_node [OF wf nl]
  note sh = P_shape [OF w(1)]
  have key: "key = p" using prefix_end kp d None by auto
  let ?n = "replace_node_val (Some (key, val)) node"
  have "P ?n" using w(1) by (rule P_val)
  then have n: "P ?n" "\<not> (\<exists>k v. ?n = Leaf k v)" using P_not_leaf by blast+
  have "art_wf P A p ?n" by (rule wf_inner [OF n]) (use w sh key in \<open>auto\<close>)
  moreover have "get_from ?n k depth = (if k = key then Some val else get_from node k depth)" if "has_prefix k p" for k
    using get_from_node [OF n(2), of k depth] get_from_node [OF nl, of k depth] None prefix_end [OF that] key sh d
    by (cases "byte_at k depth") auto
  ultimately show ?thesis by (simp add: inserted_def)
qed

lemma new_child_inserted:
  assumes wf: "art_wf P A p node" and nl: "\<not> (\<exists>k v. node = Leaf k v)" and d: "length p = depth" and kp: "has_prefix key p"
    and kA: "set key \<subseteq> A" and b: "byte_at key depth = Some b" and None: "child_at node b = None"
  shows "inserted P A p depth key val node (add_new b (new_leaf key val) node)"
proof -
  note w = art_wf_node [OF wf nl]
  note s = add_new_spec [OF P_shape [OF w(1)] None]
  let ?n = "add_new b (new_leaf key val) node"
  have nl': "\<not> (\<exists>k v. ?n = Leaf k v)" using s(1) by (rule shape_not_leaf)
  have "art_wf P A p ?n"
    by (rule wf_inner [OF P_add [OF w(1) None byte_in [OF kA b]] nl'])
      (use s(2,3) w prefix_step [OF kp, of b] kA b d in \<open>auto simp: new_leaf_def split: if_splits\<close>)
  moreover have "get_from ?n k depth = (if k = key then Some val else get_from node k depth)" if "has_prefix k p" for k
    using get_from_node [OF nl', of k depth] get_from_node [OF nl, of k depth] s(2,3) b None
    by (auto simp: new_leaf_def split: option.split)
  ultimately show ?thesis by (simp add: inserted_def)
qed

lemma old_child_inserted:
  assumes wf: "art_wf P A p node" and nl: "\<not> (\<exists>k v. node = Leaf k v)" and d: "length p = depth"
    and b: "byte_at key depth = Some b" and Some: "child_at node b = Some c" and i: "slot_of node b = Some i"
    and c': "inserted P A (p @ [b]) (depth + 1) key val c c'"
  shows "inserted P A p depth key val node (with_children ((children_of node)[i := Some c']) node)"
proof -
  note w = art_wf_node [OF wf nl]
  let ?n = "with_children ((children_of node)[i := Some c']) node"
  note s = set_child_spec [OF P_shape [OF w(1)] i, of c']
  have nl': "\<not> (\<exists>k v. ?n = Leaf k v)" using s(1) by (rule shape_not_leaf)
  have "art_wf P A p ?n"
    by (rule wf_inner [OF P_child [OF w(1) i] nl']) (use s(2,3) w c' in \<open>auto simp: inserted_def split: if_splits\<close>)
  moreover have "get_from ?n k depth = (if k = key then Some val else get_from node k depth)" if k: "has_prefix k p" for k
    using get_from_node [OF nl', of k depth] get_from_node [OF nl, of k depth] s(2,3) Some b c' prefix_step [OF k] d
    by (auto simp: inserted_def split: option.split)
  ultimately show ?thesis by (simp add: inserted_def)
qed

lemma insert_rec_inserted:
  assumes "art_wf P A p node" "length p = depth" "has_prefix key p" "set key \<subseteq> A"
  shows "\<exists>node'. insert_rec node key val depth = Some (get_from node key depth, node') \<and> inserted P A p depth key val node node'"
  using assms
proof (induction node key val depth arbitrary: p rule: insert_rec.induct)
  case (1 lk lv key val depth)
  have wf: "has_prefix lk p" and lA: "set lk \<subseteq> A" using 1(2) by simp_all
  note d = 1(3) and kp = 1(4) and kA = 1(5)
  consider "lk = key" | "lk \<noteq> key" "byte_at lk depth = byte_at key depth" "byte_at lk depth \<noteq> None"
    | "lk \<noteq> key" "byte_at lk depth \<noteq> byte_at key depth"
    using prefix_end [of lk p] prefix_end [of key p] wf kp d by metis
  then show ?case
  proof cases
    case 1
    then show ?thesis using wf lA by (simp add: inserted_def)
  next
    case 2
    then obtain b where b: "byte_at lk depth = Some b" "byte_at key depth = Some b" by auto
    have pre: "has_prefix lk (p @ [b])" "has_prefix key (p @ [b])"
      using prefix_step wf kp b d by auto
    have "art_wf P A (p @ [b]) (new_leaf lk lv)" "length (p @ [b]) = depth + 1"
      using pre(1) d lA by (simp_all add: new_leaf_def)
    from 1(1) [OF 2(1) conjI [OF 2(2,3)] this pre(2) kA] obtain child where c:
      "insert_rec (Leaf lk lv) key val (depth + 1) = Some (get_from (Leaf lk lv) key (depth + 1), child)"
      "inserted P A (p @ [b]) (depth + 1) key val (Leaf lk lv) child"
      unfolding new_leaf_def by blast
    then show ?thesis using 2 b new_level_inserted [OF b d kA c(2)] by (simp add: add_child_first new_leaf_def)
  next
    case 3
    then show ?thesis using split_leaf_inserted [OF wf kp d lA kA 3, of val lv] by simp
  qed
next
  case (2 node key val depth)
  note nl = 2(1) and wf = 2(3) and d = 2(4) and kp = 2(5) and kA = 2(6)
  note sh = P_shape [OF art_wf_node(1) [OF wf nl]]
  note step = insert_rec.simps(2) [OF nl] get_from_node [OF nl, of key depth]
  consider (val) "byte_at key depth = None"
    | (fresh) b where "byte_at key depth = Some b" "child_at node b = None"
    | (old) b c where "byte_at key depth = Some b" "child_at node b = Some c" by (meson not_Some_eq)
  then show ?case
  proof cases
    case val
    then show ?thesis using own_value_inserted [OF wf nl d kp val] by (simp add: step set_node_val_def)
  next
    case (fresh b)
    have "slot_of node b = None" using slot_None [OF sh] fresh(2) by simp
    then show ?thesis using fresh new_child_inserted [OF wf nl d kp kA fresh] by (simp add: step)
  next
    case (old b c)
    obtain i where i: "slot_of node b = Some i" "children_of node ! i = Some c"
      using old(2) by (auto simp: child_at_def split: option.splits)
    have "art_wf P A (p @ [b]) c" using art_wf_node(3) [OF wf nl] old(2) .
    with 2(2) [OF old(1) i this] prefix_step [OF kp, of b] kA d old(1)
    obtain c' where c': "insert_rec c key val (depth + 1) = Some (get_from c key (depth + 1), c')"
      "inserted P A (p @ [b]) (depth + 1) key val c c'" by auto
    show ?thesis using old i c'(1) old_child_inserted [OF wf nl d old i(1) c'(2)] by (simp add: step)
  qed
qed

lemma insert_rec_correct:
  assumes "art_wf P A p node" "length p = depth" "has_prefix key p" "set key \<subseteq> A"
  shows "\<exists>node'. insert_rec node key val depth = Some (get_from node key depth, node') \<and> art_wf P A p node' \<and>
    (\<forall>k. has_prefix k p \<longrightarrow> get_from node' k depth = (if k = key then Some val else get_from node k depth))"
  using insert_rec_inserted [OF assms] unfolding inserted_def .

end

end
