(* ===== verification/Art_Remove.thy ===== *)
theory Art_Remove
  imports Art_Lookup
begin

text \<open>
  Removal from the radix tree, and what a sequence of insertions followed by removals leaves:
  the map with the removed keys taken out.
\<close>

section \<open>Removing a child\<close>

lemma shift_down_spec:
  assumes "i < n" "n \<le> length keys" "length children = length keys"
  shows "\<exists>ks cs. shift_down i n keys children = (ks, cs) \<and> length ks = length keys \<and> length cs = length keys \<and>
    (\<forall>j < n - 1. ks ! j = keys ! (if j < i then j else j + 1) \<and> cs ! j = children ! (if j < i then j else j + 1))"
proof -
  let ?step = "\<lambda>j (keys, children). (keys[j := keys ! (j + 1)], (children[j := children ! (j + 1)])[j + 1 := None])"
  have "m \<le> n - 1 \<Longrightarrow> i \<le> m \<Longrightarrow> \<exists>ks cs. fold ?step [i..<m] (keys, children[i := None]) = (ks, cs) \<and>
      length ks = length keys \<and> length cs = length keys \<and>
      (\<forall>j < length keys. ks ! j = keys ! (if i \<le> j \<and> j < m then j + 1 else j) \<and>
         cs ! j = (if j = m then None else children ! (if i \<le> j \<and> j < m then j + 1 else j)))" for m
  proof (induction m)
    case 0
    then show ?case using assms by (auto simp: nth_list_update)
  next
    case (Suc m)
    show ?case
    proof (cases "i = Suc m")
      case True
      then show ?thesis using assms by (auto simp: nth_list_update)
    next
      case False
      with Suc obtain ks cs where IH: "fold ?step [i..<m] (keys, children[i := None]) = (ks, cs)"
        "length ks = length keys" "length cs = length keys"
        "\<forall>j < length keys. ks ! j = keys ! (if i \<le> j \<and> j < m then j + 1 else j) \<and>
           cs ! j = (if j = m then None else children ! (if i \<le> j \<and> j < m then j + 1 else j))" by auto
      have m: "i \<le> m" "Suc m < length keys" using Suc.prems False assms by auto
      then have "fold ?step [i..<Suc m] (keys, children[i := None]) = ?step m (ks, cs)" using IH(1) by simp
      then show ?thesis using IH(2,3,4) m by (auto simp: nth_list_update less_Suc_eq)
    qed
  qed
  note fold = this
  have "i \<le> n - 1" using assms(1) by simp
  from fold [OF order_refl this] obtain ks cs where f: "shift_down i n keys children = (ks, cs)"
    "length ks = length keys" "length cs = length keys"
    "\<forall>j < length keys. ks ! j = keys ! (if i \<le> j \<and> j < n - 1 then j + 1 else j) \<and>
         cs ! j = (if j = n - 1 then None else children ! (if i \<le> j \<and> j < n - 1 then j + 1 else j))"
    unfolding shift_down_def by blast
  have "ks ! j = keys ! (if j < i then j else j + 1) \<and> cs ! j = children ! (if j < i then j else j + 1)"
    if j: "j < n - 1" for j
  proof -
    have "j < length keys" "i \<le> j \<and> j < n - 1 \<longleftrightarrow> \<not> j < i" "j \<noteq> n - 1" using j assms(2) by auto
    then show ?thesis using f(4) by simp
  qed
  then show ?thesis using f(1,2,3) by blast
qed

lemma find_key_shift:
  assumes "distinct (take n keys)" "n \<le> length keys" "i < n" "keys ! i = b"
    and ks: "length ks = length keys" "\<forall>j < n - 1. ks ! j = keys ! (if j < i then j else j + 1)"
  shows "distinct (take (n - 1) ks)"
    and "find_key ks (n - 1) b' = (if b' = b then None else
      case find_key keys n b' of None \<Rightarrow> None | Some j \<Rightarrow> Some (if j < i then j else j - 1))"
proof -
  have inj: "keys ! x = keys ! y \<longleftrightarrow> x = y" if "x < n" "y < n" for x y
    using nth_eq_iff_index_eq [OF assms(1), of x y] that assms(2) by simp
  show d: "distinct (take (n - 1) ks)" unfolding distinct_conv_nth
    using ks assms(2) by (auto simp: inj split: if_splits)
  show "find_key ks (n - 1) b' = (if b' = b then None else
      case find_key keys n b' of None \<Rightarrow> None | Some j \<Rightarrow> Some (if j < i then j else j - 1))"
  proof (cases "find_key keys n b'")
    case None
    then have "ks ! x \<noteq> b'" if "x < n - 1" for x
      using ks(2) that unfolding find_key_None by (cases "x < i") auto
    then have "find_key ks (n - 1) b' = None" by (simp add: find_key_None)
    then show ?thesis using None by simp
  next
    case (Some j)
    then have j: "j < n" "keys ! j = b'" using find_key_Some by auto
    show ?thesis
    proof (cases "b' = b")
      case True
      then have "j = i" using inj [of j i] j assms(3,4) by simp
      have "ks ! x \<noteq> b" if "x < n - 1" for x
      proof -
        have "(if x < i then x else x + 1) < n" "(if x < i then x else x + 1) \<noteq> i" using that by auto
        then have "keys ! (if x < i then x else x + 1) \<noteq> keys ! i" using inj assms(3) by blast
        then show ?thesis using ks(2) that assms(4) by metis
      qed
      then show ?thesis using True by (simp add: find_key_None)
    next
      case False
      then have "j \<noteq> i" using j assms(4) by auto
      then have "(if j < i then j else j - 1) < n - 1" "ks ! (if j < i then j else j - 1) = b'"
        using j ks(2) assms(3) by auto
      then show ?thesis using False Some find_key_eq [OF d, of b' "if j < i then j else j - 1"] ks(1) assms(2) by simp
    qed
  qed
qed

lemma take_child_small:
  assumes "distinct (take n keys)" "n \<le> length keys" "length children = length keys"
    "\<forall>j < n. children ! j \<noteq> None" "find_key keys n b = Some i"
  shows "\<exists>ks cs. shift_down i n keys children = (ks, cs) \<and> length ks = length keys \<and> length cs = length keys \<and>
    distinct (take (n - 1) ks) \<and> (\<forall>j < n - 1. cs ! j \<noteq> None) \<and>
    (\<forall>b'. (case find_key ks (n - 1) b' of None \<Rightarrow> None | Some j \<Rightarrow> cs ! j) =
      (if b' = b then None else case find_key keys n b' of None \<Rightarrow> None | Some j \<Rightarrow> children ! j))"
proof -
  have i: "i < n" "keys ! i = b" using find_key_Some [OF assms(5)] by auto
  obtain ks cs where s: "shift_down i n keys children = (ks, cs)" "length ks = length keys" "length cs = length keys"
    "\<forall>j < n - 1. ks ! j = keys ! (if j < i then j else j + 1)"
    "\<forall>j < n - 1. cs ! j = children ! (if j < i then j else j + 1)"
    using shift_down_spec [OF i(1) assms(2,3)] by auto
  note f = find_key_shift [OF assms(1,2) i s(2,4)]
  have "\<forall>j < n - 1. cs ! j \<noteq> None" using s(5) assms(4) by auto
  moreover have "(case find_key ks (n - 1) b' of None \<Rightarrow> None | Some j \<Rightarrow> cs ! j) =
      (if b' = b then None else case find_key keys n b' of None \<Rightarrow> None | Some j \<Rightarrow> children ! j)" for b'
  proof (cases "find_key keys n b'")
    case None
    then show ?thesis unfolding f(2) by simp
  next
    case (Some j)
    then have j: "j < n" "keys ! j = b'" using find_key_Some by auto
    show ?thesis
    proof (cases "b' = b")
      case False
      then have "j \<noteq> i" using j i by auto
      then have "cs ! (if j < i then j else j - 1) = children ! j" using s(5) j i by auto
      then show ?thesis unfolding f(2) using Some False by simp
    next
      case True
      then show ?thesis unfolding f(2) by simp
    qed
  qed
  ultimately show ?thesis using s f(1) by blast
qed

text \<open>The occupied slots of a \<open>Node48\<close> after its slot \<open>i\<close> is emptied.\<close>

lemma take_child_48:
  assumes "node_shape False (Node48 index children n val)" "index ! unat b \<noteq> EMPTY_SLOT" "i = unat (index ! unat b)"
  shows "node_shape False (Node48 (index[unat b := EMPTY_SLOT]) (children[i := None]) (n - 1) val)"
    "child_at (Node48 (index[unat b := EMPTY_SLOT]) (children[i := None]) (n - 1) val) b' =
      (if b' = b then None else child_at (Node48 index children n val) b')"
proof -
  have l: "length index = 256" "length children = 48" "n \<le> 48" "index_inj index" "index_filled 48 index children"
    using assms(1) by simp_all
  have idx: "index[unat b := EMPTY_SLOT] ! unat x = (if x = b then EMPTY_SLOT else index ! unat x)" for x
    using l(1) by (auto simp: nth_list_update word_unat_eq_iff)
  have other: "unat (index ! unat x) \<noteq> i" if "x \<noteq> b" "index ! unat x \<noteq> EMPTY_SLOT" for x :: u8
    using index_injD [OF l(4) that(2), of b] that(1) assms(3) by (metis word_unat_eq_iff)
  have "index_inj (index[unat b := EMPTY_SLOT])" unfolding index_inj_def idx
    using index_injD [OF l(4)] by (auto split: if_splits)
  moreover have "index_filled 48 (index[unat b := EMPTY_SLOT]) (children[i := None])"
    unfolding index_filled_def idx
  proof (intro allI impI)
    fix x :: u8
    assume "(if x = b then EMPTY_SLOT else index ! unat x) \<noteq> EMPTY_SLOT"
    then have x: "x \<noteq> b" "index ! unat x \<noteq> EMPTY_SLOT" by (auto split: if_splits)
    show "unat (if x = b then EMPTY_SLOT else index ! unat x) < 48 \<and>
        children[i := None] ! unat (if x = b then EMPTY_SLOT else index ! unat x) \<noteq> None"
      using index_filledD [OF l(5) x(2)] other [OF x] x(1) by simp
  qed
  ultimately show "node_shape False (Node48 (index[unat b := EMPTY_SLOT]) (children[i := None]) (n - 1) val)"
    using l by simp
  show "child_at (Node48 (index[unat b := EMPTY_SLOT]) (children[i := None]) (n - 1) val) b' =
      (if b' = b then None else child_at (Node48 index children n val) b')"
    unfolding child_at_48 idx using other [of b'] by auto
qed

definition is_node48 :: "'v art_node \<Rightarrow> bool" where
  "is_node48 node \<longleftrightarrow> (\<exists>index children n val. node = Node48 index children n val)"

lemma take_child_spec:
  assumes "node_shape False node" "slot_of node b = Some i"
  shows "node_shape False (take_child b i node)"
    and "node_shape True node \<Longrightarrow> \<not> is_node48 node \<Longrightarrow> node_shape True (take_child b i node)"
    and "child_at (take_child b i node) b' = (if b' = b then None else child_at node b')"
    and "get_node_val (take_child b i node) = get_node_val node"
proof -
  have "node_shape False (take_child b i node) \<and> (node_shape True node \<and> \<not> is_node48 node \<longrightarrow> node_shape True (take_child b i node)) \<and>
    (\<forall>b'. child_at (take_child b i node) b' = (if b' = b then None else child_at node b')) \<and>
    get_node_val (take_child b i node) = get_node_val node"
  proof (cases node)
    case (Node4 keys children n val)
    obtain ks cs where s: "shift_down i n keys children = (ks, cs)" "length ks = length keys" "length cs = length keys"
      "distinct (take (n - 1) ks)" "\<forall>j < n - 1. cs ! j \<noteq> None"
      "\<And>b'. (case find_key ks (n - 1) b' of None \<Rightarrow> None | Some j \<Rightarrow> cs ! j) =
        (if b' = b then None else case find_key keys n b' of None \<Rightarrow> None | Some j \<Rightarrow> children ! j)"
      using take_child_small [of n keys children b i] assms unfolding Node4 by auto
    have t: "take_child b i node = Node4 ks cs (n - 1) val" using Node4 s(1) by simp
    have "child_at (Node4 ks cs (n - 1) val) b' = (if b' = b then None else child_at node b')" for b'
      unfolding child_at_small Node4 by (rule s(6))
    moreover have "node_shape s (Node4 ks cs (n - 1) val)" for s
      using s(2-5) assms(1) unfolding Node4 by auto
    ultimately show ?thesis unfolding t by (simp add: Node4)
  next
    case (Node16 keys children n val)
    obtain ks cs where s: "shift_down i n keys children = (ks, cs)" "length ks = length keys" "length cs = length keys"
      "distinct (take (n - 1) ks)" "\<forall>j < n - 1. cs ! j \<noteq> None"
      "\<And>b'. (case find_key ks (n - 1) b' of None \<Rightarrow> None | Some j \<Rightarrow> cs ! j) =
        (if b' = b then None else case find_key keys n b' of None \<Rightarrow> None | Some j \<Rightarrow> children ! j)"
      using take_child_small [of n keys children b i] assms unfolding Node16 by auto
    have t: "take_child b i node = Node16 ks cs (n - 1) val" using Node16 s(1) by simp
    have "child_at (Node16 ks cs (n - 1) val) b' = (if b' = b then None else child_at node b')" for b'
      unfolding child_at_small Node16 by (rule s(6))
    moreover have "node_shape s (Node16 ks cs (n - 1) val)" for s
      using s(2-5) assms(1) unfolding Node16 by auto
    ultimately show ?thesis unfolding t by (simp add: Node16)
  next
    case (Node48 index children n val)
    have i: "index ! unat b \<noteq> EMPTY_SLOT" "i = unat (index ! unat b)"
      using assms(2) Node48 by (auto simp: Let_def split: if_splits)
    note t = take_child_48 [OF _ i, of children n val]
    show ?thesis using t assms(1) unfolding Node48 by (simp add: is_node48_def)
  next
    case (Node256 children n val)
    have "i = unat b" using assms(2) Node256 by (auto split: option.splits)
    then show ?thesis using assms(1) unfolding Node256 child_at_256
      by (auto simp: child_at_256 nth_list_update word_unat_eq_iff)
  qed (use assms(1) in simp)
  then show "node_shape False (take_child b i node)"
    and "node_shape True node \<Longrightarrow> \<not> is_node48 node \<Longrightarrow> node_shape True (take_child b i node)"
    and "child_at (take_child b i node) b' = (if b' = b then None else child_at node b')"
    and "get_node_val (take_child b i node) = get_node_val node" by simp_all
qed

lemma filled_slot_eq:
  assumes "node_shape False node"
  shows "filled_slot node b = slot_of node b"
proof (cases node)
  case (Node4 keys children n val)
  then show ?thesis using assms by (auto simp: find_key_def intro!: find_cong)
next
  case (Node16 keys children n val)
  then show ?thesis using assms by (auto simp: find_key_def intro!: find_cong)
next
  case (Node48 index children n val)
  then show ?thesis using slot_child [OF assms] by (auto split: option.split)
next
  case (Node256 children n val)
  then show ?thesis by (auto split: option.split)
qed (use assms in simp)

section \<open>Removing a key\<close>

locale remove_class =
  fixes P :: "'v art_node \<Rightarrow> bool"
  assumes P_weak: "P node \<Longrightarrow> node_shape False node"
    and P_unval: "P node \<Longrightarrow> P (replace_node_val None node)"
    and P_rechild: "P node \<Longrightarrow> slot_of node b = Some i \<Longrightarrow> P (with_children ((children_of node)[i := Some c]) node)"
    and P_take: "P node \<Longrightarrow> slot_of node b = Some i \<Longrightarrow> P (take_child b i node)"
begin

lemmas wf_inner = wf_node [where P = P]

lemma P_inner: "P node \<Longrightarrow> \<not> (\<exists>k v. node = Leaf k v)"
  using P_weak shape_not_leaf by blast

definition removed :: "bytes \<Rightarrow> 'v art_node \<Rightarrow> 'v art_node \<Rightarrow> bytes \<Rightarrow> nat \<Rightarrow> bool" where
  "removed p node node' key depth \<longleftrightarrow> (\<forall>k. has_prefix k p \<longrightarrow>
     get_from node' k depth = (if k = key then None else get_from node k depth))"

lemma take_wf:
  assumes "art_wf P A p node" "P node" "slot_of node b = Some i" "length p = depth"
    "child_at node b = Some (Leaf key v)" "byte_at key depth = Some b"
  shows "art_wf P A p (take_child b i node)" "removed p node (take_child b i node) key depth"
proof -
  let ?n = "take_child b i node"
  note s = take_child_spec [OF P_weak [OF assms(2)] assms(3)]
  have P: "P ?n" using assms(2,3) by (rule P_take)
  note wf = art_wf_node [OF assms(1) P_inner [OF assms(2)]]
  show "art_wf P A p ?n"
    by (rule wf_inner [OF P P_inner [OF P]]) (use s(3,4) wf in \<open>auto split: if_splits\<close>)
  show "removed p node ?n key depth"
    using get_from_node [OF P_inner [OF P]] get_from_node [OF P_inner [OF assms(2)]] s(3,4) assms(5,6)
    by (auto simp: removed_def split: option.split)
qed

lemma own_value_removed:
  assumes wf: "art_wf P A p node" and nl: "\<not> (\<exists>k v. node = Leaf k v)" and d: "length p = depth" and kp: "has_prefix key p"
    and None: "byte_at key depth = None"
  shows "art_wf P A p (replace_node_val None node)" "removed p node (replace_node_val None node) key depth"
    "\<not> (\<exists>k v. replace_node_val None node = Leaf k v)"
proof -
  let ?n = "replace_node_val None node"
  note w = art_wf_node [OF wf nl]
  note sh = P_weak [OF w(1)]
  have key: "key = p" using prefix_end kp d None by auto
  have P: "P ?n" using w(1) by (rule P_unval)
  show "\<not> (\<exists>k v. ?n = Leaf k v)" by (rule P_inner [OF P])
  show "art_wf P A p ?n" by (rule wf_inner [OF P P_inner [OF P]]) (use w sh in \<open>auto\<close>)
  show "removed p node ?n key depth" unfolding removed_def
  proof (intro allI impI)
    fix k assume "has_prefix k p"
    then show "get_from ?n k depth = (if k = key then None else get_from node k depth)"
      using get_from_node [OF P_inner [OF P], of k depth] get_from_node [OF nl, of k depth] None prefix_end [of k p] key sh d
      by (cases "byte_at k depth") auto
  qed
qed

lemma old_child_removed:
  assumes wf: "art_wf P A p node" and nl: "\<not> (\<exists>k v. node = Leaf k v)" and d: "length p = depth"
    and b: "byte_at key depth = Some b" and c: "child_at node b = Some c" and i: "slot_of node b = Some i"
    and c': "art_wf P A (p @ [b]) c'" "removed (p @ [b]) c c' key (depth + 1)"
  defines "node' \<equiv> with_children ((children_of node)[i := Some c']) node"
  shows "art_wf P A p node'" "removed p node node' key depth" "\<not> (\<exists>k v. node' = Leaf k v)"
proof -
  note w = art_wf_node [OF wf nl]
  note s = set_child_spec [OF P_weak [OF w(1)] i, of c', folded node'_def]
  have P: "P node'" unfolding node'_def using w(1) i by (rule P_rechild)
  show nl': "\<not> (\<exists>k v. node' = Leaf k v)" by (rule P_inner [OF P])
  show "art_wf P A p node'" by (rule wf_inner [OF P nl']) (use s(2,3) w c'(1) in \<open>auto split: if_splits\<close>)
  show "removed p node node' key depth" unfolding removed_def
  proof (intro allI impI)
    fix k assume k: "has_prefix k p"
    show "get_from node' k depth = (if k = key then None else get_from node k depth)"
      using get_from_node [OF nl', of k depth] get_from_node [OF nl, of k depth] s(2,3) c
        b c'(2) [unfolded removed_def] prefix_step [OF k] d
      by (auto split: option.split)
  qed
qed

text \<open>The recursive call of a removal on an inner child, whatever its kind.\<close>

lemma remove_rec_child:
  assumes "\<not> (\<exists>k v. node = Leaf k v)" "node_shape False node" "\<not> (\<exists>k v. c = Leaf k v)"
    and "byte_at key depth = Some b" "slot_of node b = Some i" "children_of node ! i = Some c"
    and "remove_rec c key (depth + 1) = (r, c')"
  shows "remove_rec node key depth = (r, with_children ((children_of node)[i := Some c']) node)"
  using assms(3-7) by (cases c) (simp_all add: remove_rec.simps(2) [OF assms(1)] filled_slot_eq [OF assms(2)])

lemma remove_rec_correct:
  assumes "art_wf P A p node" "length p = depth" "has_prefix key p" "\<not> (\<exists>k v. node = Leaf k v)"
  shows "\<exists>node'. remove_rec node key depth = (get_from node key depth, node') \<and> art_wf P A p node' \<and>
    \<not> (\<exists>k v. node' = Leaf k v) \<and> removed p node node' key depth"
  using assms
proof (induction node key depth arbitrary: p rule: remove_rec.induct)
  case (1 lk lv key depth)
  then show ?case by simp
next
  case (2 node key depth)
  note nl = 2(1) and w0 = 2(6) and d = 2(7) and kp = 2(8)
  note wf = art_wf_node [OF w0 nl]
  note sh = P_weak [OF wf(1)]
  note unf = remove_rec.simps(2) [OF nl] filled_slot_eq [OF sh] get_from_node [OF nl, of key depth]
  have same: "removed p node node key depth" if "get_from node key depth = None"
    using that by (auto simp: removed_def)
  consider (val) "byte_at key depth = None"
    | (none) b where "byte_at key depth = Some b" "child_at node b = None"
    | (leaf) b lk lv where "byte_at key depth = Some b" "child_at node b = Some (Leaf lk lv)"
    | (inner) b c where "byte_at key depth = Some b" "child_at node b = Some c" "\<not> (\<exists>k v. c = Leaf k v)"
    by (metis option.exhaust)
  then show ?case
  proof cases
    case val
    then show ?thesis using own_value_removed [OF w0 nl d kp val] by (simp add: unf take_node_val_def)
  next
    case (none b)
    have "slot_of node b = None" using slot_None [OF sh] none(2) by simp
    then show ?thesis using none same w0 nl by (simp add: unf)
  next
    case (leaf b lk lv)
    then obtain i where i: "slot_of node b = Some i" "children_of node ! i = Some (Leaf lk lv)"
      by (auto simp: child_at_def split: option.splits)
    show ?thesis
    proof (cases "lk = key")
      case True
      note t = take_wf [OF w0 wf(1) i(1) d leaf(2) [unfolded True] leaf(1)]
      have "\<not> (\<exists>k v. take_child b i node = Leaf k v)" using P_inner [OF P_take [OF wf(1) i(1)]] .
      with t show ?thesis using leaf i True by (simp add: unf)
    next
      case False
      then show ?thesis using leaf i w0 nl same by (simp add: unf)
    qed
  next
    case (inner b c)
    then obtain i where i: "slot_of node b = Some i" "children_of node ! i = Some c"
      by (auto simp: child_at_def split: option.splits)
    have w: "art_wf P A (p @ [b]) c" using wf(3) inner(2) .
    have f: "filled_slot node b = Some i" using filled_slot_eq [OF sh] i(1) by simp
    have l: "length (p @ [b]) = depth + 1" "has_prefix key (p @ [b])"
      using d prefix_step [OF kp, of b] inner(1) by simp_all
    have "\<exists>c'. remove_rec c key (depth + 1) = (get_from c key (depth + 1), c') \<and> art_wf P A (p @ [b]) c' \<and>
        \<not> (\<exists>k v. c' = Leaf k v) \<and> removed (p @ [b]) c c' key (depth + 1)"
      using 2(2-5) [OF inner(1) f i(2) _ w l inner(3)] inner(3) by (cases c) simp_all
    then obtain c' where c': "remove_rec c key (depth + 1) = (get_from c key (depth + 1), c')"
      "art_wf P A (p @ [b]) c'" "removed (p @ [b]) c c' key (depth + 1)"
      by blast
    have "get_from node key depth = get_from c key (depth + 1)" unfolding get_from_node [OF nl] using inner by simp
    then show ?thesis
      using remove_rec_child [OF nl sh inner(3,1) i c'(1)] old_child_removed [OF w0 nl d inner(1,2) i(1) c'(2,3)] by simp
  qed
qed

end

section \<open>Whole trees\<close>

definition tree_wf :: "('v art_node \<Rightarrow> bool) \<Rightarrow> u8 set \<Rightarrow> 'v art_tree \<Rightarrow> bool" where
  "tree_wf P A t \<longleftrightarrow> (case t of None \<Rightarrow> True | Some root \<Rightarrow> art_wf P A [] root)"

lemma tree_wf_simps [simp]: "tree_wf P A None" "tree_wf P A (Some root) \<longleftrightarrow> art_wf P A [] root"
  by (simp_all add: tree_wf_def)

lemma tree_wf_mono: "tree_wf P A t \<Longrightarrow> (\<And>n. P n \<Longrightarrow> Q n) \<Longrightarrow> A \<subseteq> B \<Longrightarrow> tree_wf Q B t"
  unfolding tree_wf_def by (auto split: option.split intro: art_wf_mono)

lemma has_prefix_Nil [simp]: "has_prefix k []"
  by (simp add: has_prefix_def)

context insert_class
begin

lemma Art_insert_spec:
  assumes "tree_wf P A t" "set key \<subseteq> A"
  shows "\<exists>t'. Art_insert key val t = Some (Art_get t key, t') \<and> tree_wf P A t' \<and>
    (\<forall>k. Art_get t' k = (if k = key then Some val else Art_get t k))"
proof (cases t)
  case None
  then show ?thesis using assms(2) by (auto simp: Art_insert_def Art_get_def new_leaf_def)
next
  case (Some root)
  have "art_wf P A [] root" using assms(1) Some by simp
  from insert_rec_correct [OF this _ _ assms(2), of 0 val] show ?thesis
    by (auto simp: Art_insert_def Art_get_def Some)
qed

end

context remove_class
begin

lemma Art_remove_spec:
  assumes "tree_wf P A t"
  shows "\<exists>t'. Art_remove key t = (Art_get t key, t') \<and> tree_wf P A t' \<and>
    (\<forall>k. Art_get t' k = (if k = key then None else Art_get t k))"
proof (cases t)
  case None
  then show ?thesis by (simp add: Art_remove_def Art_get_def)
next
  case (Some root)
  show ?thesis
  proof (cases "\<exists>k v. root = Leaf k v")
    case True
    then show ?thesis using assms Some by (auto simp: Art_remove_def Art_get_def)
  next
    case False
    have "art_wf P A [] root" using assms Some by simp
    from remove_rec_correct [OF this _ _ False, of 0 key] obtain root' where r:
      "remove_rec root key 0 = (get_from root key 0, root')" "art_wf P A [] root'" "removed [] root root' key 0"
      by auto
    have "Art_remove key t = apsnd Some (remove_rec root key 0)"
      using False by (cases root) (simp_all add: Art_remove_def Some)
    then show ?thesis using r(2,3) by (simp add: r(1) removed_def Art_get_def Some)
  qed
qed

end

interpretation strict: insert_class "node_shape True" UNIV
  by unfold_locales (auto simp: set_child_spec add_new_spec)

interpretation weak: remove_class "node_shape False"
  by unfold_locales (auto simp: set_child_spec take_child_spec)

section \<open>Insertions, then removals\<close>

text \<open>A sequence of insertions; \<open>None\<close> is a panic.\<close>

fun art_puts :: "(bytes \<times> 'v) list \<Rightarrow> 'v art_tree \<Rightarrow> 'v art_tree option" where
  "art_puts [] t = Some t"
| "art_puts ((k, v) # kvs) t = (case Art_insert k v t of None \<Rightarrow> None | Some (_, t') \<Rightarrow> art_puts kvs t')"

definition art_removes :: "bytes list \<Rightarrow> 'v art_tree \<Rightarrow> 'v art_tree" where
  "art_removes ks t = fold (\<lambda>k t. snd (Art_remove k t)) ks t"

lemma art_puts_spec:
  assumes "tree_wf (node_shape True) UNIV t"
  shows "\<exists>t'. art_puts kvs t = Some t' \<and> tree_wf (node_shape True) UNIV t' \<and>
    (\<forall>k. Art_get t' k = (case map_of (rev kvs) k of None \<Rightarrow> Art_get t k | Some v \<Rightarrow> Some v))"
  using assms
proof (induction kvs arbitrary: t)
  case (Cons kv kvs)
  obtain k v where kv: "kv = (k, v)" by fastforce
  from strict.Art_insert_spec [OF Cons.prems subset_UNIV] obtain t1 where t1:
    "Art_insert k v t = Some (Art_get t k, t1)" "tree_wf (node_shape True) UNIV t1"
    "\<forall>j. Art_get t1 j = (if j = k then Some v else Art_get t j)" by blast
  from Cons.IH [OF t1(2)] obtain t2 where t2: "art_puts kvs t1 = Some t2" "tree_wf (node_shape True) UNIV t2"
    "\<And>j. Art_get t2 j = (case map_of (rev kvs) j of None \<Rightarrow> Art_get t1 j | Some v \<Rightarrow> Some v)" by blast
  have "Art_get t2 j = (case map_of (rev (kv # kvs)) j of None \<Rightarrow> Art_get t j | Some v \<Rightarrow> Some v)" for j
    using t1(3) by (cases "map_of (rev kvs) j") (simp_all add: kv t2(3) map_add_def)
  then show ?case using t1(1) t2(1,2) by (auto simp: kv)
qed simp

lemma art_removes_spec:
  assumes "tree_wf (node_shape False) UNIV t"
  shows "tree_wf (node_shape False) UNIV (art_removes ks t) \<and>
    Art_get (art_removes ks t) key = (if key \<in> set ks then None else Art_get t key)"
  using assms
proof (induction ks arbitrary: t)
  case (Cons k ks)
  from weak.Art_remove_spec [OF Cons.prems] obtain t1 where t1: "snd (Art_remove k t) = t1"
    "tree_wf (node_shape False) UNIV t1" "Art_get t1 key = (if key = k then None else Art_get t key)"
    by (metis snd_conv)
  have "art_removes (k # ks) t = art_removes ks t1" by (simp add: art_removes_def t1(1))
  then show ?case using Cons.IH [OF t1(2)] t1(3) by (cases "key = k") simp_all
qed (simp add: art_removes_def)

lemma built_tree:
  "\<exists>t. art_puts kvs Art_new = Some t \<and> tree_wf (node_shape False) UNIV (art_removes ks t) \<and>
    (\<forall>key. Art_get (art_removes ks t) key = (if key \<in> set ks then None else map_of (rev kvs) key))"
proof -
  have "tree_wf (node_shape True) UNIV Art_new" by (simp add: Art_new_def)
  from art_puts_spec [OF this] obtain t where t: "art_puts kvs Art_new = Some t" "tree_wf (node_shape True) UNIV t"
    "\<forall>k. Art_get t k = (case map_of (rev kvs) k of None \<Rightarrow> Art_get Art_new k | Some v \<Rightarrow> Some v)" by blast
  have empty: "Art_get Art_new k = None" for k by (simp add: Art_new_def Art_get_def)
  have get: "Art_get t k = map_of (rev kvs) k" for k
    using t(3) empty by (cases "map_of (rev kvs) k") simp_all
  have "tree_wf (node_shape False) UNIV t" using t(2) by (rule tree_wf_mono) (auto intro: shape_weaken)
  then show ?thesis using t(1) get art_removes_spec by auto
qed

text \<open>
  C22: inserting any keys with any values into an empty tree, in any order, never panics, and
  after any removals a lookup returns the value of the last insertion of its key, or nothing
  if the key was removed or never inserted.
\<close>

theorem Art_map_spec:
  "\<exists>t. art_puts kvs Art_new = Some t \<and>
    Art_get (art_removes ks t) key = (if key \<in> set ks then None else map_of (rev kvs) key)"
  using built_tree [of kvs ks] by blast

section \<open>Keys over few bytes\<close>

text \<open>
  When the keys use at most sixteen different bytes (hexadecimal names, say) no node grows
  beyond a \<open>Node16\<close>, and removals and insertions can be mixed.
\<close>

definition alphabet :: "u8 list \<Rightarrow> u8 set" where
  "alphabet S = set (take 16 S)"

fun is_small :: "'v art_node \<Rightarrow> bool" where
  "is_small (Node4 _ _ _ _) = True"
| "is_small (Node16 _ _ _ _) = True"
| "is_small _ = False"

definition narrow :: "u8 list \<Rightarrow> 'v art_node \<Rightarrow> bool" where
  "narrow S node \<longleftrightarrow> node_shape True node \<and> is_small node \<and> (\<forall>b. child_at node b \<noteq> None \<longrightarrow> b \<in> alphabet S)"

lemma narrow_room:
  assumes "narrow S (Node16 keys children n val)" "child_at (Node16 keys children n val) b = None" "b \<in> alphabet S"
  shows "n < 16"
proof (rule ccontr)
  assume "\<not> n < 16"
  then have l: "length keys = 16" "n = 16" "distinct keys" "\<forall>i < 16. children ! i \<noteq> None"
    using assms(1) by (auto simp: narrow_def)
  have fk: "find_key keys 16 (keys ! i) = Some i" if "i < 16" for i
    using find_key_nth [of 16 keys i] l that by simp
  then have used: "child_at (Node16 keys children n val) x \<noteq> None" if "x \<in> set keys" for x
    using that l by (auto simp: child_at_small in_set_conv_nth)
  have "b \<notin> set keys" "set keys \<subseteq> alphabet S"
    using used assms(1,2) unfolding narrow_def by blast+
  then have "insert b (set keys) \<subseteq> alphabet S" using assms(3) by simp
  then have "card (insert b (set keys)) \<le> card (alphabet S)" by (rule card_mono [rotated]) (simp add: alphabet_def)
  moreover have "card (alphabet S) \<le> 16" unfolding alphabet_def by (rule order_trans [OF card_length]) simp
  moreover have "card (insert b (set keys)) = 17" using \<open>b \<notin> set keys\<close> distinct_card [OF l(3)] l(1) by simp
  ultimately show False by simp
qed

lemma narrow_add:
  assumes "narrow S node" "child_at node b = None" "b \<in> alphabet S"
  shows "narrow S (add_new b c node)"
proof -
  have sh: "node_shape True node" using assms(1) by (simp add: narrow_def)
  have "is_small (add_new b c node)"
  proof (cases node)
    case (Node16 keys children n val)
    then show ?thesis using narrow_room assms by auto
  qed (use assms(1) in \<open>auto simp: narrow_def\<close>)
  then show ?thesis using add_new_spec [OF sh assms(2)] assms(1,3) by (auto simp: narrow_def split: if_splits)
qed

lemma small_not_48: "is_small node \<Longrightarrow> \<not> is_node48 node"
  by (auto simp: is_node48_def)

lemma is_small_ops [simp]:
  "is_small (replace_node_val val node) = is_small node"
  "is_small (with_children cs node) = is_small node"
  "is_small (take_child b i node) = is_small node"
  by (cases node; simp split: prod.split)+

lemma narrow_child:
  assumes "narrow S node" "slot_of node b = Some i"
  shows "narrow S (with_children ((children_of node)[i := Some c]) node)"
proof -
  have sh: "node_shape True node" using assms(1) by (simp add: narrow_def)
  have "child_at node b \<noteq> None" using slot_child [OF sh assms(2)] assms(2) by (simp add: child_at_def)
  then have "b \<in> alphabet S" using assms(1) by (simp add: narrow_def)
  then show ?thesis using set_child_spec [OF sh assms(2), of c] assms(1) by (auto simp: narrow_def split: if_splits)
qed

interpretation narrow_ins: insert_class "narrow S" "alphabet S" for S :: "u8 list"
proof unfold_locales
  show "narrow S new_node4" by (simp add: narrow_def) (simp add: new_node4_def)
qed (auto simp: narrow_add narrow_child, auto simp: narrow_def)

interpretation narrow_rem: remove_class "narrow S" for S :: "u8 list"
proof unfold_locales
  fix node :: "'a art_node" and b i
  assume n: "narrow S node" and s: "slot_of node b = Some i"
  then have sh: "node_shape True node" "node_shape False node" "is_small node"
    using shape_weaken by (auto simp: narrow_def)
  note t = take_child_spec [OF sh(2) s]
  show "narrow S (take_child b i node)"
    using n t(2) [OF sh(1) small_not_48 [OF sh(3)]] t(3) by (auto simp: narrow_def split: if_splits)
qed (auto simp: narrow_child, auto simp: narrow_def intro: shape_weaken)

definition art_put :: "bytes \<Rightarrow> 'v \<Rightarrow> 'v art_tree \<Rightarrow> 'v art_tree" where
  "art_put k v t = snd (the (Art_insert k v t))"

definition art_del :: "bytes \<Rightarrow> 'v art_tree \<Rightarrow> 'v art_tree" where
  "art_del k t = snd (Art_remove k t)"

interpretation art_map: key_map "tree_wf (narrow S) (alphabet S)" Art_get art_put art_del "\<lambda>k v. set k \<subseteq> alphabet S"
  for S :: "u8 list"
proof unfold_locales
  fix m :: "'a art_tree" and k v j
  assume m: "tree_wf (narrow S) (alphabet S) m"
  from narrow_rem.Art_remove_spec [OF m, of k]
  show "tree_wf (narrow S) (alphabet S) (art_del k m)" "Art_get (art_del k m) j = (if j = k then None else Art_get m j)"
    by (auto simp: art_del_def)
  assume "set k \<subseteq> alphabet S"
  from narrow_ins.Art_insert_spec [OF m this, of v]
  show "tree_wf (narrow S) (alphabet S) (art_put k v m)" "Art_get (art_put k v m) j = (if j = k then Some v else Art_get m j)"
    by (auto simp: art_put_def)
qed

definition art_op :: "(bytes, 'v) key_op \<Rightarrow> 'v art_tree option \<Rightarrow> 'v art_tree option" where
  "art_op op t = (case t of
     None \<Rightarrow> None
   | Some t \<Rightarrow> (case op of
        Put k v \<Rightarrow> map_option snd (Art_insert k v t)
      | Del k \<Rightarrow> Some (snd (Art_remove k t))))"

definition narrow_op :: "u8 list \<Rightarrow> (bytes, 'v) key_op \<Rightarrow> bool" where
  "narrow_op S op = (case op of Put k v \<Rightarrow> set k \<subseteq> alphabet S | Del k \<Rightarrow> True)"

lemma art_op_step:
  assumes "tree_wf (narrow S) (alphabet S) t" "narrow_op S op"
  shows "art_op op (Some t) = Some (art_map.key_step op t)" "tree_wf (narrow S) (alphabet S) (art_map.key_step op t)"
proof -
  have "art_op op (Some t) = Some (art_map.key_step op t) \<and> tree_wf (narrow S) (alphabet S) (art_map.key_step op t)"
  proof (cases op)
    case (Put k v)
    then have "set k \<subseteq> alphabet S" using assms(2) by (simp add: narrow_op_def)
    from narrow_ins.Art_insert_spec [OF assms(1) this, of v] show ?thesis
      by (auto simp: art_op_def Put art_put_def)
  next
    case (Del k)
    then show ?thesis using art_map.inv_del [OF assms(1), of k] by (simp add: art_op_def art_del_def)
  qed
  then show "art_op op (Some t) = Some (art_map.key_step op t)" "tree_wf (narrow S) (alphabet S) (art_map.key_step op t)"
    by simp_all
qed

lemma art_ops_steps:
  "tree_wf (narrow S) (alphabet S) t \<Longrightarrow> list_all (narrow_op S) ops \<Longrightarrow>
    fold art_op ops (Some t) = Some (fold art_map.key_step ops t)"
  by (induction ops arbitrary: t) (simp_all add: art_op_step)

lemma narrow_op_valid: "list_all (narrow_op S) ops \<Longrightarrow> list_all (art_map.valid_op S) ops"
proof (induction ops)
  case (Cons op ops)
  then show ?case by (cases op) (simp_all add: narrow_op_def)
qed simp

text \<open>
  C23: over keys that use at most sixteen different bytes, a lookup after any mixture of
  insertions and removals, starting from an empty tree, answers the last operation on its
  key; in particular none of the insertions panics.
\<close>

theorem Art_mixed_ops:
  assumes "list_all (narrow_op S) ops"
  shows "\<exists>t. fold art_op ops (Some Art_new) = Some t \<and> Art_get t key = last_write ops key None"
proof -
  have inv: "tree_wf (narrow S) (alphabet S) Art_new" by (simp add: Art_new_def)
  have "Art_get (fold art_map.key_step ops Art_new) key = last_write ops key (Art_get Art_new key)"
    by (rule art_map.get_steps [OF inv narrow_op_valid [OF assms]])
  then show ?thesis using art_ops_steps [OF inv assms] by (simp add: Art_new_def Art_get_def)
qed

theorem Art_mixed_ops_witness:
  "\<exists>t. fold art_op [Put [48, 49] (1::nat), Put [48] 2, Del [48, 49], Put [48, 49] 3] (Some Art_new) = Some t \<and>
    Art_get t [48, 49] = Some 3"
proof -
  have "list_all (narrow_op [48, 49]) [Put [48, 49] (1::nat), Put [48] 2, Del [48, 49], Put [48, 49] 3]"
    by (simp add: narrow_op_def alphabet_def)
  from Art_mixed_ops [OF this, of "[48, 49]"] show ?thesis by simp
qed

section \<open>A removal from a \<open>Node48\<close>\<close>

lemma puts_root_shape:
  assumes "art_puts kvs Art_new = Some (Some root)"
  shows "tree_wf (node_shape True) UNIV (Some root)" "tree_wf (node_shape False) UNIV (Some root)"
proof -
  have "tree_wf (node_shape True) UNIV Art_new" by (simp add: Art_new_def)
  from art_puts_spec [OF this, of kvs] assms show *: "tree_wf (node_shape True) UNIV (Some root)" by auto
  then show "tree_wf (node_shape False) UNIV (Some root)" by (rule tree_wf_mono) (auto intro: shape_weaken)
qed

lemma byte_at_Cons_0 [simp]: "byte_at (b # r) 0 = Some b"
  by (simp add: byte_at_def)

text \<open>The three operations on the root, when it is a \<open>Node48\<close> and the child concerned is a leaf.\<close>

lemma get_48: "Art_get (Some (Node48 index children n val)) (b # r) =
    (if index ! unat b = EMPTY_SLOT then None
     else case children ! unat (index ! unat b) of None \<Rightarrow> None | Some child \<Rightarrow> get_from child (b # r) 1)"
  by (simp add: Art_get_def Let_def split: option.split)

lemma del_leaf_48:
  assumes "index ! unat b \<noteq> EMPTY_SLOT" "children ! unat (index ! unat b) = Some (Leaf (b # r) v)"
  shows "art_del (b # r) (Some (Node48 index children n val)) =
    Some (Node48 (index[unat b := EMPTY_SLOT]) (children[unat (index ! unat b) := None]) (n - 1) val)"
  using assms by (simp add: art_del_def Art_remove_def Let_def)

lemma insert_48:
  "index ! unat b = EMPTY_SLOT \<Longrightarrow> n < 48 \<Longrightarrow>
    Art_insert (b # r) v (Some (Node48 index children n val)) =
    Some (None, Some (Node48 (index[unat b := of_nat n]) (children[n := Some (Leaf (b # r) v)]) (n + 1) val))"
  "index ! unat b \<noteq> EMPTY_SLOT \<Longrightarrow> children ! unat (index ! unat b) = None \<Longrightarrow>
    Art_insert (b # r) v (Some (Node48 index children n val)) = None"
  by (simp_all add: Art_insert_def new_leaf_def Let_def)

text \<open>
  C25: with more bytes the mixture fails. A \<open>Node48\<close> puts a new child in the slot its counter
  names, although after a removal that slot is in use. Take any tree built by insertions whose
  root is a \<open>Node48\<close>, a byte \<open>b\<close> with a single key below it, not in the last slot, the byte
  \<open>l\<close> of the last slot, and a byte \<open>c\<close> that is free, or \<open>b\<close> itself. Removing the key of \<open>b\<close> is
  harmless to the keys under \<open>l\<close>; inserting any key under \<open>c\<close> then succeeds and makes every key
  under \<open>l\<close> disappear, and once the key of \<open>c\<close> is removed as well, inserting any key under
  \<open>l\<close> panics.
\<close>

theorem Node48_slot_reuse:
  assumes built: "art_puts kvs Art_new = Some (Some root)" and root: "root = Node48 index children n val"
    and b: "slot_of root b = Some i" "i < n - 1" "children ! i = Some (Leaf (b # r) v)"
    and l: "slot_of root l = Some (n - 1)" and c: "slot_of root c = None \<or> c = b"
  shows "\<exists>t. Art_insert (c # r') v' (art_del (b # r) (Some root)) = Some (None, t) \<and>
    (\<forall>s w. Art_get (art_del (b # r) (Some root)) (l # s) = Art_get (Some root) (l # s) \<and>
       Art_get t (l # s) = None \<and> Art_insert (l # s) w (art_del (c # r') t) = None)"
proof -
  have shape: "length index = 256" "length children = 48" "n \<le> 48"
    using puts_root_shape(2) [OF built] art_wf_node(1) unfolding root by fastforce+
  have ib: "index ! unat b \<noteq> EMPTY_SLOT" "unat (index ! unat b) = i"
    and il: "index ! unat l \<noteq> EMPTY_SLOT" "unat (index ! unat l) = n - 1"
    using b(1) l by (simp_all add: root Let_def split: if_splits)
  have ic: "index ! unat c = EMPTY_SLOT \<or> c = b" using c by (auto simp: root Let_def split: if_splits)
  have neq: "l \<noteq> b" "l \<noteq> c" using ib il ic b(2) by auto
  then have uneq: "unat l \<noteq> unat b" "unat l \<noteq> unat c" by (simp_all add: word_unat_eq_iff)
  have slot: "unat (of_nat (n - 1) :: u8) = n - 1" using shape(3) by (simp add: unat_of_nat)
  have used: "(of_nat (n - 1) :: u8) \<noteq> EMPTY_SLOT" using EMPTY_SLOT_of_nat [of "n - 1"] shape(3) by simp
  let ?I = "index[unat b := EMPTY_SLOT]" and ?C = "children[i := None]"
  let ?I2 = "?I[unat c := of_nat (n - 1)]" and ?C2 = "?C[n - 1 := Some (Leaf (c # r') v')]"
  have del: "art_del (b # r) (Some root) = Some (Node48 ?I ?C (n - 1) val)"
    unfolding root using del_leaf_48 [OF ib(1)] b(3) ib(2) by simp
  have "?I ! unat c = EMPTY_SLOT" using ic shape(1) by (cases "c = b") (auto simp: nth_list_update)
  from insert_48(1) [OF this, of "n - 1" r' v' ?C val]
  have ins: "Art_insert (c # r') v' (art_del (b # r) (Some root)) = Some (None, Some (Node48 ?I2 ?C2 n val))"
    using shape(3) b(2) by (simp add: del)
  have I2: "?I2 ! unat l = index ! unat l" "?I2 ! unat c = of_nat (n - 1)" using uneq shape(1) by simp_all
  have C2: "?C2 ! (n - 1) = Some (Leaf (c # r') v')" using shape b(2) by simp
  have del2: "art_del (c # r') (Some (Node48 ?I2 ?C2 n val)) =
      Some (Node48 (?I2[unat c := EMPTY_SLOT]) (?C2[n - 1 := None]) (n - 1) val)"
    by (rule del_leaf_48 [of ?I2 c ?C2 r' v' n val, unfolded I2(2) slot, OF used C2])
  have last: "?I2[unat c := EMPTY_SLOT] ! unat l = index ! unat l" using uneq by (simp add: I2(1))
  have none: "?C2[n - 1 := None] ! (n - 1) = None" using shape b(2) by simp
  have "Art_get (art_del (b # r) (Some root)) (l # s) = Art_get (Some root) (l # s)" for s
    using weak.Art_remove_spec [OF puts_root_shape(2) [OF built], of "b # r"] neq(1) by (auto simp: art_del_def)
  moreover have "Art_get (Some (Node48 ?I2 ?C2 n val)) (l # s) = None" for s
    unfolding get_48 I2(1) il C2 using neq(2) by simp
  moreover have "Art_insert (l # s) w (art_del (c # r') (Some (Node48 ?I2 ?C2 n val))) = None" for s w
    unfolding del2 by (rule insert_48(2)) (simp_all only: last il none not_False_eq_True)
  ultimately show ?thesis using ins by blast
qed

definition seventeen :: "nat art_node" where
  "seventeen = Node48 (map of_nat [0..<17] @ replicate 239 EMPTY_SLOT)
     (map (\<lambda>b. Some (Leaf [of_nat b] b)) [0..<17] @ replicate 31 None) 17 None"

theorem Node48_slot_reuse_witness:
  "art_puts (map (\<lambda>b. ([of_nat b], b)) [0..<17]) Art_new = Some (Some seventeen) \<and>
   Art_get (Some seventeen) [16] = Some 16 \<and>
   (\<exists>t. Art_insert [100] 7 (art_del [0] (Some seventeen)) = Some (None, t) \<and> Art_get t [16] = None \<and>
      Art_insert [16] 5 (art_del [100] t) = None)"
proof -
  have built: "art_puts (map (\<lambda>b. ([of_nat b], b)) [0..<17]) Art_new = Some (Some seventeen)" by code_simp
  have get: "Art_get (Some seventeen) [16] = Some 16" by code_simp
  have slots: "slot_of seventeen 0 = Some 0" "slot_of seventeen 16 = Some (17 - 1)" "slot_of seventeen 100 = None"
    by code_simp+
  have leaf: "(map (\<lambda>b. Some (Leaf [of_nat b] b)) [0..<17] @ replicate 31 None) ! 0 = Some (Leaf [0] (0 :: nat))"
    by code_simp
  from Node48_slot_reuse [OF built seventeen_def slots(1) _ leaf slots(2) disjI1 [OF slots(3)], of "[]" 7]
  show ?thesis using built get by auto
qed

end
