(* ===== verification/Art_Prefix.thy ===== *)
theory Art_Prefix
  imports Art_Remove
begin

text \<open>
  Prefix searches and snapshots of the radix tree: they return every stored key with the
  prefix once, with its value.
\<close>

section \<open>The order of the children\<close>

lemma concat_filter: "concat (map (\<lambda>x. if Q x then [g x] else []) xs) = map g (filter Q xs)"
  by (induction xs) auto

lemma concat_options:
  "concat (map (\<lambda>c. case c of None \<Rightarrow> [] | Some c \<Rightarrow> [c]) xs) = map the (filter (\<lambda>c. c \<noteq> None) xs)"
  by (induction xs) (auto split: option.split)

definition lists_children :: "'v art_node \<Rightarrow> u8 list \<Rightarrow> bool" where
  "lists_children node bs \<longleftrightarrow> ordered_children node = map (\<lambda>b. the (child_at node b)) bs \<and> distinct bs \<and>
     set bs = {b. child_at node b \<noteq> None}"

lemma all_bytes: "distinct (map (of_nat :: nat \<Rightarrow> u8) [0..<256])" "set (map (of_nat :: nat \<Rightarrow> u8) [0..<256]) = UNIV"
proof -
  show "distinct (map (of_nat :: nat \<Rightarrow> u8) [0..<256])"
    by (rule distinct_map [THEN iffD2]) (auto intro!: inj_onI simp: word_unat_eq_iff unat_of_nat)
  have "b \<in> of_nat ` {0..<256}" for b :: u8
    by (rule image_eqI [of _ _ "unat b"]) simp_all
  then show "set (map (of_nat :: nat \<Rightarrow> u8) [0..<256]) = UNIV" by auto
qed

lemma small_children:
  assumes "distinct (take n keys)" "n \<le> length keys" "length children = length keys" "\<forall>i < n. children ! i \<noteq> None"
    and at: "\<And>b. child_at node b = (case find_key keys n b of None \<Rightarrow> None | Some i \<Rightarrow> children ! i)"
    and oc: "ordered_children node = concat (map (\<lambda>c. case c of None \<Rightarrow> [] | Some c \<Rightarrow> [c]) (take n children))"
  shows "lists_children node (take n keys)"
proof -
  have f: "find_key keys n (keys ! i) = Some i" if "i < n" for i using find_key_nth [OF assms(1,2) that] .
  have "filter (\<lambda>c. c \<noteq> None) (take n children) = take n children"
    using assms(2-4) by (auto simp: filter_id_conv in_set_conv_nth)
  moreover have "map the (take n children) = map (\<lambda>b. the (child_at node b)) (take n keys)"
    using assms(2,3) by (intro nth_equalityI) (simp_all add: at f)
  moreover have "set (take n keys) = {b. child_at node b \<noteq> None}"
  proof (intro equalityI subsetI)
    fix b assume "b \<in> set (take n keys)"
    then obtain i where "i < n" "b = keys ! i" using assms(2) by (auto simp: in_set_conv_nth)
    then show "b \<in> {b. child_at node b \<noteq> None}" using assms(4) by (simp add: at f)
  next
    fix b assume "b \<in> {b. child_at node b \<noteq> None}"
    then obtain i where "find_key keys n b = Some i" by (auto simp: at split: option.splits)
    from find_key_Some [OF this] show "b \<in> set (take n keys)" using assms(2) by (auto simp: in_set_conv_nth)
  qed
  ultimately show ?thesis using assms(1) by (simp add: lists_children_def oc concat_options)
qed

lemma indexed_children:
  assumes "length xs = 256" and oc: "ordered_children node = concat (map f xs)"
    and f: "\<And>b :: u8. f (xs ! unat b) = (case child_at node b of None \<Rightarrow> [] | Some c \<Rightarrow> [c])"
  shows "lists_children node (filter (\<lambda>b. child_at node b \<noteq> None) (map of_nat [0..<256]))"
proof -
  have "map f xs = map (\<lambda>b :: u8. f (xs ! unat b)) (map of_nat [0..<256])"
    using assms(1) by (intro nth_equalityI) (simp_all add: unat_of_nat)
  also have "\<dots> = map (\<lambda>b. if child_at node b \<noteq> None then [the (child_at node b)] else []) (map of_nat [0..<256])"
    by (simp add: f split: option.split)
  finally show ?thesis using all_bytes
    by (simp only: lists_children_def oc concat_filter distinct_filter set_filter) simp
qed

lemma ordered_children_spec:
  assumes "node_shape False node"
  shows "\<exists>bs. lists_children node bs"
proof (cases node)
  case (Node4 keys children n val)
  then have "lists_children node (take n keys)" using assms
    by (intro small_children [where children = children]) (simp_all only: child_at_small node_shape.simps ordered_children.simps, simp_all)
  then show ?thesis by blast
next
  case (Node16 keys children n val)
  then have "lists_children node (take n keys)" using assms
    by (intro small_children [where children = children]) (simp_all only: child_at_small node_shape.simps ordered_children.simps, simp_all)
  then show ?thesis by blast
next
  case (Node48 index children n val)
  then have s: "length index = 256" "length children = 48" "index_filled 48 index children" using assms by simp_all
  show ?thesis
    by (rule exI, rule indexed_children [where xs = index, OF s(1)], unfold Node48, rule ordered_children.simps)
      (use index_filledD [OF s(3)] s(2) in \<open>auto simp: child_at_48 split: option.split\<close>)
next
  case (Node256 children n val)
  then have s: "length children = 256" using assms by simp
  show ?thesis
    by (rule exI, rule indexed_children [where xs = children, OF s], unfold Node256, rule ordered_children.simps)
      (simp add: child_at_256)
qed (use assms in simp)

lemma matching_small:
  assumes "distinct (take n keys)" "n \<le> length keys"
  shows "concat (map (\<lambda>i. if keys ! i = b then (case children ! i of None \<Rightarrow> [] | Some c \<Rightarrow> [c]) else []) [0..<n]) =
    (case (case find_key keys n b of None \<Rightarrow> None | Some i \<Rightarrow> children ! i) of None \<Rightarrow> [] | Some c \<Rightarrow> [c])"
  using assms
proof (induction n)
  case 0
  then show ?case by (simp add: find_key_def)
next
  case (Suc n)
  have d: "distinct (take n keys)" "n \<le> length keys" using Suc.prems by (auto simp: take_Suc_conv_app_nth)
  show ?case
  proof (cases "keys ! n = b")
    case True
    have "find_key keys n b = None" unfolding find_key_None
      using Suc.prems True by (auto simp: distinct_conv_nth)
    then show ?thesis using Suc.IH [OF d] True by (simp add: find_key_Suc)
  next
    case False
    then show ?thesis using Suc.IH [OF d] by (simp add: find_key_Suc split: option.split)
  qed
qed

lemma matching_children_spec:
  assumes "node_shape False node"
  shows "matching_children node b = (case child_at node b of None \<Rightarrow> [] | Some c \<Rightarrow> [c])"
proof (cases node)
  case (Node4 keys children n val)
  then show ?thesis using assms by (simp only: matching_children.simps child_at_small) (rule matching_small, simp_all)
next
  case (Node16 keys children n val)
  then show ?thesis using assms by (simp only: matching_children.simps child_at_small) (rule matching_small, simp_all)
qed (use assms in \<open>simp_all add: child_at_def split: option.split\<close>)

section \<open>What a collection returns\<close>

text \<open>The entries of \<open>items\<close> are the keys that satisfy \<open>Q\<close>, each once with its value.\<close>

definition lists_entries :: "(bytes \<times> 'v) list \<Rightarrow> (bytes \<Rightarrow> bool) \<Rightarrow> (bytes \<Rightarrow> 'v option) \<Rightarrow> bool" where
  "lists_entries items Q get \<longleftrightarrow> distinct (map fst items) \<and> set items = {(k, v). Q k \<and> get k = Some v}"

lemma lists_entries_cong: "lists_entries items Q get \<Longrightarrow> (\<And>k v. Q k \<and> get k = Some v \<longleftrightarrow> Q' k \<and> get' k = Some v) \<Longrightarrow>
    lists_entries items Q' get'"
  unfolding lists_entries_def by auto

text \<open>A node lists its own key and, over disjoint sets of keys, what its children list.\<close>

lemma entries_concat:
  assumes "distinct bs" "\<And>b. b \<in> set bs \<Longrightarrow> lists_entries (f b) (Q b) get" "\<And>k a b. Q a k \<Longrightarrow> Q b k \<Longrightarrow> a = b"
  shows "lists_entries (concat (map f bs)) (\<lambda>k. \<exists>b \<in> set bs. Q b k) get"
  using assms(1,2)
proof (induction bs)
  case Nil
  then show ?case by (simp add: lists_entries_def)
next
  case (Cons b bs)
  have IH: "lists_entries (concat (map f bs)) (\<lambda>k. \<exists>b \<in> set bs. Q b k) get" using Cons by simp
  have b: "lists_entries (f b) (Q b) get" using Cons.prems by simp
  have in_b: "Q b k" if "k \<in> fst ` set (f b)" for k
    using b that by (auto simp: lists_entries_def)
  have in_bs: "\<exists>a \<in> set bs. Q a k" if "k \<in> fst ` set (concat (map f bs))" for k
  proof -
    have "set (concat (map f bs)) = {(k, v). (\<exists>b \<in> set bs. Q b k) \<and> get k = Some v}"
      using IH by (simp only: lists_entries_def)
    then show ?thesis using that by auto
  qed
  have "fst ` set (f b) \<inter> fst ` set (concat (map f bs)) = {}"
    using in_b in_bs Cons.prems(1) assms(3) by (metis disjoint_iff distinct.simps(2))
  then have "distinct (map fst (concat (map f (b # bs))))"
    using IH b by (simp add: lists_entries_def)
  moreover have "set (concat (map f (b # bs))) = {(k, v). (\<exists>b \<in> set (b # bs). Q b k) \<and> get k = Some v}"
    using IH b unfolding lists_entries_def by auto
  ultimately show ?case by (simp only: lists_entries_def)
qed

lemma entries_Cons:
  assumes "lists_entries items Q get" "\<And>k v. val = Some (k, v) \<Longrightarrow> k = p" "\<not> Q p" "get p = map_option snd val"
  shows "lists_entries (val_list val @ items) (\<lambda>k. k = p \<or> Q k) get"
  using assms by (cases val) (fastforce simp: lists_entries_def val_list_def)+

lemma prefix_shorten:
  assumes "has_prefix k (p @ [b])"
  shows "has_prefix k p"
proof -
  have "take (length p) (take (Suc (length p)) k) = take (length p) (p @ [b])"
    using assms by (simp add: has_prefix_def)
  then show ?thesis by (simp add: has_prefix_def)
qed

lemma prefix_iff: "has_prefix k p \<longleftrightarrow> k = p \<or> (\<exists>b. has_prefix k (p @ [b]))"
proof
  assume "has_prefix k p"
  then show "k = p \<or> (\<exists>b. has_prefix k (p @ [b]))"
    using prefix_step prefix_end by (cases "byte_at k (length p)") blast+
next
  assume "k = p \<or> (\<exists>b. has_prefix k (p @ [b]))"
  then show "has_prefix k p" using prefix_shorten by (auto simp: has_prefix_def)
qed

lemma has_prefix_trans:
  assumes "has_prefix k pre" "has_prefix pre p"
  shows "has_prefix k p"
proof -
  have "length p \<le> length pre" using assms(2) arg_cong [of _ _ length] by (fastforce simp: has_prefix_def)
  then have "min (length p) (length pre) = length p" by simp
  then have "take (length p) k = take (length p) (take (length pre) k)" by (simp only: take_take)
  also have "\<dots> = p" using assms unfolding has_prefix_def by simp
  finally show ?thesis by (simp only: has_prefix_def)
qed

lemma prefix_unique: "has_prefix k (p @ [a]) \<Longrightarrow> has_prefix k (p @ [b]) \<Longrightarrow> a = b"
  by (simp add: has_prefix_def)

lemma prefix_not_self: "\<not> has_prefix p (p @ [b])"
  by (simp add: has_prefix_def)

lemma prefix_byte: "has_prefix k (p @ [b]) \<Longrightarrow> byte_at k (length p) = Some b"
proof -
  assume "has_prefix k (p @ [b])"
  then have e: "take (Suc (length p)) k = p @ [b]" by (simp add: has_prefix_def)
  have "min (length k) (Suc (length p)) = Suc (length p)"
    using arg_cong [OF e, of length] unfolding length_take by simp
  then have "length p < length k" by simp
  moreover have "k ! length p = take (Suc (length p)) k ! length p" by simp
  ultimately show ?thesis by (simp add: e byte_at_def)
qed

lemma collect_all_spec:
  assumes "art_wf (node_shape False) A p node"
  shows "lists_entries (collect_all node) (\<lambda>k. has_prefix k p) (\<lambda>k. get_from node k (length p))"
  using assms
proof (induction rule: art_wf.induct)
  case (wf_leaf k p v)
  then show ?case by (auto simp: lists_entries_def split: if_splits)
next
  case (wf_node node p)
  let ?get = "\<lambda>k. get_from node k (length p)"
  note nl = wf_node(2)
  obtain bs where bs: "lists_children node bs" using ordered_children_spec [OF wf_node(1)] by blast
  let ?f = "\<lambda>b. collect_all (the (child_at node b))"
  have get: "?get k = (case child_at node b of None \<Rightarrow> None | Some c \<Rightarrow> get_from c k (length (p @ [b])))"
    if "has_prefix k (p @ [b])" for k b
    using prefix_byte [OF that] unfolding get_from_node [OF nl] by (cases "child_at node b") simp_all
  have "lists_entries (?f b) (\<lambda>k. has_prefix k (p @ [b])) ?get" if "b \<in> set bs" for b
  proof -
    have "child_at node b \<noteq> None" using bs that unfolding lists_children_def by blast
    then obtain c where c: "child_at node b = Some c" by blast
    have "lists_entries (?f b) (\<lambda>k. has_prefix k (p @ [b])) (\<lambda>k. get_from c k (length (p @ [b])))"
      using wf_node(5) [OF c] c by simp
    then show ?thesis by (rule lists_entries_cong) (use get c in auto)
  qed
  then have "lists_entries (concat (map ?f bs)) (\<lambda>k. \<exists>b \<in> set bs. has_prefix k (p @ [b])) ?get"
    using bs prefix_unique by (intro entries_concat) (auto simp: lists_children_def)
  then have "lists_entries (val_list (get_node_val node) @ concat (map ?f bs))
      (\<lambda>k. k = p \<or> (\<exists>b \<in> set bs. has_prefix k (p @ [b]))) ?get"
    using wf_node(3) get_from_node [OF nl, of p "length p"]
    by (intro entries_Cons) (auto simp: prefix_not_self byte_at_def)
  moreover have "collect_all node = val_list (get_node_val node) @ concat (map ?f bs)"
    using bs nl by (simp add: lists_children_def comp_def)
  moreover have "b \<in> set bs" if "has_prefix k (p @ [b])" "?get k = Some v" for k b v
    using that get [OF that(1)] bs by (auto simp: lists_children_def split: option.splits)
  ultimately show ?case
    by simp (rule lists_entries_cong, assumption, use prefix_iff in blast)
qed

declare collect_prefix.simps [simp del]

lemma collect_prefix_spec:
  assumes "art_wf (node_shape False) A p node" "has_prefix pre p"
  shows "lists_entries (collect_prefix node pre (length p)) (\<lambda>k. has_prefix k pre) (\<lambda>k. get_from node k (length p))"
  using assms
proof (induction rule: art_wf.induct)
  case (wf_leaf k p v)
  then show ?case
    by (subst collect_prefix.simps) (auto simp: lists_entries_def val_list_def has_prefix_def split: if_splits)
next
  case (wf_node node p)
  note nl = wf_node(2)
  have wf: "art_wf (node_shape False) A p node" using wf_node(1-4) by (rule art_wf.wf_node)
  show ?case
  proof (cases "length pre \<le> length p")
    case True
    then have "pre = p" using wf_node(6) by (auto simp: has_prefix_def)
    then show ?thesis using collect_all_spec [OF wf] by (simp add: collect_prefix.simps)
  next
    case False
    define b where "b = pre ! length p"
    have pb: "has_prefix pre (p @ [b])"
      using prefix_step [OF wf_node(6), of b] False by (simp add: byte_at_def b_def)
    have "\<not> has_prefix p pre" using False by (auto simp: has_prefix_def dest: arg_cong [of _ _ length])
    then have "filter (\<lambda>(k, v). has_prefix k pre) (val_list (get_node_val node)) = []"
      using wf_node(3) by (cases "get_node_val node") (auto simp: val_list_def)
    then have e: "collect_prefix node pre (length p) =
        (case child_at node b of None \<Rightarrow> [] | Some c \<Rightarrow> collect_prefix c pre (length (p @ [b])))"
      using False nl matching_children_spec [OF wf_node(1), of b]
      by (subst collect_prefix.simps) (cases node; simp add: b_def split: option.split)
    have get: "get_from node k (length p) = (case child_at node b of None \<Rightarrow> None | Some c \<Rightarrow> get_from c k (length (p @ [b])))"
      if k: "has_prefix k pre" for k
    proof -
      have "has_prefix k (p @ [b])" using k pb by (rule has_prefix_trans)
      from prefix_byte [OF this] show ?thesis unfolding get_from_node [OF nl]
        by (cases "child_at node b") simp_all
    qed
    show ?thesis
    proof (cases "child_at node b")
      case None
      then show ?thesis using get by (auto simp: e lists_entries_def)
    next
      case (Some c)
      show ?thesis unfolding e Some option.case
        by (rule lists_entries_cong [OF wf_node(5) [OF Some pb]]) (use get Some in auto)
    qed
  qed
qed

section \<open>Whole trees\<close>

lemma Art_get_prefix_entries:
  assumes "tree_wf (node_shape False) A t"
  shows "lists_entries (Art_get_prefix t pre) (\<lambda>k. has_prefix k pre) (Art_get t)"
proof (cases t)
  case None
  then show ?thesis by (simp add: Art_get_prefix_def lists_entries_def Art_get_def)
next
  case (Some root)
  then have "art_wf (node_shape False) A [] root" using assms by simp
  from collect_prefix_spec [OF this has_prefix_Nil, of pre] show ?thesis
    by (simp add: Some Art_get_prefix_def Art_get_def [abs_def])
qed

text \<open>
  C24: on a tree built by any insertions and then any removals, a prefix search returns each
  stored key with the prefix exactly once, with the value a lookup gives.
\<close>

theorem Art_get_prefix_exact:
  "\<exists>t. art_puts kvs Art_new = Some t \<and> distinct (map fst (Art_get_prefix (art_removes ks t) pre)) \<and>
    set (Art_get_prefix (art_removes ks t) pre) =
      {(k, v). has_prefix k pre \<and> k \<notin> set ks \<and> map_of (rev kvs) k = Some v}"
proof -
  obtain t where t: "art_puts kvs Art_new = Some t" "tree_wf (node_shape False) UNIV (art_removes ks t)"
    "\<And>k. Art_get (art_removes ks t) k = (if k \<in> set ks then None else map_of (rev kvs) k)"
    using built_tree [of kvs ks] by blast
  have "lists_entries (Art_get_prefix (art_removes ks t) pre) (\<lambda>k. has_prefix k pre \<and> k \<notin> set ks) (map_of (rev kvs))"
    by (rule lists_entries_cong [OF Art_get_prefix_entries [OF t(2)]]) (simp add: t(3))
  then show ?thesis using t(1) by (auto simp: lists_entries_def)
qed

text \<open>
  A snapshot is independent of later operations and answers every lookup and prefix
  search as the tree did when it was taken.
\<close>

lemma ArtSnapshot_spec:
  "\<exists>t. art_puts kvs Art_new = Some t \<and>
    ArtSnapshot_get (Art_snapshot (art_removes ks t)) key = Art_get (art_removes ks t) key \<and>
    set (ArtSnapshot_get_prefix (Art_snapshot (art_removes ks t)) pre) = set (Art_get_prefix (art_removes ks t) pre)"
proof -
  obtain t where t: "art_puts kvs Art_new = Some t" "tree_wf (node_shape False) UNIV (art_removes ks t)"
    using built_tree [of kvs ks] by blast
  let ?s = "Art_snapshot (art_removes ks t)" and ?get = "Art_get (art_removes ks t)"
  have s: "distinct (map fst ?s)" "set ?s = {(k, v). ?get k = Some v}"
    using Art_get_prefix_entries [OF t(2), of "[]"] by (simp_all add: Art_snapshot_def lists_entries_def)
  have p: "set (Art_get_prefix (art_removes ks t) pre) = {(k, v). has_prefix k pre \<and> ?get k = Some v}"
    using Art_get_prefix_entries [OF t(2), of pre] by (simp add: lists_entries_def)
  have "ArtSnapshot_get items key = map_of items key" for items :: "(bytes \<times> 'a) list"
    by (induction items) (auto simp: ArtSnapshot_get_def)
  moreover have "map_of ?s key = ?get key"
    using s by (cases "?get key") (auto simp: map_of_eq_None_iff)
  moreover have "set (ArtSnapshot_get_prefix ?s pre) = set (Art_get_prefix (art_removes ks t) pre)"
    unfolding p using s(2) by (auto simp: ArtSnapshot_get_prefix_def)
  ultimately show ?thesis using t(1) by simp
qed

end
