(* ===== verification/Shard.thy ===== *)
theory Shard
  imports Art_Prefix Version_Chain Toc_Format Io_Mmap Footer Chunk
begin

text \<open>
  The routing of keys to shards, the state of a shard and the checkpoint coordinator:
  \<open>crates/tpx-shard/src/router.rs\<close>, \<open>shard.rs\<close> and \<open>checkpoint.rs\<close>. Reference-counted pointers
  and locks disappear: an operation takes the parts of the state it locks and returns them.
  The monotonic clock is read once per call and is the argument \<open>now\<close>, in milliseconds.
\<close>

section \<open>Router\<close>

definition shard_for_key :: "hash64 \<Rightarrow> bytes \<Rightarrow> u16 \<Rightarrow> u16" where
  "shard_for_key xxh64 key shard_count =
     (if shard_count \<le> 1 then 0 else ucast (xxh64 key 0 mod ucast shard_count))"

lemma shard_for_key_less:
  assumes "0 < n"
  shows "unat (shard_for_key x key n) < unat n"
proof (cases "n \<le> 1")
  case True
  then show ?thesis using assms by (simp add: shard_for_key_def word_less_nat_alt)
next
  case False
  have n: "unat n < 2 ^ 16" using unsigned_less [of n] by simp
  then have u: "unat (ucast n :: u64) = unat n" by (simp add: unsigned_ucast_eq take_bit_nat_eq_self)
  have "unat (x key 0 mod ucast n) = unat (x key 0) mod unat n" by (simp add: unat_mod_distrib u)
  moreover have m: "unat (x key 0) mod unat n < unat n" using assms by (simp add: word_less_nat_alt)
  ultimately have "unat (ucast (x key 0 mod ucast n) :: u16) = unat (x key 0) mod unat n"
    using n by (simp add: unsigned_ucast_eq take_bit_nat_eq_self)
  then show ?thesis using False m by (simp add: shard_for_key_def)
qed

section \<open>Shards\<close>

record shard =
  sh_id :: u16
  sh_art :: "chunk_ref art_tree"
  sh_append_offset :: u64
  sh_version_chains :: "(bytes, version_chain) hash_map"
  sh_chunk_count :: u64

definition Shard_new :: "u16 \<Rightarrow> u64 \<Rightarrow> shard" where
  "Shard_new shard_id start_offset = \<lparr>sh_id = shard_id, sh_art = Art_new, sh_append_offset = start_offset,
     sh_version_chains = [], sh_chunk_count = 0\<rparr>"

definition allocate_append :: "u64 \<Rightarrow> shard \<Rightarrow> u64 \<times> shard" where
  "allocate_append bytes_len s =
     (sh_append_offset s, s\<lparr>sh_append_offset := sh_append_offset s + bytes_len\<rparr>)"

definition snapshot_art :: "shard \<Rightarrow> (bytes \<times> chunk_ref) list" where
  "snapshot_art s = Art_snapshot (sh_art s)"

section \<open>Checkpoints\<close>

record coordinator =
  co_interval_bytes :: u64
  co_interval_ms :: u64
  co_bytes_written_since_last :: u64
  co_last_checkpoint_time :: nat

definition Coordinator_new :: "nat \<Rightarrow> u64 \<Rightarrow> u64 \<Rightarrow> coordinator" where
  "Coordinator_new now interval_bytes interval_ms =
     \<lparr>co_interval_bytes = interval_bytes, co_interval_ms = interval_ms,
      co_bytes_written_since_last = 0, co_last_checkpoint_time = now\<rparr>"

definition Coordinator_default :: "nat \<Rightarrow> coordinator" where
  "Coordinator_default now =
     Coordinator_new now DEFAULT_CHECKPOINT_INTERVAL_BYTES DEFAULT_CHECKPOINT_INTERVAL_MS"

definition record_bytes_written :: "u64 \<Rightarrow> coordinator \<Rightarrow> coordinator" where
  "record_bytes_written n c = c\<lparr>co_bytes_written_since_last := co_bytes_written_since_last c + n\<rparr>"

definition should_checkpoint :: "nat \<Rightarrow> coordinator \<Rightarrow> bool" where
  "should_checkpoint now c =
     (let written = co_bytes_written_since_last c in
      if written \<ge> co_interval_bytes c then True
      else
        let elapsed = (of_nat (now - co_last_checkpoint_time c) :: u64) in
        elapsed \<ge> co_interval_ms c \<and> written > 0)"

text \<open>The footer, and the block that a checkpoint appends: the table, zeros, the footer.\<close>

definition checkpoint_footer :: "hash64 \<Rightarrow> shard list \<Rightarrow> bytes \<Rightarrow> nat \<Rightarrow> bool \<Rightarrow> footer" where
  "checkpoint_footer xxh64 shards toc_bytes toc_offset is_final =
     Footer_new (of_nat toc_offset) (\<Sum>s\<leftarrow>shards. ucast (sh_chunk_count s))
       (xxh64 toc_bytes (of_nat toc_offset)) (\<not> is_final)"

definition checkpoint_block :: "bytes \<Rightarrow> bytes \<Rightarrow> bytes" where
  "checkpoint_block toc_bytes footer_bytes =
     (let rem = (length toc_bytes + length footer_bytes) mod 4096;
          pad_len = (if rem = 0 then 0 else 4096 - rem) in
      resize0 (length toc_bytes + pad_len) toc_bytes @ footer_bytes)"

lemma checkpoint_block_shape:
  "\<exists>n. checkpoint_block tb fb = tb @ replicate n 0 @ fb \<and> 4096 dvd length (checkpoint_block tb fb)"
proof -
  let ?l = "length tb + length fb"
  have "4096 dvd ?l + (if ?l mod 4096 = 0 then 0 else 4096 - ?l mod 4096)" by (rule pad_len_dvd) simp
  then have "4096 dvd length tb + (if ?l mod 4096 = 0 then 0 else 4096 - ?l mod 4096) + length fb"
    by (simp only: ac_simps)
  then show ?thesis by (auto simp: checkpoint_block_def Let_def resize0_def min_def)
qed

definition execute_checkpoint ::
  "hash64 \<Rightarrow> nat \<Rightarrow> shard list \<Rightarrow> mmap_backend \<Rightarrow> toc \<Rightarrow> bool \<Rightarrow> coordinator
     \<Rightarrow> footer res \<times> shard list \<times> mmap_backend \<times> coordinator" where
  "execute_checkpoint xxh64 now shards io master_toc is_final c =
     (let toc_bytes = Toc_serialize master_toc;
          toc_offset = io_len io;
          footer = checkpoint_footer xxh64 shards toc_bytes toc_offset is_final;
          block = checkpoint_block toc_bytes (Footer_serialize footer);
          (r, io) = io_append block io in
      case r of
        Inl err \<Rightarrow> (Inl err, shards, io, c)
      | Inr _ \<Rightarrow>
          let (r, io) = io_sync io in
          (case r of
             Inl err \<Rightarrow> (Inl err, shards, io, c)
           | Inr _ \<Rightarrow>
               let new_end = toc_offset + length block in
               (Inr footer,
                map (\<lambda>s. s\<lparr>sh_append_offset := of_nat new_end\<rparr>) shards, io,
                c\<lparr>co_bytes_written_since_last := 0, co_last_checkpoint_time := now\<rparr>)))"

end
