(* ===== verification/Engine_State.thy ===== *)
theory Engine_State
  imports Shard Content_Store Cdc Auto_Select Chunk File_Header
begin

text \<open>
  The sharded storage engine, \<open>crates/tpx-shard/src/engine.rs\<close>. An operation takes the engine
  state and answers a result together with the new state, errors included, because the
  effects before an error stay; \<open>None\<close> stands for a call that panics (an index out of range,
  or the radix tree's \<open>unwrap\<close>). The hash functions and codecs of foreign crates are the
  fields of \<open>engine_env\<close>. The clock readings of a call are \<open>now\<close> (monotonic, milliseconds) and
  \<open>secs\<close> (wall clock). The path is the file's contents at the time of opening, and the
  threads of \<open>put_batch\<close>, which only read, are their results in order.
\<close>

record engine_env =
  ev_lib :: codec_lib
  ev_hash128 :: "bytes \<Rightarrow> u128"
  ev_crc32 :: "bytes \<Rightarrow> u32"

abbreviation ev_xxh64 :: "engine_env \<Rightarrow> hash64" where
  "ev_xxh64 env \<equiv> cl_xxh64 (ev_lib env)"

record engine =
  en_mode :: OpenMode
  en_shards :: "shard list"
  en_io :: mmap_backend
  en_header :: file_header
  en_master_toc :: toc
  en_content_store :: content_store
  en_coordinator :: coordinator
  en_is_closed :: bool

record clock =
  ck_now :: nat
  ck_secs :: u64

section \<open>Operations on the state\<close>

type_synonym 'a op = "engine \<Rightarrow> ('a res \<times> engine) option"

definition okS :: "'a \<Rightarrow> 'a op" where
  "okS x e = Some (Inr x, e)"

definition errS :: "tpx_error \<Rightarrow> 'a op" where
  "errS err e = Some (Inl err, e)"

definition bindS :: "'a op \<Rightarrow> ('a \<Rightarrow> 'b op) \<Rightarrow> 'b op" where
  "bindS m f e =
     (case m e of
        None \<Rightarrow> None
      | Some (Inl err, e') \<Rightarrow> Some (Inl err, e')
      | Some (Inr x, e') \<Rightarrow> f x e')"

definition resS :: "'a res \<Rightarrow> 'a op" where
  "resS r e = Some (r, e)"

definition ioS :: "(mmap_backend \<Rightarrow> 'a res \<times> mmap_backend) \<Rightarrow> 'a op" where
  "ioS f e = (case f (en_io e) of (r, io) \<Rightarrow> Some (r, e\<lparr>en_io := io\<rparr>))"

definition updS :: "(engine \<Rightarrow> engine) \<Rightarrow> unit op" where
  "updS f e = Some (Inr (), f e)"

primrec mapS :: "('a \<Rightarrow> 'b op) \<Rightarrow> 'a list \<Rightarrow> 'b list op" where
  "mapS f [] = okS []"
| "mapS f (x # xs) = bindS (f x) (\<lambda>y. bindS (mapS f xs) (\<lambda>ys. okS (y # ys)))"

section \<open>Creating and opening\<close>

definition IoHints_default :: io_hints where
  "IoHints_default = \<lparr>ih_direct_io = False, ih_sqpoll = False, ih_iopoll = False, ih_spdk = False\<rparr>"

definition header_block :: "file_header \<Rightarrow> bytes" where
  "header_block header = pad_to_align (FileHeader_serialize header) (fh_chunk_align header)"

definition engine_create_with_retention ::
  "clock \<Rightarrow> bytes option \<Rightarrow> bool \<Rightarrow> u16 option \<Rightarrow> RetentionPolicy \<Rightarrow> engine res" where
  "engine_create_with_retention ck existing locked shard_count retention =
     (let sc = max (case shard_count of None \<Rightarrow> 4 | Some n \<Rightarrow> n) 1;
          header = FileHeader_new sc DEFAULT_CHUNK_ALIGN 0x02 in
      bindR (detect_best_tier existing locked ReadWrite IoHints_default) (\<lambda>io.
        let header_bytes = header_block header in
        case io_write_at 0 header_bytes io of
          (r, io) \<Rightarrow> bindR r (\<lambda>_.
            let initial_offset = of_nat (length header_bytes) in
            Inr \<lparr>en_mode = ReadWrite,
                 en_shards = map (\<lambda>i. Shard_new (of_nat i) initial_offset) [0..<unat sc],
                 en_io = io, en_header = header, en_master_toc = Toc_new,
                 en_content_store = ContentStore_new,
                 en_coordinator = Coordinator_default (ck_now ck), en_is_closed = False\<rparr>)))"

definition engine_create :: "clock \<Rightarrow> bytes option \<Rightarrow> bool \<Rightarrow> u16 option \<Rightarrow> engine res" where
  "engine_create ck existing locked shard_count =
     engine_create_with_retention ck existing locked shard_count KeepLatest"

text \<open>Replaying the table into the shards. A version's hashes are the places of its chunks.\<close>

fun art_insert_refs :: "bytes \<Rightarrow> chunk_ref list \<Rightarrow> chunk_ref art_tree \<Rightarrow> chunk_ref art_tree option" where
  "art_insert_refs key [] t = Some t"
| "art_insert_refs key (c # cs) t =
     (case Art_insert key c t of None \<Rightarrow> None | Some (_, t') \<Rightarrow> art_insert_refs key cs t')"

definition chunk_place :: "chunk_ref \<Rightarrow> u128" where
  "chunk_place c = push_bit 64 (ucast (cr_shard_id c)) OR ucast (cr_chunk_offset c)"

definition chain_or_new :: "bytes \<Rightarrow> RetentionPolicy \<Rightarrow> (bytes, version_chain) hash_map \<Rightarrow> version_chain" where
  "chain_or_new key retention vcs =
     (case map_of vcs key of Some vc \<Rightarrow> vc | None \<Rightarrow> VersionChain_new key retention)"

definition load_shard :: "clock \<Rightarrow> toc_entry \<Rightarrow> shard \<Rightarrow> shard option" where
  "load_shard ck entry shard =
     (if te_tombstone entry = 0 then
        (case art_insert_refs (te_key entry) (te_chunk_refs entry) (sh_art shard) of
           None \<Rightarrow> None
         | Some art \<Rightarrow>
             let vc = chain_or_new (te_key entry) KeepForever (sh_version_chains shard);
                 (_, vc) = VersionChain_append vc (ck_secs ck) (te_dtype_id entry) (te_shape entry)
                             (te_attrs entry) (map chunk_place (te_chunk_refs entry)) in
             Some (shard\<lparr>sh_art := art,
                         sh_version_chains := AList.update (te_key entry) vc (sh_version_chains shard)\<rparr>))
      else
        Some (shard\<lparr>sh_art := snd (Art_remove (te_key entry) (sh_art shard)),
                    sh_version_chains := AList.delete (te_key entry) (sh_version_chains shard)\<rparr>))"

definition load_entry :: "engine_env \<Rightarrow> clock \<Rightarrow> u16 \<Rightarrow> toc_entry \<Rightarrow> shard list \<Rightarrow> shard list option" where
  "load_entry env ck sc entry shards =
     (let s_id = unat (shard_for_key (ev_xxh64 env) (te_key entry) sc) in
      if s_id < length shards
      then map_option (\<lambda>s. shards[s_id := s]) (load_shard ck entry (shards ! s_id))
      else Some shards)"

fun load_entries :: "engine_env \<Rightarrow> clock \<Rightarrow> u16 \<Rightarrow> toc_entry list \<Rightarrow> shard list \<Rightarrow> shard list option" where
  "load_entries env ck sc [] shards = Some shards"
| "load_entries env ck sc (e # es) shards =
     (case load_entry env ck sc e shards of None \<Rightarrow> None | Some shards \<Rightarrow> load_entries env ck sc es shards)"

text \<open>
  What \<open>open\<close> reads: the header, the most recent footer with its offset, the table. The scan
  returns only footers whose table lies in front of them, so that the length of the table is
  an exact difference.
\<close>

definition read_archive :: "mmap_backend \<Rightarrow> (file_header \<times> toc \<times> nat) res \<times> mmap_backend" where
  "read_archive io =
     (let file_len = io_len io in
      if file_len < HEADER_SIZE then (Inl (BufferTooSmall ''FileHeader'' HEADER_SIZE file_len), io)
      else
        (case io_read_at 0 HEADER_SIZE io of
           (r, io) \<Rightarrow>
        (case bindR r FileHeader_deserialize of
           Inl err \<Rightarrow> (Inl err, io)
         | Inr header \<Rightarrow>
        (case io_read_at 0 file_len io of
           (r, io) \<Rightarrow>
        (case bindR r (\<lambda>bs. scan_for_footer bs file_len (fh_chunk_align header)) of
           Inl err \<Rightarrow> (Inl err, io)
         | Inr None \<Rightarrow> (Inl (CorruptArchive (Lit ''No valid footer found in TPX archive'')), io)
         | Inr (Some (footer, footer_offset)) \<Rightarrow>
             let toc_offset = unat (ft_toc_offset footer) in
        (case io_read_at toc_offset (footer_offset - toc_offset) io of
           (r, io) \<Rightarrow>
             (bindR (bindR r Toc_deserialize) (\<lambda>toc. Inr (header, toc, footer_offset)), io)))))))"

definition engine_open :: "engine_env \<Rightarrow> clock \<Rightarrow> bytes option \<Rightarrow> bool \<Rightarrow> OpenMode \<Rightarrow> engine res option" where
  "engine_open env ck existing locked mode =
     (case detect_best_tier existing locked mode IoHints_default of
        Inl err \<Rightarrow> Some (Inl err)
      | Inr io \<Rightarrow>
          (let file_len = io_len io in
           case read_archive io of
             (Inl err, io) \<Rightarrow> Some (Inl err)
           | (Inr (header, toc, footer_offset), io) \<Rightarrow>
               let clean_file_len = footer_offset + 24;
                   io = (if file_len > clean_file_len \<and> (mode = ReadWrite \<or> mode = Append)
                         then snd (io_truncate clean_file_len io) else io);
                   sc = max (fh_shard_count header) 1;
                   shards = map (\<lambda>i. Shard_new (of_nat i) (of_nat file_len)) [0..<unat sc] in
               (case load_entries env ck sc (toc_entries toc) shards of
                  None \<Rightarrow> None
                | Some shards \<Rightarrow>
                    Some (Inr \<lparr>en_mode = mode, en_shards = shards, en_io = io, en_header = header,
                               en_master_toc = toc, en_content_store = ContentStore_new,
                               en_coordinator = Coordinator_default (ck_now ck), en_is_closed = False\<rparr>))))"

end
