(* ===== verification/Engine.thy ===== *)
theory Engine
  imports Engine_State
begin

text \<open>
  The operations of the engine, \<open>crates/tpx-shard/src/engine.rs\<close>: storing and reading tensors,
  deletion, versions, checkpoints, compaction and closing.
\<close>

section \<open>Retention\<close>

text \<open>\<open>str::parse::<u32>\<close>: an optional plus sign and decimal digits, below 2^32.\<close>

fun parse_digits :: "bytes \<Rightarrow> nat \<Rightarrow> nat option" where
  "parse_digits [] n = Some n"
| "parse_digits (b # bs) n =
     (if 48 \<le> b \<and> b \<le> 57 then
        (let n = n * 10 + unat (b - 48) in if n < 2 ^ 32 then parse_digits bs n else None)
      else None)"

definition parse_u32 :: "bytes \<Rightarrow> u32 option" where
  "parse_u32 s =
     (case s of
        [] \<Rightarrow> None
      | b # bs \<Rightarrow> map_option of_nat (parse_digits (if b = 43 \<and> bs \<noteq> [] then bs else s) 0))"

definition parse_retention :: "bytes \<Rightarrow> RetentionPolicy" where
  "parse_retention retain =
     (if retain = str ''keep_forever'' then KeepForever
      else if starts_with retain (str ''keep_last_n:'') then
        KeepLastN (case parse_u32 (drop (length (str ''keep_last_n:'')) retain) of Some n \<Rightarrow> n | None \<Rightarrow> 1)
      else KeepLatest)"

section \<open>Storing\<close>

definition shardS :: "engine_env \<Rightarrow> bytes \<Rightarrow> u16 op" where
  "shardS env key e =
     (let s_id = shard_for_key (ev_xxh64 env) key (of_nat (length (en_shards e))) in
      if unat s_id < length (en_shards e) then Some (Inr s_id, e) else None)"

definition update_shard :: "u16 \<Rightarrow> (shard \<Rightarrow> shard) \<Rightarrow> engine \<Rightarrow> engine" where
  "update_shard s_id f e =
     e\<lparr>en_shards := (en_shards e)[unat s_id := f (en_shards e ! unat s_id)]\<rparr>"

definition cdcS :: "engine_env \<Rightarrow> bytes \<Rightarrow> cdc_segment list op" where
  "cdcS env data e = map_option (\<lambda>segments. (Inr segments, e)) (cdc_chunk (ev_hash128 env) data CdcConfig_default)"

definition compress_segment :: "engine_env \<Rightarrow> bytes \<Rightarrow> DTypeId \<Rightarrow> codec_selection \<times> bytes res" where
  "compress_segment env raw_segment dtype =
     (let selection = auto_select raw_segment dtype 250;
          filtered = filter_apply (sel_filter selection) raw_segment dtype in
      (selection, codec_compress (ev_lib env) (sel_codec selection) filtered (sel_level selection) dtype))"

definition chunk_bytes :: "engine_env \<Rightarrow> u32 \<Rightarrow> codec_selection \<Rightarrow> nat \<Rightarrow> bytes \<Rightarrow> bytes" where
  "chunk_bytes env chunk_align selection seg_len compressed =
     (let crc = ev_crc32 env compressed;
          chunk_header = ChunkHeader_new (sel_codec selection) (sel_filter selection) 1
            (of_nat seg_len) (of_nat seg_len) crc;
          block_table = [of_nat (length compressed)] in
      pad_to_align (ChunkHeader_serialize chunk_header block_table @ compressed) chunk_align)"

definition entry_ref :: "content_entry \<Rightarrow> chunk_ref" where
  "entry_ref existing = \<lparr>cr_shard_id = ce_shard_id existing,
     cr_chunk_offset = ce_chunk_offset existing, cr_chunk_len = ce_chunk_len existing\<rparr>"

text \<open>A chunk that was appended at \<open>offset\<close>: into the content store, and counted.\<close>

definition record_chunk :: "u16 \<Rightarrow> u128 \<Rightarrow> u64 \<Rightarrow> u32 \<Rightarrow> engine \<Rightarrow> engine" where
  "record_chunk s_id content_hash off chunk_len e =
     e\<lparr>en_content_store := snd (cs_insert (en_content_store e) content_hash
         (ContentEntry_new s_id off chunk_len 1)),
       en_coordinator := record_bytes_written (ucast chunk_len) (en_coordinator e)\<rparr>"

definition put_segment :: "engine_env \<Rightarrow> u16 \<Rightarrow> bytes \<Rightarrow> DTypeId \<Rightarrow> cdc_segment \<Rightarrow> chunk_ref op" where
  "put_segment env s_id data dtype seg e =
     (case cs_lookup (en_content_store e) (sg_content_hash seg) of
        Some existing \<Rightarrow>
          Some (Inr (entry_ref existing),
            e\<lparr>en_content_store := snd (cs_add_ref (en_content_store e) (sg_content_hash seg))\<rparr>)
      | None \<Rightarrow>
          (case compress_segment env (segment_bytes data seg) dtype of (selection, r) \<Rightarrow>
             bindS (resS r) (\<lambda>compressed.
               let bs = chunk_bytes env (fh_chunk_align (en_header e)) selection (sg_len seg) compressed in
             bindS (ioS (io_append bs)) (\<lambda>append_offset.
               let chunk_len = of_nat (length bs); off = of_nat append_offset in
             bindS (updS (record_chunk s_id (sg_content_hash seg) off chunk_len)) (\<lambda>_.
             okS \<lparr>cr_shard_id = s_id, cr_chunk_offset = off, cr_chunk_len = chunk_len\<rparr>)))) e)"

definition put_art :: "u16 \<Rightarrow> bytes \<Rightarrow> chunk_ref list \<Rightarrow> unit op" where
  "put_art s_id key chunk_refs e =
     (case chunk_refs of
        [] \<Rightarrow> okS () e
      | first_ref # _ \<Rightarrow>
          (case Art_insert key first_ref (sh_art (en_shards e ! unat s_id)) of
             None \<Rightarrow> None
           | Some (_, art) \<Rightarrow>
               Some (Inr (), update_shard s_id (\<lambda>s. s\<lparr>sh_art := art,
                 sh_chunk_count := sh_chunk_count s + of_nat (length chunk_refs)\<rparr>) e)))"

definition append_version ::
  "clock \<Rightarrow> u16 \<Rightarrow> bytes \<Rightarrow> version_chain \<Rightarrow> DTypeId \<Rightarrow> u32 list \<Rightarrow> (bytes \<times> AttrValue) list
     \<Rightarrow> u128 list \<Rightarrow> engine \<Rightarrow> engine" where
  "append_version ck s_id key vc dtype shape attrs content_hashes e =
     (case VersionChain_append vc (ck_secs ck) dtype shape attrs content_hashes of
        ((v_id, evicted), vc) \<Rightarrow>
          let e = update_shard s_id (\<lambda>s. s\<lparr>sh_version_chains := AList.update key vc (sh_version_chains s)\<rparr>) e in
          e\<lparr>en_content_store := fold (\<lambda>h s. snd (cs_release s h)) evicted (en_content_store e)\<rparr>)"

definition chain_of :: "u16 \<Rightarrow> bytes \<Rightarrow> RetentionPolicy \<Rightarrow> engine \<Rightarrow> version_chain" where
  "chain_of s_id key retention e = chain_or_new key retention (sh_version_chains (en_shards e ! unat s_id))"

definition add_toc_entry ::
  "engine_env \<Rightarrow> bytes \<Rightarrow> DTypeId \<Rightarrow> u32 list \<Rightarrow> (bytes \<times> AttrValue) list \<Rightarrow> chunk_ref list \<Rightarrow> engine \<Rightarrow> engine" where
  "add_toc_entry env key dtype shape attrs chunk_refs e =
     e\<lparr>en_master_toc := Toc_add_entry (en_master_toc e) (TocEntry_new (ev_xxh64 env) key dtype shape attrs chunk_refs)\<rparr>"

section \<open>Checkpoints\<close>

definition run_checkpoint :: "engine_env \<Rightarrow> clock \<Rightarrow> bool \<Rightarrow> footer op" where
  "run_checkpoint env ck is_final e =
     (case execute_checkpoint (ev_xxh64 env) (ck_now ck) (en_shards e) (en_io e) (en_master_toc e) is_final
             (en_coordinator e) of
        (r, shards, io, co) \<Rightarrow> Some (r, e\<lparr>en_shards := shards, en_io := io, en_coordinator := co\<rparr>))"

definition engine_checkpoint :: "engine_env \<Rightarrow> clock \<Rightarrow> footer op" where
  "engine_checkpoint env ck = run_checkpoint env ck False"

definition auto_checkpoint :: "engine_env \<Rightarrow> clock \<Rightarrow> unit op" where
  "auto_checkpoint env ck e =
     (if should_checkpoint (ck_now ck) (en_coordinator e)
      then bindS (engine_checkpoint env ck) (\<lambda>_. okS ()) e
      else okS () e)"

definition engine_flush :: "engine_env \<Rightarrow> clock \<Rightarrow> unit op" where
  "engine_flush env ck = bindS (engine_checkpoint env ck) (\<lambda>_. ioS io_sync)"

section \<open>Put\<close>

definition engine_put_with_retention ::
  "engine_env \<Rightarrow> clock \<Rightarrow> bytes \<Rightarrow> bytes \<Rightarrow> DTypeId \<Rightarrow> u32 list \<Rightarrow> attrs \<Rightarrow> bytes \<Rightarrow> unit op" where
  "engine_put_with_retention env ck key data dtype shape attrs retain e =
     (if en_mode e = ReadOnly then errS ReadOnlyMode e
      else
        bindS (shardS env key) (\<lambda>s_id.
        bindS (cdcS env data) (\<lambda>segments.
          let retention_policy = parse_retention retain in
        bindS (mapS (put_segment env s_id data dtype) segments) (\<lambda>chunk_refs.
        bindS (put_art s_id key chunk_refs) (\<lambda>_.
        bindS (updS (\<lambda>e.
          append_version ck s_id key ((chain_of s_id key retention_policy e)\<lparr>vc_retention := retention_policy\<rparr>)
            dtype shape attrs (map sg_content_hash segments) e)) (\<lambda>_.
        bindS (updS (add_toc_entry env key dtype shape attrs chunk_refs)) (\<lambda>_.
        auto_checkpoint env ck)))))) e)"

definition engine_put ::
  "engine_env \<Rightarrow> clock \<Rightarrow> bytes \<Rightarrow> bytes \<Rightarrow> DTypeId \<Rightarrow> u32 list \<Rightarrow> attrs \<Rightarrow> unit op" where
  "engine_put env ck key data dtype shape attrs =
     engine_put_with_retention env ck key data dtype shape attrs (str ''keep_latest'')"

section \<open>Put of a batch\<close>

type_synonym batch_item = "bytes \<times> bytes \<times> DTypeId \<times> u32 list"

record processed_chunk =
  pc_content_hash :: u128
  pc_chunk_bytes :: bytes

record processed_tensor =
  pt_shard_id :: u16
  pt_chunks :: "processed_chunk list"

definition process_segment :: "engine_env \<Rightarrow> u32 \<Rightarrow> bytes \<Rightarrow> DTypeId \<Rightarrow> cdc_segment \<Rightarrow> processed_chunk" where
  "process_segment env chunk_align data dtype seg =
     (let raw_segment = segment_bytes data seg in
      case compress_segment env raw_segment dtype of (selection, r) \<Rightarrow>
        let compressed = (case r of Inr c \<Rightarrow> c | Inl _ \<Rightarrow> raw_segment) in
        \<lparr>pc_content_hash = sg_content_hash seg,
         pc_chunk_bytes = chunk_bytes env chunk_align selection (sg_len seg) compressed\<rparr>)"

definition process_tensor :: "engine_env \<Rightarrow> u16 \<Rightarrow> u32 \<Rightarrow> batch_item \<Rightarrow> processed_tensor option" where
  "process_tensor env shard_count chunk_align item =
     (case item of (key, data, dtype, _) \<Rightarrow>
        map_option (\<lambda>segments.
          \<lparr>pt_shard_id = shard_for_key (ev_xxh64 env) key shard_count,
           pt_chunks = map (process_segment env chunk_align data dtype) segments\<rparr>)
          (cdc_chunk (ev_hash128 env) data CdcConfig_default))"

record pending_write =
  pw_tensor_idx :: nat
  pw_chunk_idx :: nat
  pw_buffer_offset :: nat
  pw_chunk_len :: u32
  pw_content_hash :: u128
  pw_shard_id :: u16

type_synonym chunk_slots = "chunk_ref option list list"

record coalesced =
  cl_buffer :: bytes
  cl_pending :: "pending_write list"
  cl_slots :: chunk_slots
  cl_store :: content_store

definition set_slot :: "nat \<Rightarrow> nat \<Rightarrow> chunk_ref \<Rightarrow> chunk_slots \<Rightarrow> chunk_slots" where
  "set_slot t_idx c_idx r slots = slots[t_idx := (slots ! t_idx)[c_idx := Some r]]"

definition coalesce_chunk :: "nat \<Rightarrow> u16 \<Rightarrow> nat \<times> processed_chunk \<Rightarrow> coalesced \<Rightarrow> coalesced" where
  "coalesce_chunk t_idx s_id x st =
     (case x of (c_idx, chunk) \<Rightarrow>
        (case cs_lookup (cl_store st) (pc_content_hash chunk) of
           Some existing \<Rightarrow>
             st\<lparr>cl_store := snd (cs_add_ref (cl_store st) (pc_content_hash chunk)),
                cl_slots := set_slot t_idx c_idx (entry_ref existing) (cl_slots st)\<rparr>
         | None \<Rightarrow>
             st\<lparr>cl_buffer := cl_buffer st @ pc_chunk_bytes chunk,
                cl_pending := cl_pending st @
                  [\<lparr>pw_tensor_idx = t_idx, pw_chunk_idx = c_idx, pw_buffer_offset = length (cl_buffer st),
                    pw_chunk_len = of_nat (length (pc_chunk_bytes chunk)),
                    pw_content_hash = pc_content_hash chunk, pw_shard_id = s_id\<rparr>]\<rparr>))"

definition coalesce_tensor :: "nat \<times> processed_tensor \<Rightarrow> coalesced \<Rightarrow> coalesced" where
  "coalesce_tensor x st =
     (case x of (t_idx, pt) \<Rightarrow> fold (coalesce_chunk t_idx (pt_shard_id pt)) (enumerate 0 (pt_chunks pt)) st)"

definition coalesce :: "processed_tensor list \<Rightarrow> content_store \<Rightarrow> coalesced" where
  "coalesce pts store =
     fold coalesce_tensor (enumerate 0 pts)
       \<lparr>cl_buffer = [], cl_pending = [], cl_slots = map (\<lambda>pt. replicate (length (pt_chunks pt)) None) pts,
        cl_store = store\<rparr>"

definition commit_write :: "nat \<Rightarrow> pending_write \<Rightarrow> chunk_slots \<times> engine \<Rightarrow> chunk_slots \<times> engine" where
  "commit_write base_append_offset pw x =
     (case x of (slots, e) \<Rightarrow>
        let actual_offset = of_nat base_append_offset + of_nat (pw_buffer_offset pw);
            r = \<lparr>cr_shard_id = pw_shard_id pw, cr_chunk_offset = actual_offset, cr_chunk_len = pw_chunk_len pw\<rparr> in
        (set_slot (pw_tensor_idx pw) (pw_chunk_idx pw) r slots,
         record_chunk (pw_shard_id pw) (pw_content_hash pw) actual_offset (pw_chunk_len pw) e))"

definition batch_entry ::
  "engine_env \<Rightarrow> clock \<Rightarrow> batch_item \<times> processed_tensor \<times> chunk_ref option list \<Rightarrow> unit op" where
  "batch_entry env ck x e =
     (case x of ((key, data, dtype, shape), pt, slots) \<Rightarrow>
        let refs = map the (filter (\<lambda>r. r \<noteq> None) slots); s_id = pt_shard_id pt in
        if unat s_id < length (en_shards e) then
          bindS (put_art s_id key refs) (\<lambda>_.
          bindS (updS (\<lambda>e. append_version ck s_id key (chain_of s_id key KeepLatest e) dtype shape []
            (map pc_content_hash (pt_chunks pt)) e)) (\<lambda>_.
          updS (add_toc_entry env key dtype shape [] refs))) e
        else None)"

definition engine_put_batch :: "engine_env \<Rightarrow> clock \<Rightarrow> batch_item list \<Rightarrow> unit op" where
  "engine_put_batch env ck tensors e =
     (if en_mode e = ReadOnly then errS ReadOnlyMode e
      else if tensors = [] then okS () e
      else
        (case those (map (process_tensor env (of_nat (length (en_shards e))) (fh_chunk_align (en_header e))) tensors) of
           None \<Rightarrow> None
         | Some pts \<Rightarrow>
             let st = coalesce pts (en_content_store e) in
             bindS (updS (\<lambda>e. e\<lparr>en_content_store := cl_store st\<rparr>)) (\<lambda>_.
             bindS (if cl_buffer st \<noteq> [] then ioS (io_append (cl_buffer st)) else okS 0) (\<lambda>base e.
               (case fold (commit_write base) (cl_pending st) (cl_slots st, e) of
                  (slots, e) \<Rightarrow>
                    bindS (mapS (batch_entry env ck) (zip tensors (zip pts slots))) (\<lambda>_.
                    auto_checkpoint env ck) e))) e))"

section \<open>Reading\<close>

definition decode_chunk :: "engine_env \<Rightarrow> DTypeId \<Rightarrow> u64 \<Rightarrow> bytes \<Rightarrow> bytes res" where
  "decode_chunk env dtype_id chunk_offset bs =
     bindR (ChunkHeader_deserialize bs) (\<lambda>(hdr, block_table).
       let payload_start = 16 + length block_table * 4;
           compressed_len = sum_list (map unat block_table) in
       if payload_start + compressed_len > length bs
       then Inl (BufferTooSmall ''ChunkPayload'' (payload_start + compressed_len) (length bs))
       else
         let payload = take compressed_len (drop payload_start bs);
             actual_crc = ev_crc32 env payload in
         if actual_crc \<noteq> ch_payload_crc32c hdr
         then Inl (ChunkCrcMismatch chunk_offset (ch_payload_crc32c hdr) actual_crc)
         else
           bindR (codec_decompress (ev_lib env) (ch_codec_id hdr) payload
                    (unat (ch_uncompressed_len hdr)) dtype_id) (\<lambda>decompressed.
             Inr (filter_revert (ch_filter_id hdr) decompressed dtype_id)))"

definition read_chunk :: "engine_env \<Rightarrow> DTypeId \<Rightarrow> chunk_ref \<Rightarrow> bytes op" where
  "read_chunk env dtype_id r =
     bindS (ioS (io_read_at (unat (cr_chunk_offset r)) (unat (cr_chunk_len r)))) (\<lambda>bs.
       resS (decode_chunk env dtype_id (cr_chunk_offset r) bs))"

definition engine_read_tensor_from_entry :: "engine_env \<Rightarrow> toc_entry \<Rightarrow> owned_tensor op" where
  "engine_read_tensor_from_entry env entry =
     (if te_chunk_refs entry = [] then okS (OwnedTensor_new (te_dtype_id entry) (te_shape entry) [])
      else
        bindS (mapS (read_chunk env (te_dtype_id entry)) (te_chunk_refs entry)) (\<lambda>parts.
          okS (OwnedTensor_new (te_dtype_id entry) (te_shape entry) (concat parts))))"

definition engine_get :: "engine_env \<Rightarrow> bytes \<Rightarrow> owned_tensor option op" where
  "engine_get env key e =
     (case Toc_lookup (ev_xxh64 env) (en_master_toc e) key of
        None \<Rightarrow> okS None e
      | Some entry \<Rightarrow> bindS (engine_read_tensor_from_entry env entry) (\<lambda>t. okS (Some t)) e)"

definition attrs_map :: "(bytes \<times> AttrValue) list \<Rightarrow> attrs" where
  "attrs_map kvs = fold (\<lambda>(k, v) m. AList.update k v m) kvs []"

definition engine_get_attrs :: "engine_env \<Rightarrow> bytes \<Rightarrow> engine \<Rightarrow> attrs res" where
  "engine_get_attrs env key e =
     (case Toc_lookup (ev_xxh64 env) (en_master_toc e) key of
        None \<Rightarrow> Inl (KeyNotFound key)
      | Some entry \<Rightarrow> Inr (attrs_map (te_attrs entry)))"

fun get_entries :: "engine_env \<Rightarrow> toc_entry list \<Rightarrow> (bytes, owned_tensor) hash_map
    \<Rightarrow> (bytes, owned_tensor) hash_map op" where
  "get_entries env [] results = okS results"
| "get_entries env (entry # es) results =
     bindS (engine_get env (te_key entry)) (\<lambda>t.
       get_entries env es
         (case t of Some tensor \<Rightarrow> AList.update (te_key entry) tensor results | None \<Rightarrow> results))"

definition engine_get_prefix :: "engine_env \<Rightarrow> bytes \<Rightarrow> (bytes, owned_tensor) hash_map op" where
  "engine_get_prefix env pre e = get_entries env (Toc_lookup_prefix (en_master_toc e) pre) [] e"

fun engine_get_batch :: "engine_env \<Rightarrow> bytes list \<Rightarrow> (bytes \<times> owned_tensor) list op" where
  "engine_get_batch env [] = okS []"
| "engine_get_batch env (key # keys) =
     bindS (engine_get env key) (\<lambda>t.
     bindS (engine_get_batch env keys) (\<lambda>results.
       okS (case t of Some tensor \<Rightarrow> (key, tensor) # results | None \<Rightarrow> results)))"

fun keys_scan :: "bytes set \<Rightarrow> toc_entry list \<Rightarrow> bytes list" where
  "keys_scan seen [] = []"
| "keys_scan seen (entry # es) =
     (if te_key entry \<noteq> [] \<and> te_key entry \<notin> seen
      then (if te_tombstone entry = 0 then [te_key entry] else []) @ keys_scan (insert (te_key entry) seen) es
      else keys_scan seen es)"

definition engine_keys :: "engine \<Rightarrow> bytes list" where
  "engine_keys e = rev (keys_scan {} (rev (toc_entries (en_master_toc e))))"

section \<open>Deletion and versions\<close>

definition engine_delete :: "engine_env \<Rightarrow> bytes \<Rightarrow> unit op" where
  "engine_delete env key e =
     (if en_mode e = ReadOnly then errS ReadOnlyMode e
      else
        bindS (shardS env key) (\<lambda>s_id.
        bindS (updS (update_shard s_id (\<lambda>s. s\<lparr>sh_art := snd (Art_remove key (sh_art s)),
          sh_version_chains := AList.delete key (sh_version_chains s)\<rparr>))) (\<lambda>_.
        updS (\<lambda>e. e\<lparr>en_master_toc := Toc_tombstone (en_master_toc e) key\<rparr>))) e)"

text \<open>The version chain of a key in its shard; an index out of range panics.\<close>

definition find_chain :: "engine_env \<Rightarrow> bytes \<Rightarrow> engine \<Rightarrow> version_chain option option" where
  "find_chain env key e =
     (let s_id = unat (shard_for_key (ev_xxh64 env) key (of_nat (length (en_shards e)))) in
      if s_id < length (en_shards e) then Some (map_of (sh_version_chains (en_shards e ! s_id)) key) else None)"

definition engine_list_versions :: "engine_env \<Rightarrow> bytes \<Rightarrow> engine \<Rightarrow> u32 list res option" where
  "engine_list_versions env key e =
     (case find_chain env key e of
        None \<Rightarrow> None
      | Some (Some vc) \<Rightarrow>
          Some (if vc_versions vc = [] then Inl (KeyNotFound key) else Inr (VersionChain_list_versions vc))
      | Some None \<Rightarrow>
          Some (if Toc_lookup (ev_xxh64 env) (en_master_toc e) key = None then Inl (KeyNotFound key)
                else
                  let count = length (filter (\<lambda>t. te_key t = key \<and> te_tombstone t = 0)
                                (toc_entries (en_master_toc e))) in
                  if count = 0 then Inl (KeyNotFound key)
                  else Inr (map of_nat [0..<unat (of_nat count :: u32)])))"

text \<open>The check of requested versions against the chain, if the key has one.\<close>

definition check_versions :: "bytes \<Rightarrow> version_chain option \<Rightarrow> u32 list \<Rightarrow> unit res" where
  "check_versions key chain vs =
     (case chain of
        None \<Rightarrow> Inr ()
      | Some vc \<Rightarrow>
          (case find (\<lambda>v. v \<notin> set (VersionChain_list_versions vc)) vs of
             Some v \<Rightarrow> Inl (VersionNotFound key v)
           | None \<Rightarrow> Inr ()))"

definition key_entries :: "bytes \<Rightarrow> engine \<Rightarrow> toc_entry list" where
  "key_entries key e = filter (\<lambda>t. te_key t = key) (toc_entries (en_master_toc e))"

definition engine_get_version :: "engine_env \<Rightarrow> bytes \<Rightarrow> u32 \<Rightarrow> owned_tensor option op" where
  "engine_get_version env key version e =
     (case find_chain env key e of
        None \<Rightarrow> None
      | Some chain \<Rightarrow>
          bindS (resS (check_versions key chain [version])) (\<lambda>_.
            if Toc_lookup (ev_xxh64 env) (en_master_toc e) key = None then errS (KeyNotFound key)
            else if unat version < length (key_entries key e)
            then bindS (engine_read_tensor_from_entry env (key_entries key e ! unat version))
                   (\<lambda>t. okS (Some t))
            else errS (VersionNotFound key version)) e)"

definition engine_diff :: "engine_env \<Rightarrow> bytes \<Rightarrow> u32 \<Rightarrow> u32 \<Rightarrow> engine \<Rightarrow> version_diff res option" where
  "engine_diff env key v1 v2 e =
     (case find_chain env key e of
        None \<Rightarrow> None
      | Some chain \<Rightarrow>
          Some (bindR (check_versions key chain [v1, v2]) (\<lambda>_.
            let es = key_entries key e in
            if es = [] then Inl (KeyNotFound key)
            else if length es \<le> unat v1 then Inl (VersionNotFound key v1)
            else if length es \<le> unat v2 then Inl (VersionNotFound key v2)
            else
              let hashes1 = map (\<lambda>c. ucast (cr_chunk_offset c)) (te_chunk_refs (es ! unat v1));
                  hashes2 = map (\<lambda>c. ucast (cr_chunk_offset c)) (te_chunk_refs (es ! unat v2)) in
              Inr \<lparr>vd_added = hash_difference hashes2 hashes1, vd_removed = hash_difference hashes1 hashes2\<rparr>)))"

section \<open>Compaction and closing\<close>

fun live_tensors :: "engine_env \<Rightarrow> toc_entry list \<Rightarrow> (bytes \<times> owned_tensor \<times> attrs) list op" where
  "live_tensors env [] = okS []"
| "live_tensors env (entry # es) =
     (if te_tombstone entry = 0 then
        bindS (engine_get env (te_key entry)) (\<lambda>t.
        bindS (live_tensors env es) (\<lambda>items.
          okS (case t of
                 Some tensor \<Rightarrow> (te_key entry, tensor, attrs_map (te_attrs entry)) # items
               | None \<Rightarrow> items)))
      else live_tensors env es)"

definition reset_archive :: "u64 \<Rightarrow> engine \<Rightarrow> engine" where
  "reset_archive initial_offset e =
     e\<lparr>en_shards := map (\<lambda>s. s\<lparr>sh_append_offset := initial_offset\<rparr>) (en_shards e), en_master_toc := Toc_new\<rparr>"

definition put_item :: "engine_env \<Rightarrow> clock \<Rightarrow> bytes \<times> owned_tensor \<times> attrs \<Rightarrow> unit op" where
  "put_item env ck item =
     (case item of (key, tensor, attrs) \<Rightarrow>
        engine_put env ck key (ot_data tensor) (ot_dtype tensor) (ot_shape tensor) (entry_attrs attrs))"

definition engine_compact :: "engine_env \<Rightarrow> clock \<Rightarrow> unit op" where
  "engine_compact env ck e =
     (if en_mode e = ReadOnly then errS ReadOnlyMode e
      else
        let header_bytes = header_block (en_header e) in
        bindS (live_tensors env (toc_entries (en_master_toc e))) (\<lambda>items.
        bindS (ioS (io_write_at 0 header_bytes)) (\<lambda>_.
        bindS (ioS (io_truncate (length header_bytes))) (\<lambda>_.
        bindS (updS (reset_archive (of_nat (length header_bytes)))) (\<lambda>_.
        bindS (mapS (put_item env ck) items) (\<lambda>_.
        engine_flush env ck))))) e)"

definition engine_close :: "engine_env \<Rightarrow> clock \<Rightarrow> unit op" where
  "engine_close env ck e =
     (if en_is_closed e then okS () e
      else
        bindS (if en_mode e \<noteq> ReadOnly then bindS (run_checkpoint env ck True) (\<lambda>_. okS ()) else okS ()) (\<lambda>_.
        bindS (ioS io_close) (\<lambda>_.
        updS (\<lambda>e. e\<lparr>en_is_closed := True\<rparr>))) e)"

end
