(* ===== verification/Engine_Read.thy ===== *)
theory Engine_Read
  imports Engine
begin

text \<open>
  What a stored chunk decodes to. Reading is expressed on the logical contents of the
  storage backend, so that the write buffer no longer matters, and shown to be unaffected by
  whatever is appended later.
\<close>

section \<open>Sequencing\<close>

lemma bindS_ok [simp]: "bindS (okS x) f = f x"
  by (rule ext) (simp add: bindS_def okS_def)

lemma bindS_eq:
  "bindS m f e = Some (Inr y, e') \<longleftrightarrow> (\<exists>x e1. m e = Some (Inr x, e1) \<and> f x e1 = Some (Inr y, e'))"
  by (auto simp: bindS_def split: option.splits prod.splits sum.splits)

lemma bindS_step: "m e = Some (Inr x, e1) \<Longrightarrow> bindS m f e = f x e1"
  by (simp add: bindS_def)

lemma bindS_fail: "m e = Some (Inl err, e1) \<Longrightarrow> bindS m f e = Some (Inl err, e1)"
  by (simp add: bindS_def)

lemma bindS_upd [simp]: "bindS (updS g) f e = f () (g e)"
  by (simp add: bindS_def updS_def)

lemma mapS_length: "mapS f xs e = Some (Inr ys, e') \<Longrightarrow> length ys = length xs"
  by (induction xs arbitrary: ys e) (auto simp: bindS_eq okS_def)

text \<open>The same sequence on results alone.\<close>

primrec mapR :: "('a \<Rightarrow> 'b res) \<Rightarrow> 'a list \<Rightarrow> 'b list res" where
  "mapR f [] = Inr []"
| "mapR f (x # xs) = bindR (f x) (\<lambda>y. bindR (mapR f xs) (\<lambda>ys. Inr (y # ys)))"

lemma mapR_Inr: "mapR f xs = Inr ys \<longleftrightarrow> list_all2 (\<lambda>x y. f x = Inr y) xs ys"
  by (induction xs arbitrary: ys) (auto simp: list_all2_Cons1)

text \<open>Reads leave everything but the write buffer as it is.\<close>

definition io_same :: "mmap_backend \<Rightarrow> mmap_backend \<Rightarrow> bool" where
  "io_same io io' \<longleftrightarrow> contents io' = contents io \<and> io_inv io' \<and> mb_mode io' = mb_mode io"

definition reads_only :: "engine \<Rightarrow> engine \<Rightarrow> bool" where
  "reads_only e e' \<longleftrightarrow> (\<exists>io. e' = e\<lparr>en_io := io\<rparr> \<and> io_same (en_io e) io)"

lemma reads_only_refl: "io_inv (en_io e) \<Longrightarrow> reads_only e e"
  unfolding reads_only_def io_same_def by (rule exI [of _ "en_io e"]) simp

lemma reads_only_trans: "reads_only a b \<Longrightarrow> reads_only b c \<Longrightarrow> reads_only a c"
  unfolding reads_only_def io_same_def by auto

lemma reads_onlyD:
  "reads_only e e' \<Longrightarrow> io_inv (en_io e') \<and> contents (en_io e') = contents (en_io e) \<and>
     mb_mode (en_io e') = mb_mode (en_io e) \<and>
     en_master_toc e' = en_master_toc e \<and> en_shards e' = en_shards e \<and> en_header e' = en_header e \<and>
     en_content_store e' = en_content_store e \<and> en_mode e' = en_mode e \<and>
     en_coordinator e' = en_coordinator e \<and> en_is_closed e' = en_is_closed e"
  unfolding reads_only_def io_same_def by auto

lemma mapS_reads:
  assumes "io_inv (en_io e)"
    and "\<And>x e'. x \<in> set xs \<Longrightarrow> reads_only e e' \<Longrightarrow> \<exists>e''. f x e' = Some (g x, e'') \<and> reads_only e' e''"
  shows "\<exists>e'. mapS f xs e = Some (mapR g xs, e') \<and> reads_only e e'"
proof -
  have "\<exists>e''. mapS f ys e' = Some (mapR g ys, e'') \<and> reads_only e' e''"
    if "reads_only e e'" "set ys \<subseteq> set xs" for ys e'
    using that
  proof (induction ys arbitrary: e')
    case Nil
    then show ?case using reads_only_refl reads_onlyD by (auto simp: okS_def)
  next
    case (Cons y ys)
    obtain e1 where e1: "f y e' = Some (g y, e1)" "reads_only e' e1"
      using assms(2) [of y e'] Cons.prems by auto
    show ?case
    proof (cases "g y")
      case (Inl err)
      then show ?thesis using e1 by (auto simp: bindS_def)
    next
      case (Inr v)
      obtain e2 where e2: "mapS f ys e1 = Some (mapR g ys, e2)" "reads_only e1 e2"
        using Cons.IH [of e1] Cons.prems e1(2) reads_only_trans by (metis set_subset_Cons subset_trans)
      have "bindS (mapS f ys) (\<lambda>ys. okS (v # ys)) e1 = Some (bindR (mapR g ys) (\<lambda>ys. Inr (v # ys)), e2)"
        using e2(1) by (cases "mapR g ys") (simp_all add: bindS_def okS_def)
      then have "mapS f (y # ys) e' = Some (mapR g (y # ys), e2)"
        using e1(1) Inr by (simp add: bindS_def)
      then show ?thesis using e1(2) e2(2) reads_only_trans by blast
    qed
  qed
  then show ?thesis using assms(1) reads_only_refl by blast
qed

section \<open>Reading on the contents\<close>

definition chunk_at :: "bytes \<Rightarrow> chunk_ref \<Rightarrow> bytes res" where
  "chunk_at c r =
     (let off = unat (cr_chunk_offset r); len = unat (cr_chunk_len r) in
      if len = 0 then Inr []
      else if off + len \<le> length c then Inr (take len (drop off c))
      else Inl (Io UnexpectedEof))"

definition chunk_data :: "engine_env \<Rightarrow> bytes \<Rightarrow> DTypeId \<Rightarrow> chunk_ref \<Rightarrow> bytes res" where
  "chunk_data env c dtype r = bindR (chunk_at c r) (decode_chunk env dtype (cr_chunk_offset r))"

definition entry_data :: "engine_env \<Rightarrow> bytes \<Rightarrow> toc_entry \<Rightarrow> bytes res" where
  "entry_data env c entry =
     bindR (mapR (chunk_data env c (te_dtype_id entry)) (te_chunk_refs entry)) (\<lambda>parts. Inr (concat parts))"

definition entry_tensor :: "engine_env \<Rightarrow> bytes \<Rightarrow> toc_entry \<Rightarrow> owned_tensor res" where
  "entry_tensor env c entry =
     bindR (entry_data env c entry) (\<lambda>d. Inr (OwnedTensor_new (te_dtype_id entry) (te_shape entry) d))"

lemma read_chunk_spec:
  assumes "io_inv (en_io e)"
  shows "\<exists>e'. read_chunk env dtype r e = Some (chunk_data env (contents (en_io e)) dtype r, e') \<and> reads_only e e'"
proof -
  let ?off = "unat (cr_chunk_offset r)" and ?len = "unat (cr_chunk_len r)"
  obtain res io where rd: "io_read_at ?off ?len (en_io e) = (res, io)" by fastforce
  note s = read_spec [OF assms, of ?off ?len, unfolded rd fst_conv snd_conv]
  have "reads_only e (e\<lparr>en_io := io\<rparr>)"
    unfolding reads_only_def io_same_def using s by blast
  moreover have "res = chunk_at (contents (en_io e)) r"
    using s(1) by (simp add: chunk_at_def Let_def)
  ultimately show ?thesis
    by (auto simp: read_chunk_def bindS_def ioS_def rd resS_def chunk_data_def bindR_def split: sum.split)
qed

lemma read_tensor_spec:
  assumes "io_inv (en_io e)"
  shows "\<exists>e'. engine_read_tensor_from_entry env entry e = Some (entry_tensor env (contents (en_io e)) entry, e') \<and>
    reads_only e e'"
proof (cases "te_chunk_refs entry = []")
  case True
  then show ?thesis using reads_only_refl [OF assms]
    by (auto simp: engine_read_tensor_from_entry_def entry_tensor_def entry_data_def okS_def)
next
  case False
  let ?g = "chunk_data env (contents (en_io e)) (te_dtype_id entry)"
  have step: "\<exists>e''. read_chunk env (te_dtype_id entry) x e' = Some (?g x, e'') \<and> reads_only e' e''"
    if "reads_only e e'" for x e'
    using read_chunk_spec [of e'] reads_onlyD [OF that] by metis
  from mapS_reads [OF assms, of "te_chunk_refs entry" "read_chunk env (te_dtype_id entry)" ?g] step
  obtain e' where e': "mapS (read_chunk env (te_dtype_id entry)) (te_chunk_refs entry) e =
      Some (mapR ?g (te_chunk_refs entry), e')" "reads_only e e'" by blast
  then show ?thesis using False
    by (cases "mapR ?g (te_chunk_refs entry)")
      (auto simp: engine_read_tensor_from_entry_def entry_tensor_def entry_data_def bindS_def okS_def)
qed

lemma engine_get_eq:
  assumes "io_inv (en_io e)"
  shows "\<exists>e'. engine_get env key e =
      Some (case Toc_lookup (ev_xxh64 env) (en_master_toc e) key of
              None \<Rightarrow> Inr None
            | Some entry \<Rightarrow> bindR (entry_tensor env (contents (en_io e)) entry) (\<lambda>t. Inr (Some t)), e') \<and>
    reads_only e e'"
proof (cases "Toc_lookup (ev_xxh64 env) (en_master_toc e) key")
  case None
  then show ?thesis using reads_only_refl [OF assms] by (auto simp: engine_get_def okS_def)
next
  case (Some entry)
  obtain e' where "engine_read_tensor_from_entry env entry e = Some (entry_tensor env (contents (en_io e)) entry, e')"
    "reads_only e e'" using read_tensor_spec [OF assms] by blast
  then show ?thesis using Some
    by (cases "entry_tensor env (contents (en_io e)) entry") (auto simp: engine_get_def bindS_def okS_def)
qed

section \<open>Chunks\<close>

text \<open>
  What the engine needs of the libraries: compression is undone, and LZ4 output is not much
  longer than its input (its documented worst case is 24 bytes and a tenth more).
\<close>

definition env_ok :: "engine_env \<Rightarrow> bool" where
  "env_ok env \<longleftrightarrow> codec_lib_ok (ev_lib env) \<and>
     (\<forall>d. length (cl_lz4_compress (ev_lib env) d) \<le> 2 * length d + 64)"

definition segment_chunk :: "engine_env \<Rightarrow> u32 \<Rightarrow> bytes \<Rightarrow> bytes" where
  "segment_chunk env align raw =
     chunk_bytes env align \<lparr>sel_codec = Lz4, sel_filter = NoFilter, sel_level = 1\<rparr> (length raw)
       (cl_lz4_compress (ev_lib env) raw)"

lemma compress_segment_eq:
  "raw \<noteq> [] \<Longrightarrow> compress_segment env raw dtype =
     (\<lparr>sel_codec = Lz4, sel_filter = NoFilter, sel_level = 1\<rparr>, Inr (cl_lz4_compress (ev_lib env) raw))"
  by (simp add: compress_segment_def auto_select_engine lz4_compress_def)

lemma compress_segment_code [code]:
  "compress_segment env raw dtype =
     (if raw = [] then (\<lparr>sel_codec = Raw, sel_filter = NoFilter, sel_level = 0\<rparr>, Inr [])
      else (\<lparr>sel_codec = Lz4, sel_filter = NoFilter, sel_level = 1\<rparr>, Inr (cl_lz4_compress (ev_lib env) raw)))"
  using compress_segment_eq [of raw env dtype]
  by (simp add: compress_segment_def auto_select_def raw_compress_def)

lemma segment_chunk_eq:
  "\<exists>n. segment_chunk env align raw =
     ChunkHeader_serialize (ChunkHeader_new Lz4 NoFilter 1 (of_nat (length raw)) (of_nat (length raw))
       (ev_crc32 env (cl_lz4_compress (ev_lib env) raw)))
       [of_nat (length (cl_lz4_compress (ev_lib env) raw))]
     @ cl_lz4_compress (ev_lib env) raw @ replicate n 0"
  by (auto simp add: segment_chunk_def chunk_bytes_def Let_def pad_to_align_eq)

text \<open>A stored segment decodes to itself, whatever the element type it is read with.\<close>

lemma decode_segment_chunk:
  assumes "env_ok env" and "length raw < 2 ^ 30"
  shows "decode_chunk env dtype off (segment_chunk env align raw) = Inr raw"
proof -
  let ?z = "cl_lz4_compress (ev_lib env) raw"
  obtain n where b: "segment_chunk env align raw =
     ChunkHeader_serialize (ChunkHeader_new Lz4 NoFilter 1 (of_nat (length raw)) (of_nat (length raw)) (ev_crc32 env ?z))
       [of_nat (length ?z)] @ ?z @ replicate n 0" (is "_ = ChunkHeader_serialize ?h ?bt @ _")
    using segment_chunk_eq by blast
  have "length ?z \<le> 2 * length raw + 64" using assms(1) by (simp add: env_ok_def)
  then have z: "length ?z < 2 ^ 32" using assms(2) by simp
  have hd: "ChunkHeader_deserialize (segment_chunk env align raw) = Inr (?h, ?bt)"
    unfolding b by (rule ChunkHeader_deserialize_serialize) (simp add: ChunkHeader_new_def)
  have pay: "drop 20 (segment_chunk env align raw) = ?z @ replicate n 0"
    unfolding b by (simp add: CHUNK_HEADER_SIZE_def BLOCK_ENTRY_SIZE_def)
  have len: "\<not> length (segment_chunk env align raw) < 20 + length ?z"
    unfolding b by (simp add: CHUNK_HEADER_SIZE_def BLOCK_ENTRY_SIZE_def)
  have dec: "codec_decompress (ev_lib env) Lz4 ?z (length raw) dtype = Inr raw"
    using assms(1) by (simp add: env_ok_def codec_lib_ok_def lz4_decompress_def codec_error_def exact_length_def)
  have u: "unat (of_nat (length ?z) :: u32) = length ?z" "unat (of_nat (length raw) :: u32) = length raw"
    using z assms(2) by (simp_all add: unat_of_nat)
  have f: "ch_codec_id ?h = Lz4" "ch_filter_id ?h = NoFilter" "ch_uncompressed_len ?h = of_nat (length raw)"
    "ch_payload_crc32c ?h = ev_crc32 env ?z" by (simp_all add: ChunkHeader_new_def)
  show ?thesis
    unfolding decode_chunk_def hd bindR_Inr prod.case Let_def f
    using len by (simp add: u pay dec del: codec_decompress.simps)
qed

end
