(* ===== verification/Engine_Put.thy ===== *)
theory Engine_Put
  imports Engine_Read
begin

text \<open>
  Storing tensors: the invariant that ties the content store and the table of contents to
  the bytes of the archive, its preservation, and what a put changes.
\<close>

section \<open>Stored segments\<close>

definition holds :: "engine_env \<Rightarrow> bytes \<Rightarrow> chunk_ref \<Rightarrow> bytes \<Rightarrow> bool" where
  "holds env c r seg \<longleftrightarrow> unat (cr_chunk_len r) \<noteq> 0 \<and>
     unat (cr_chunk_offset r) + unat (cr_chunk_len r) \<le> length c \<and>
     (\<forall>dtype. chunk_data env c dtype r = Inr seg)"

lemma chunk_at_append:
  "unat (cr_chunk_offset r) + unat (cr_chunk_len r) \<le> length c \<Longrightarrow> chunk_at (c @ d) r = chunk_at c r"
  by (simp add: chunk_at_def Let_def)

lemma holds_append: "holds env c r seg \<Longrightarrow> holds env (c @ d) r seg"
  by (auto simp: holds_def chunk_data_def chunk_at_append)

definition place :: "u16 \<times> u64 \<times> u32 \<Rightarrow> chunk_ref" where
  "place l = (case l of (s, off, len) \<Rightarrow> \<lparr>cr_shard_id = s, cr_chunk_offset = off, cr_chunk_len = len\<rparr>)"

text \<open>
  The content store only points at chunks that decode to a segment of the given hash. The
  segments are drawn from a set \<open>U\<close> on which the hash is assumed free of collisions.
\<close>

definition store_ok :: "engine_env \<Rightarrow> bytes set \<Rightarrow> bytes \<Rightarrow> content_store \<Rightarrow> bool" where
  "store_ok env U c store \<longleftrightarrow> (\<forall>h l. location store h = Some l \<longrightarrow>
     (\<exists>seg \<in> U. ev_hash128 env seg = h \<and> holds env c (place l) seg))"

lemma store_ok_append: "store_ok env U c store \<Longrightarrow> store_ok env U (c @ d) store"
  unfolding store_ok_def using holds_append by blast

lemma store_ok_cong: "(\<And>h. location s' h = location s h) \<Longrightarrow> store_ok env U c s' \<longleftrightarrow> store_ok env U c s"
  by (simp add: store_ok_def)

lemma cs_lookup_location: "cs_lookup s h = Some ce \<Longrightarrow> location s h = Some (ce_shard_id ce, ce_chunk_offset ce, ce_chunk_len ce)"
  by (simp add: cs_lookup_def location_def)

lemma cs_lookup_None: "cs_lookup s h = None \<longleftrightarrow> location s h = None"
  by (simp add: cs_lookup_def location_None)

lemma entry_ref_place: "entry_ref ce = place (ce_shard_id ce, ce_chunk_offset ce, ce_chunk_len ce)"
  by (simp add: entry_ref_def place_def)

lemma store_ok_insert:
  assumes "store_ok env U c store" "seg \<in> U" "ev_hash128 env seg = h" "holds env c (place (s, off, len)) seg"
  shows "store_ok env U c (snd (cs_insert store h (ContentEntry_new s off len 1)))"
  unfolding store_ok_def
proof (intro allI impI)
  fix k l
  assume "location (snd (cs_insert store h (ContentEntry_new s off len 1))) k = Some l"
  then have "location store k = Some l \<or> k = h \<and> l = (s, off, len)"
    using content_index.loc_ins [of store h "(s, off, len)" k] by (auto split: if_splits)
  then show "\<exists>seg \<in> U. ev_hash128 env seg = k \<and> holds env c (place l) seg"
    using assms unfolding store_ok_def by blast
qed

section \<open>Appending a chunk\<close>

text \<open>The bytes a segment may need: its header, the compressed bytes, padding.\<close>

lemma segment_chunk_bound:
  assumes "env_ok env"
  shows "20 \<le> length (segment_chunk env align raw)"
    "length (segment_chunk env align raw) \<le> 2 * length raw + 84 + unat align"
proof -
  let ?z = "cl_lz4_compress (ev_lib env) raw"
  have z: "length ?z \<le> 2 * length raw + 64" using assms by (simp add: env_ok_def)
  obtain n where n: "segment_chunk env align raw =
     (ChunkHeader_serialize (ChunkHeader_new Lz4 NoFilter 1 (of_nat (length raw)) (of_nat (length raw)) (ev_crc32 env ?z))
       [of_nat (length ?z)] @ ?z) @ replicate n 0" "n \<le> unat align"
    using pad_to_align_spec [of "ChunkHeader_serialize (ChunkHeader_new Lz4 NoFilter 1 (of_nat (length raw)) (of_nat (length raw)) (ev_crc32 env ?z))
       [of_nat (length ?z)] @ ?z" align]
    by (auto simp: segment_chunk_def chunk_bytes_def Let_def split: if_splits)
  show "20 \<le> length (segment_chunk env align raw)"
    "length (segment_chunk env align raw) \<le> 2 * length raw + 84 + unat align"
    unfolding n(1) using z n(2) by (simp_all add: CHUNK_HEADER_SIZE_def BLOCK_ENTRY_SIZE_def)
qed

lemma segment_chunk_dvd: "4096 dvd length (segment_chunk env 4096 raw)"
  using pad_to_align_dvd [of 4096] by (simp add: segment_chunk_def chunk_bytes_def Let_def)

lemma length_segment_chunk:
  assumes "env_ok env" and "length raw < 2 ^ 29" and "unat align \<le> 2 ^ 21"
  shows "0 < length (segment_chunk env align raw)" "length (segment_chunk env align raw) < 2 ^ 32"
  using segment_chunk_bound [OF assms(1), of align raw] assms(2,3) by (simp_all del: length_greater_0_conv)

lemma holds_new:
  assumes "env_ok env" "length raw < 2 ^ 29" "unat align \<le> 2 ^ 21"
    and "length c + length (segment_chunk env align raw) < 2 ^ 64"
  shows "holds env (c @ segment_chunk env align raw @ d)
    \<lparr>cr_shard_id = s, cr_chunk_offset = of_nat (length c), cr_chunk_len = of_nat (length (segment_chunk env align raw))\<rparr> raw"
proof -
  let ?b = "segment_chunk env align raw"
  note l = length_segment_chunk [OF assms(1-3)]
  have u: "unat (of_nat (length c) :: u64) = length c" "unat (of_nat (length ?b) :: u32) = length ?b"
    using assms(4) l by (simp_all add: unat_of_nat)
  have "decode_chunk env dtype off ?b = Inr raw" for dtype off
    using decode_segment_chunk [OF assms(1)] assms(2) by simp
  moreover have "chunk_at (c @ ?b @ d)
      \<lparr>cr_shard_id = s, cr_chunk_offset = of_nat (length c), cr_chunk_len = of_nat (length ?b)\<rparr> = Inr ?b"
    using l by (simp add: chunk_at_def Let_def u)
  ultimately show ?thesis using l by (simp add: holds_def chunk_data_def u)
qed

section \<open>Putting segments\<close>

text \<open>
  What storing segments leaves alone, and that the archive only grows, by whole units of
  4096 bytes when that is the chunk alignment.
\<close>

definition grows :: "engine \<Rightarrow> engine \<Rightarrow> bool" where
  "grows e e' \<longleftrightarrow> io_inv (en_io e') \<and> mb_mode (en_io e') = mb_mode (en_io e) \<and>
     (\<exists>d. contents (en_io e') = contents (en_io e) @ d \<and>
        (fh_chunk_align (en_header e) = 4096 \<longrightarrow> 4096 dvd length d)) \<and> en_mode e' = en_mode e \<and>
     en_header e' = en_header e \<and> en_is_closed e' = en_is_closed e"

definition keeps :: "engine \<Rightarrow> engine \<Rightarrow> bool" where
  "keeps e e' \<longleftrightarrow> en_shards e' = en_shards e \<and> en_master_toc e' = en_master_toc e"

lemma grows_refl: "io_inv (en_io e) \<Longrightarrow> grows e e"
  by (simp add: grows_def)

lemma grows_trans:
  assumes "grows a b" "grows b c"
  shows "grows a c"
proof -
  obtain d1 d2 where "contents (en_io b) = contents (en_io a) @ d1" "contents (en_io c) = contents (en_io b) @ d2"
    and "fh_chunk_align (en_header a) = 4096 \<longrightarrow> 4096 dvd length d1"
    and "fh_chunk_align (en_header b) = 4096 \<longrightarrow> 4096 dvd length d2"
    using assms unfolding grows_def by blast
  then have "contents (en_io c) = contents (en_io a) @ (d1 @ d2)"
    "fh_chunk_align (en_header a) = 4096 \<longrightarrow> 4096 dvd length (d1 @ d2)"
    using assms by (simp_all add: grows_def)
  then show ?thesis using assms unfolding grows_def by auto
qed

lemma grows_length: "grows e e' \<Longrightarrow> length (contents (en_io e)) \<le> length (contents (en_io e'))"
  by (auto simp: grows_def)

text \<open>The engine can write and its chunks have a supported alignment.\<close>

definition writable :: "engine_env \<Rightarrow> engine \<Rightarrow> bool" where
  "writable env e \<longleftrightarrow> env_ok env \<and> io_inv (en_io e) \<and> mb_mode (en_io e) \<noteq> ReadOnly \<and> en_mode e \<noteq> ReadOnly \<and>
     unat (fh_chunk_align (en_header e)) \<le> 2 ^ 21"

lemma writable_grows: "writable env e \<Longrightarrow> grows e e' \<Longrightarrow> writable env e'"
  by (auto simp: writable_def grows_def)

text \<open>The coordinator counts the bytes of new chunks.\<close>

definition accounted :: "engine \<Rightarrow> engine \<Rightarrow> bool" where
  "accounted e e' \<longleftrightarrow> (\<exists>d. contents (en_io e') = contents (en_io e) @ d \<and>
     en_coordinator e' = record_bytes_written (of_nat (length d)) (en_coordinator e))"

lemma accounted_same: "contents (en_io e') = contents (en_io e) \<Longrightarrow> en_coordinator e' = en_coordinator e \<Longrightarrow> accounted e e'"
  by (simp add: accounted_def record_bytes_written_def)

lemma accounted_trans: "accounted a b \<Longrightarrow> accounted b c \<Longrightarrow> accounted a c"
  by (auto simp: accounted_def record_bytes_written_def add.assoc)

lemma put_segment_hit:
  assumes "writable env e" "cs_lookup (en_content_store e) (sg_content_hash seg) = Some ce"
  shows "\<exists>e'. put_segment env s data dtype seg e = Some (Inr (entry_ref ce), e') \<and> grows e e' \<and> keeps e e' \<and>
    contents (en_io e') = contents (en_io e) \<and> accounted e e' \<and>
    (\<forall>h. location (en_content_store e') h = location (en_content_store e) h)"
  using assms by (simp add: put_segment_def grows_def keeps_def writable_def location_add_ref accounted_same)

lemma put_segment_miss:
  assumes "writable env e" "cs_lookup (en_content_store e) (sg_content_hash seg) = None"
    and "segment_bytes data seg = raw" "raw \<noteq> []" "sg_len seg = length raw" "length raw < 2 ^ 29"
  defines "b \<equiv> segment_chunk env (fh_chunk_align (en_header e)) raw"
  defines "off \<equiv> of_nat (length (contents (en_io e)))" and "len \<equiv> of_nat (length b)"
  shows "\<exists>e'. put_segment env s data dtype seg e =
      Some (Inr \<lparr>cr_shard_id = s, cr_chunk_offset = off, cr_chunk_len = len\<rparr>, e') \<and> grows e e' \<and> keeps e e' \<and>
    contents (en_io e') = contents (en_io e) @ b \<and> accounted e e' \<and>
    en_content_store e' = snd (cs_insert (en_content_store e) (sg_content_hash seg) (ContentEntry_new s off len 1))"
proof -
  have io: "io_inv (en_io e)" "mb_mode (en_io e) \<noteq> ReadOnly" using assms(1) by (simp_all add: writable_def)
  obtain r io where ap: "io_append b (en_io e) = (r, io)" by fastforce
  note sp = append_spec [OF io, of b, unfolded ap fst_conv snd_conv]
  let ?e = "record_chunk s (sg_content_hash seg) off len (e\<lparr>en_io := io\<rparr>)"
  have "put_segment env s data dtype seg e =
      Some (Inr \<lparr>cr_shard_id = s, cr_chunk_offset = off, cr_chunk_len = len\<rparr>, ?e)"
    using sp(1) unfolding put_segment_def assms(2,3) compress_segment_eq [OF assms(4)] option.case prod.case
    by (simp add: bindS_def resS_def ioS_def updS_def okS_def Let_def assms(5) segment_chunk_def [symmetric]
        b_def [symmetric] ap off_def [symmetric] len_def [symmetric])
  moreover have "grows e ?e" "keeps e ?e" "contents (en_io ?e) = contents (en_io e) @ b"
    using sp segment_chunk_dvd by (simp_all add: grows_def keeps_def record_chunk_def b_def)
  moreover have "length b < 2 ^ 32"
    using length_segment_chunk(2) [of env raw "fh_chunk_align (en_header e)"] assms(1,6) by (simp add: b_def writable_def)
  then have "unat len = length b" by (simp add: len_def unat_of_nat)
  then have "ucast len = (of_nat (length b) :: u64)" by (metis of_nat_unat)
  then have "accounted e ?e" using sp(2) by (simp add: accounted_def record_chunk_def)
  ultimately show ?thesis by (auto simp: record_chunk_def)
qed

text \<open>
  Storing one segment: a deduplication hit returns a chunk that decodes to the segment,
  because equal hashes are equal segments in \<open>U\<close>; a miss appends one.
\<close>

definition stored :: "content_store \<Rightarrow> u128 \<Rightarrow> bool" where
  "stored st h \<longleftrightarrow> location st h \<noteq> None"

lemma stored_cong: "(\<And>h. location s' h = location s h) \<Longrightarrow> stored s' h \<longleftrightarrow> stored s h"
  by (simp add: stored_def)

lemma stored_insert: "stored (snd (cs_insert s h (ContentEntry_new sh off len 1))) k \<longleftrightarrow> stored s k \<or> k = h"
  using content_index.loc_ins [of s h "(sh, off, len)" k] by (auto simp: stored_def)

text \<open>
  Where a segment lies afterwards: the reference that was handed out is the place the store
  has for its hash. A new chunk has the length of the encoded segment; known places stay.
\<close>

definition placed :: "engine_env \<Rightarrow> engine \<Rightarrow> engine \<Rightarrow> u128 \<Rightarrow> bytes \<Rightarrow> chunk_ref \<Rightarrow> bool" where
  "placed env e e' h raw r \<longleftrightarrow> (\<exists>l. location (en_content_store e') h = Some l \<and> r = place l \<and>
     (\<not> stored (en_content_store e) h \<longrightarrow>
        cr_chunk_len r = of_nat (length (segment_chunk env (fh_chunk_align (en_header e)) raw))))"

definition keeps_places :: "engine \<Rightarrow> engine \<Rightarrow> bool" where
  "keeps_places e e' \<longleftrightarrow>
     (\<forall>h l. location (en_content_store e) h = Some l \<longrightarrow> location (en_content_store e') h = Some l)"

lemma keeps_places_insert:
  "\<not> stored (en_content_store e) h \<Longrightarrow>
     en_content_store e' = snd (cs_insert (en_content_store e) h (ContentEntry_new s off len 1)) \<Longrightarrow> keeps_places e e'"
  using content_index.loc_ins [of "en_content_store e" h "(s, off, len)"] by (auto simp: keeps_places_def stored_def)

lemma keeps_places_trans: "keeps_places a b \<Longrightarrow> keeps_places b c \<Longrightarrow> keeps_places a c"
  by (simp add: keeps_places_def)

lemma put_segment_spec:
  assumes w: "writable env e" and inj: "inj_on (ev_hash128 env) U" and U: "raw \<in> U"
    and seg: "segment_bytes data seg = raw" "raw \<noteq> []" "sg_len seg = length raw"
      "sg_content_hash seg = ev_hash128 env raw" "length raw < 2 ^ 29"
  shows "\<exists>r e'. put_segment env s data dtype seg e = Some (Inr r, e') \<and> grows e e' \<and> keeps e e' \<and>
    contents (en_io e') = contents (en_io e) @
      (if stored (en_content_store e) (sg_content_hash seg) then []
       else segment_chunk env (fh_chunk_align (en_header e)) raw) \<and>
    (\<forall>h. stored (en_content_store e') h \<longleftrightarrow> stored (en_content_store e) h \<or> h = sg_content_hash seg) \<and>
    placed env e e' (sg_content_hash seg) raw r \<and> keeps_places e e' \<and> accounted e e' \<and>
    (length (contents (en_io e')) < 2 ^ 64 \<longrightarrow> store_ok env U (contents (en_io e)) (en_content_store e) \<longrightarrow>
       store_ok env U (contents (en_io e')) (en_content_store e') \<and> holds env (contents (en_io e')) r raw)"
proof (cases "cs_lookup (en_content_store e) (sg_content_hash seg)")
  case (Some ce)
  obtain e' where e': "put_segment env s data dtype seg e = Some (Inr (entry_ref ce), e')" "grows e e'" "keeps e e'"
    "contents (en_io e') = contents (en_io e)" "accounted e e'"
    "\<And>h. location (en_content_store e') h = location (en_content_store e) h"
    using put_segment_hit [OF w Some] by blast
  have "holds env (contents (en_io e)) (entry_ref ce) raw"
    if ok: "store_ok env U (contents (en_io e)) (en_content_store e)"
  proof -
    obtain x where x: "x \<in> U" "ev_hash128 env x = sg_content_hash seg" "holds env (contents (en_io e)) (entry_ref ce) x"
      using ok cs_lookup_location [OF Some] unfolding store_ok_def entry_ref_place by blast
    then have "x = raw" using inj U seg(4) by (simp add: inj_on_eq_iff)
    then show ?thesis using x(3) by simp
  qed
  moreover have st: "stored (en_content_store e) (sg_content_hash seg)"
    using cs_lookup_location [OF Some] by (simp add: stored_def)
  moreover have "placed env e e' (sg_content_hash seg) raw (entry_ref ce)" "keeps_places e e'"
    using cs_lookup_location [OF Some] st by (simp_all add: placed_def keeps_places_def e'(6) entry_ref_place)
  ultimately show ?thesis
    using e' store_ok_cong [of "en_content_store e'" "en_content_store e"] stored_cong [of "en_content_store e'" "en_content_store e"]
    by (intro exI [of _ "entry_ref ce"] exI [of _ e']) auto
next
  case None
  let ?b = "segment_chunk env (fh_chunk_align (en_header e)) raw"
  let ?off = "of_nat (length (contents (en_io e))) :: u64" and ?len = "of_nat (length ?b) :: u32"
  obtain e' where e': "put_segment env s data dtype seg e =
      Some (Inr \<lparr>cr_shard_id = s, cr_chunk_offset = ?off, cr_chunk_len = ?len\<rparr>, e')" "grows e e'" "keeps e e'"
    "contents (en_io e') = contents (en_io e) @ ?b" "accounted e e'"
    "en_content_store e' = snd (cs_insert (en_content_store e) (sg_content_hash seg) (ContentEntry_new s ?off ?len 1))"
    using put_segment_miss [OF w None seg(1-3,5)] by blast
  have "store_ok env U (contents (en_io e')) (en_content_store e') \<and>
      holds env (contents (en_io e')) (place (s, ?off, ?len)) raw"
    if "length (contents (en_io e')) < 2 ^ 64" "store_ok env U (contents (en_io e)) (en_content_store e)"
  proof -
    have h: "holds env (contents (en_io e')) (place (s, ?off, ?len)) raw"
      using holds_new [of env raw "fh_chunk_align (en_header e)" "contents (en_io e)" "[]" s] w that(1) seg(5) e'(4)
      by (simp add: writable_def place_def)
    then show ?thesis
      using store_ok_insert [OF store_ok_append [OF that(2)] U seg(4) [symmetric], of ?b s ?off ?len] e'(4,6) by simp
  qed
  moreover have "\<not> stored (en_content_store e) (sg_content_hash seg)" using None by (simp add: cs_lookup_None stored_def)
  moreover have "\<forall>h. stored (en_content_store e') h \<longleftrightarrow> stored (en_content_store e) h \<or> h = sg_content_hash seg"
    by (simp add: e'(6) stored_insert)
  moreover have "placed env e e' (sg_content_hash seg) raw \<lparr>cr_shard_id = s, cr_chunk_offset = ?off, cr_chunk_len = ?len\<rparr>"
    using calculation(2) content_index.loc_ins [of "en_content_store e" "sg_content_hash seg" "(s, ?off, ?len)" "sg_content_hash seg"]
    by (simp add: placed_def place_def e'(6) stored_def)
  moreover have "keeps_places e e'" by (rule keeps_places_insert [OF calculation(2) e'(6)])
  ultimately show ?thesis using e'(1-5) unfolding place_def prod.case by auto
qed

lemma placed_later: "placed env e e1 h raw r \<Longrightarrow> keeps_places e1 e2 \<Longrightarrow> placed env e e2 h raw r"
  by (auto simp: placed_def keeps_places_def)

lemma placed_earlier:
  assumes "placed env e1 e2 h raw r" and "placed env e e1 h0 raw0 r0" "keeps_places e1 e2"
    and "\<And>h. stored (en_content_store e1) h \<longleftrightarrow> stored (en_content_store e) h \<or> h = h0"
    and "h = h0 \<Longrightarrow> raw = raw0" "en_header e1 = en_header e"
  shows "placed env e e2 h raw r"
proof (cases "h = h0")
  case True
  then show ?thesis using assms(1,5) placed_later [OF assms(2,3)] by (auto simp: placed_def)
next
  case False
  then show ?thesis using assms(1,4,6) by (auto simp: placed_def)
qed

text \<open>The segments of a block, in order.\<close>

definition segment_of :: "engine_env \<Rightarrow> bytes set \<Rightarrow> bytes \<Rightarrow> cdc_segment \<Rightarrow> bool" where
  "segment_of env U data seg \<longleftrightarrow> segment_bytes data seg \<in> U \<and> segment_bytes data seg \<noteq> [] \<and>
     sg_len seg = length (segment_bytes data seg) \<and> sg_content_hash seg = ev_hash128 env (segment_bytes data seg) \<and>
     length (segment_bytes data seg) < 2 ^ 29"

text \<open>What storing segments appends: nothing for segments that are stored already.\<close>

definition appends :: "engine_env \<Rightarrow> engine \<Rightarrow> engine \<Rightarrow> cdc_segment list \<Rightarrow> bool" where
  "appends env e e' segs \<longleftrightarrow>
     length (contents (en_io e')) \<le> length (contents (en_io e)) +
       (\<Sum>seg\<leftarrow>segs. 2 * sg_len seg + 84 + unat (fh_chunk_align (en_header e))) \<and>
     ((\<forall>seg \<in> set segs. stored (en_content_store e) (sg_content_hash seg)) \<longrightarrow>
        contents (en_io e') = contents (en_io e)) \<and>
     (\<forall>h. stored (en_content_store e') h \<longleftrightarrow> stored (en_content_store e) h \<or> h \<in> sg_content_hash ` set segs)"

lemma put_segments_spec:
  assumes "writable env e" and inj: "inj_on (ev_hash128 env) U" and "\<forall>seg \<in> set segs. segment_of env U data seg"
  shows "\<exists>rs e'. mapS (put_segment env s data dtype) segs e = Some (Inr rs, e') \<and> grows e e' \<and> keeps e e' \<and>
    appends env e e' segs \<and> keeps_places e e' \<and> accounted e e' \<and>
    list_all2 (\<lambda>seg. placed env e e' (sg_content_hash seg) (segment_bytes data seg)) segs rs \<and>
    (length (contents (en_io e')) < 2 ^ 64 \<longrightarrow> store_ok env U (contents (en_io e)) (en_content_store e) \<longrightarrow>
       store_ok env U (contents (en_io e')) (en_content_store e') \<and>
       list_all2 (holds env (contents (en_io e'))) rs (map (segment_bytes data) segs))"
  using assms(1,3)
proof (induction segs arbitrary: e)
  case Nil
  then show ?case by (simp add: okS_def grows_refl keeps_def writable_def appends_def keeps_places_def accounted_same)
next
  case (Cons seg segs)
  have so: "segment_of env U data seg" "\<forall>seg \<in> set segs. segment_of env U data seg" using Cons.prems(2) by simp_all
  obtain r e1 where e1: "put_segment env s data dtype seg e = Some (Inr r, e1)" "grows e e1" "keeps e e1"
    "contents (en_io e1) = contents (en_io e) @ (if stored (en_content_store e) (sg_content_hash seg) then []
       else segment_chunk env (fh_chunk_align (en_header e)) (segment_bytes data seg))"
    "\<forall>h. stored (en_content_store e1) h \<longleftrightarrow> stored (en_content_store e) h \<or> h = sg_content_hash seg"
    "placed env e e1 (sg_content_hash seg) (segment_bytes data seg) r" "keeps_places e e1" "accounted e e1"
    "length (contents (en_io e1)) < 2 ^ 64 \<longrightarrow> store_ok env U (contents (en_io e)) (en_content_store e) \<longrightarrow>
       store_ok env U (contents (en_io e1)) (en_content_store e1) \<and>
       holds env (contents (en_io e1)) r (segment_bytes data seg)"
    using put_segment_spec [OF Cons.prems(1) inj, of "segment_bytes data seg" data seg s dtype] so(1)
    unfolding segment_of_def by blast
  obtain rs e2 where e2: "mapS (put_segment env s data dtype) segs e1 = Some (Inr rs, e2)" "grows e1 e2" "keeps e1 e2"
    "appends env e1 e2 segs" "keeps_places e1 e2" "accounted e1 e2"
    "list_all2 (\<lambda>seg. placed env e1 e2 (sg_content_hash seg) (segment_bytes data seg)) segs rs"
    "length (contents (en_io e2)) < 2 ^ 64 \<longrightarrow> store_ok env U (contents (en_io e1)) (en_content_store e1) \<longrightarrow>
       store_ok env U (contents (en_io e2)) (en_content_store e2) \<and>
       list_all2 (holds env (contents (en_io e2))) rs (map (segment_bytes data) segs)"
    using Cons.IH [OF writable_grows [OF Cons.prems(1) e1(2)] so(2)] by blast
  have "mapS (put_segment env s data dtype) (seg # segs) e = Some (Inr (r # rs), e2)"
    by (simp add: bindS_def okS_def e1(1) e2(1))
  moreover have "grows e e2" "keeps e e2" using e1(2,3) e2(2,3) by (auto intro: grows_trans simp: keeps_def)
  moreover have "holds env (contents (en_io e2)) r (segment_bytes data seg)"
    if "holds env (contents (en_io e1)) r (segment_bytes data seg)"
    using that e2(2) holds_append unfolding grows_def by metis
  moreover have "appends env e e2 (seg # segs)"
  proof -
    have "env_ok env" "en_header e1 = en_header e" "sg_len seg = length (segment_bytes data seg)"
      using Cons.prems(1) e1(2) so(1) by (simp_all add: writable_def grows_def segment_of_def)
    then have "length (contents (en_io e1)) \<le> length (contents (en_io e)) + (2 * sg_len seg + 84 + unat (fh_chunk_align (en_header e)))"
      using segment_chunk_bound [of env "fh_chunk_align (en_header e)" "segment_bytes data seg"] e1(4) by simp
    then show ?thesis using e2(4) e1(4,5) \<open>en_header e1 = en_header e\<close> by (auto simp: appends_def)
  qed
  moreover have "list_all2 (\<lambda>seg. placed env e e2 (sg_content_hash seg) (segment_bytes data seg)) (seg # segs) (r # rs)"
  proof -
    have same: "segment_bytes data x = segment_bytes data seg"
      if "x \<in> set segs" "sg_content_hash x = sg_content_hash seg" for x
      using that so inj by (simp add: segment_of_def inj_on_eq_iff)
    have "en_header e1 = en_header e" using e1(2) by (simp add: grows_def)
    then have p: "placed env e e2 (sg_content_hash x) (segment_bytes data x) y"
      if "x \<in> set segs" "placed env e1 e2 (sg_content_hash x) (segment_bytes data x) y" for x y
      using placed_earlier [OF that(2) e1(6) e2(5) _ same [OF that(1)]] e1(5) by blast
    have "list_all2 (\<lambda>seg. placed env e e2 (sg_content_hash seg) (segment_bytes data seg)) segs rs"
      by (rule list.rel_mono_strong [OF e2(7)]) (rule p)
    then show ?thesis using placed_later [OF e1(6) e2(5)] by simp
  qed
  moreover note accounted_trans [OF e1(8) e2(6)] keeps_places_trans [OF e1(7) e2(5)] e1(9) e2(8) grows_length [OF e2(2)]
  ultimately show ?case by (auto dest: le_less_trans)
qed

section \<open>Cutting a block\<close>

text \<open>The segments of a block all lie in \<open>U\<close>.\<close>

definition cut_into :: "engine_env \<Rightarrow> bytes set \<Rightarrow> bytes \<Rightarrow> bool" where
  "cut_into env U data \<longleftrightarrow> (case cdc_chunk (ev_hash128 env) data CdcConfig_default of
     Some segs \<Rightarrow> list_all (\<lambda>seg. segment_bytes data seg \<in> U) segs | None \<Rightarrow> True)"

lemma contiguous_inside: "contiguous a segs b \<Longrightarrow> seg \<in> set segs \<Longrightarrow> 0 < sg_len seg \<and> sg_offset seg + sg_len seg \<le> b"
proof (induction segs arbitrary: a)
  case (Cons s segs)
  moreover have "contiguous a' ss b' \<Longrightarrow> a' \<le> b'" for a' ss b' using contiguous_bytes by blast
  ultimately show ?case by auto
qed simp

text \<open>Every segment but the last is longer than the minimum, so there are few.\<close>

lemma contiguous_count:
  "contiguous a segs b \<Longrightarrow> list_all (\<lambda>s. sg_offset s + sg_len s = b \<or> m \<le> sg_len s) segs \<Longrightarrow>
     (length segs - 1) * m \<le> b - a"
proof (induction segs arbitrary: a)
  case (Cons s segs)
  show ?case
  proof (cases segs)
    case (Cons s' segs')
    have "0 < sg_len s'" "contiguous (a + sg_len s) segs b" using Cons.prems(1) Cons by simp_all
    then have "a + sg_len s < b" using contiguous_inside [of "a + sg_len s" segs b s'] Cons by auto
    moreover have "m \<le> sg_len s" using Cons.prems Cons \<open>a + sg_len s < b\<close> by auto
    moreover have "(length segs - 1) * m \<le> b - (a + sg_len s)"
      using Cons.IH [OF \<open>contiguous (a + sg_len s) segs b\<close>] Cons.prems(2) by simp
    ultimately show ?thesis using Cons by simp
  qed simp
qed simp

lemma cut_segments:
  assumes "cut_into env U data"
  shows "\<exists>segs. cdc_chunk (ev_hash128 env) data CdcConfig_default = Some segs \<and>
    length segs \<le> length data div 32768 + 1 \<and>
    (\<forall>seg \<in> set segs. segment_of env U data seg) \<and> concat (map (segment_bytes data) segs) = data"
proof -
  obtain segs where s: "cdc_chunk (ev_hash128 env) data CdcConfig_default = Some segs"
    "contiguous 0 segs (length data)" "list_all (segment_ok (ev_hash128 env) data CdcConfig_default) segs"
    using cdc_chunk_partition [of CdcConfig_default "ev_hash128 env" data] by (auto simp: CdcConfig_default_def)
  have max: "max (cc_min_size CdcConfig_default) (cc_max_size CdcConfig_default) = 524288"
    by (simp add: CdcConfig_default_def)
  have "segment_of env U data seg" if "seg \<in> set segs" for seg
  proof -
    have "segment_bytes data seg \<in> U" using assms s(1) that by (simp add: cut_into_def list_all_iff)
    moreover have "0 < sg_len seg" "sg_len seg = length (segment_bytes data seg)"
      using contiguous_inside [OF s(2) that] by (auto simp: segment_bytes_def min_def)
    moreover have "sg_content_hash seg = ev_hash128 env (segment_bytes data seg)" "sg_len seg \<le> 524288"
      using s(3) that max by (auto simp: list_all_iff segment_ok_def)
    moreover from this(2) have "sg_len seg < 2 ^ 29" by simp
    ultimately show ?thesis unfolding segment_of_def by fastforce
  qed
  moreover have "length segs \<le> length data div 32768 + 1"
  proof -
    have "cc_min_size CdcConfig_default = 32768" "cc_max_size CdcConfig_default = 524288"
      by (simp_all add: CdcConfig_default_def)
    then have "list_all (\<lambda>s. sg_offset s + sg_len s = length data \<or> 32768 \<le> sg_len s) segs"
      using s(3) unfolding list_all_iff segment_ok_def by force
    from contiguous_count [OF s(2) this] show ?thesis by (simp add: less_eq_div_iff_mult_less_eq)
  qed
  ultimately show ?thesis using s contiguous_bytes [OF s(2), of data] by (auto simp: slice_def)
qed

text \<open>A block of at most the minimum chunk size is one segment.\<close>

lemma cut_into_small:
  assumes "length data \<le> 32768" "data \<in> U"
  shows "cut_into env U data"
proof -
  have "cc_min_size CdcConfig_default = 32768" by (simp add: CdcConfig_default_def)
  then show ?thesis using assms by (simp add: cut_into_def cdc_chunk_def segment_bytes_def slice_def)
qed

section \<open>Shards\<close>

definition shards_ok :: "(chunk_ref art_node \<Rightarrow> bool) \<Rightarrow> u8 set \<Rightarrow> shard list \<Rightarrow> bool" where
  "shards_ok P A shards \<longleftrightarrow> 0 < length shards \<and> length shards < 2 ^ 16 \<and> (\<forall>s \<in> set shards. tree_wf P A (sh_art s))"

lemma shards_ok_update:
  "shards_ok P A shards \<Longrightarrow> tree_wf P A (sh_art s) \<Longrightarrow> shards_ok P A (shards[i := s])"
  unfolding shards_ok_def by (auto dest!: set_update_subset_insert [THEN subsetD])

lemma shards_ok_nth: "shards_ok P A shards \<Longrightarrow> i < length shards \<Longrightarrow> tree_wf P A (sh_art (shards ! i))"
  by (simp add: shards_ok_def)

lemma shardS_spec:
  fixes env key
  assumes "shards_ok P A (en_shards e)"
  defines "s \<equiv> shard_for_key (ev_xxh64 env) key (of_nat (length (en_shards e)))"
  shows "unat s < length (en_shards e)" "shardS env key e = Some (Inr s, e)"
proof -
  have l: "0 < length (en_shards e)" "length (en_shards e) < 2 ^ 16" using assms(1) by (simp_all add: shards_ok_def)
  then have "(0 :: u16) < of_nat (length (en_shards e))" by (simp add: word_less_nat_alt unat_of_nat)
  from shard_for_key_less [OF this] show "unat s < length (en_shards e)"
    using l by (simp add: s_def unat_of_nat)
  then show "shardS env key e = Some (Inr s, e)" by (simp add: shardS_def s_def Let_def)
qed

lemma update_shard_eq: "update_shard s f e = e\<lparr>en_shards := (en_shards e)[unat s := f (en_shards e ! unat s)]\<rparr>"
  by (simp add: update_shard_def)

definition with_chain :: "bytes \<Rightarrow> version_chain \<Rightarrow> shard \<Rightarrow> shard" where
  "with_chain key vc s = s\<lparr>sh_version_chains := AList.update key vc (sh_version_chains s)\<rparr>"

lemma with_chain_fields [simp]:
  "sh_art (with_chain key vc s) = sh_art s"
  "map_of (sh_version_chains (with_chain key vc s)) k = (if k = key then Some vc else map_of (sh_version_chains s) k)"
  by (simp_all add: with_chain_def update_conv')

lemma append_version_eq:
  "append_version ck s key vc dtype shape attrs hs e =
     (case VersionChain_append vc (ck_secs ck) dtype shape attrs hs of ((v_id, evicted), vc') \<Rightarrow>
        e\<lparr>en_shards := (en_shards e)[unat s := with_chain key vc' (en_shards e ! unat s)],
          en_content_store := fold (\<lambda>h s. snd (cs_release s h)) evicted (en_content_store e)\<rparr>)"
  by (simp add: append_version_def Let_def update_shard_eq with_chain_def split: prod.split)

lemma location_released: "location (fold (\<lambda>h s. snd (cs_release s h)) evicted st) h = location st h"
  by (rule content_index.loc_fold_rel)

section \<open>Checkpoints\<close>

lemma run_checkpoint_spec:
  assumes "writable env e"
  shows "\<exists>r e'. run_checkpoint env ck fin e = Some (Inr r, e') \<and> grows e e' \<and>
    en_master_toc e' = en_master_toc e \<and> en_content_store e' = en_content_store e \<and>
    map sh_art (en_shards e') = map sh_art (en_shards e) \<and>
    map sh_version_chains (en_shards e') = map sh_version_chains (en_shards e) \<and>
    r = checkpoint_footer (ev_xxh64 env) (en_shards e) (Toc_serialize (en_master_toc e)) (length (contents (en_io e))) fin \<and>
    contents (en_io e') = contents (en_io e) @
      checkpoint_block (Toc_serialize (en_master_toc e)) (Footer_serialize r) \<and> mb_file (en_io e') = contents (en_io e')"
proof -
  have io: "io_inv (en_io e)" "mb_mode (en_io e) \<noteq> ReadOnly" using assms by (simp_all add: writable_def)
  have l: "io_len (en_io e) = length (contents (en_io e))" using io(1) by (rule io_len_contents)
  define r where "r = checkpoint_footer (ev_xxh64 env) (en_shards e) (Toc_serialize (en_master_toc e)) (length (contents (en_io e))) fin"
  define block where "block = checkpoint_block (Toc_serialize (en_master_toc e)) (Footer_serialize r)"
  have dvd: "4096 dvd length block" using checkpoint_block_shape by (auto simp: block_def)
  obtain ra io1 where a: "io_append block (en_io e) = (ra, io1)" by fastforce
  note sa = append_spec [OF io, of block, unfolded a fst_conv snd_conv]
  obtain rs io2 where s: "io_sync io1 = (rs, io2)" by fastforce
  note ss = sync_spec [OF sa(3), unfolded s fst_conv snd_conv]
  show ?thesis
    by (auto simp: run_checkpoint_def execute_checkpoint_def Let_def l r_def [symmetric] block_def [symmetric]
        a s sa ss dvd grows_def comp_def)
qed

lemma shards_ok_arts: "map sh_art xs = map sh_art ys \<Longrightarrow> shards_ok P A xs = shards_ok P A ys"
  unfolding shards_ok_def by (metis (mono_tags, lifting) image_iff length_map list.set_map)

text \<open>A checkpoint leaves the indexes alone.\<close>

definition same_index :: "engine \<Rightarrow> engine \<Rightarrow> bool" where
  "same_index e e' \<longleftrightarrow> en_master_toc e' = en_master_toc e \<and> en_content_store e' = en_content_store e \<and>
     map sh_art (en_shards e') = map sh_art (en_shards e) \<and>
     map sh_version_chains (en_shards e') = map sh_version_chains (en_shards e)"

lemma same_index_refl [simp]: "same_index e e"
  by (simp add: same_index_def)

lemma same_index_shards: "same_index e e' \<Longrightarrow> shards_ok P A (en_shards e') = shards_ok P A (en_shards e)"
  unfolding same_index_def using shards_ok_arts by blast

lemma same_index_length: "same_index e e' \<Longrightarrow> length (en_shards e') = length (en_shards e)"
  unfolding same_index_def by (metis length_map)

definition is_checkpoint_of :: "toc \<Rightarrow> bytes \<Rightarrow> bool" where
  "is_checkpoint_of t block \<longleftrightarrow> (\<exists>f. footer_ok f \<and> block = checkpoint_block (Toc_serialize t) (Footer_serialize f))"

lemma footer_ok_checkpoint [simp]: "footer_ok (checkpoint_footer x sh tb off fin)"
  by (simp add: checkpoint_footer_def)

lemma auto_checkpoint_spec:
  assumes "writable env e"
  shows "\<exists>e' tail. auto_checkpoint env ck e = Some (Inr (), e') \<and> grows e e' \<and> same_index e e' \<and>
    contents (en_io e') = contents (en_io e) @ tail \<and> (tail = [] \<or> is_checkpoint_of (en_master_toc e) tail)"
proof (cases "should_checkpoint (ck_now ck) (en_coordinator e)")
  case True
  obtain r e' where "run_checkpoint env ck False e = Some (Inr r, e')" "grows e e'" "same_index e e'"
    "contents (en_io e') = contents (en_io e) @ checkpoint_block (Toc_serialize (en_master_toc e)) (Footer_serialize r)"
    "footer_ok r"
    using run_checkpoint_spec [OF assms, of ck False] footer_ok_checkpoint unfolding same_index_def by metis
  then show ?thesis using True unfolding is_checkpoint_of_def by (auto simp: auto_checkpoint_def engine_checkpoint_def bindS_def okS_def)
next
  case False
  then show ?thesis using assms by (auto simp: auto_checkpoint_def okS_def writable_def grows_refl)
qed

text \<open>
  A call that ends with a checkpoint: some growth of the archive, then the block of the table
  as it is then, with the footer that points at it, all in the file.
\<close>

definition checkpointed :: "engine \<Rightarrow> engine \<Rightarrow> bool" where
  "checkpointed e e' \<longleftrightarrow> mb_file (en_io e') = contents (en_io e') \<and>
     (\<exists>em f. grows e em \<and> same_index em e' \<and> footer_ok f \<and> ft_toc_offset f = of_nat (length (contents (en_io em))) \<and>
        contents (en_io e') =
          contents (en_io em) @ checkpoint_block (Toc_serialize (en_master_toc em)) (Footer_serialize f))"

text \<open>
  When a checkpoint is due: none is due after one, and a call that takes none leaves fewer
  bytes to lose than the coordinator's limit.
\<close>

definition settled :: "clock \<Rightarrow> engine \<Rightarrow> engine \<Rightarrow> bool" where
  "settled ck e e' \<longleftrightarrow> co_interval_bytes (en_coordinator e') = co_interval_bytes (en_coordinator e) \<and>
     (accounted e e' \<and> \<not> should_checkpoint (ck_now ck) (en_coordinator e') \<or>
      co_bytes_written_since_last (en_coordinator e') = 0 \<and> checkpointed e e')"

lemma run_checkpoint_settled:
  assumes "writable env e1" "grows e e1" "co_interval_bytes (en_coordinator e1) = co_interval_bytes (en_coordinator e)"
    and "run_checkpoint env ck' fin e1 = Some (r, e')"
  shows "settled ck e e'"
proof -
  obtain r' where r: "r = Inr r'" "same_index e1 e'" "mb_file (en_io e') = contents (en_io e')"
    "r' = checkpoint_footer (ev_xxh64 env) (en_shards e1) (Toc_serialize (en_master_toc e1)) (length (contents (en_io e1))) fin"
    "contents (en_io e') = contents (en_io e1) @ checkpoint_block (Toc_serialize (en_master_toc e1)) (Footer_serialize r')"
    using run_checkpoint_spec [OF assms(1), of ck' fin] unfolding assms(4) same_index_def by fastforce
  have "footer_ok r'" "ft_toc_offset r' = of_nat (length (contents (en_io e1)))"
    unfolding r(4) by (rule footer_ok_checkpoint) (simp add: checkpoint_footer_def Footer_new_def)
  then have "checkpointed e e'" unfolding checkpointed_def using assms(2) r(2,3,5) by blast
  moreover have "co_bytes_written_since_last (en_coordinator e') = 0 \<and>
      co_interval_bytes (en_coordinator e') = co_interval_bytes (en_coordinator e1)"
    using assms(4) r(1) by (auto simp: run_checkpoint_def execute_checkpoint_def Let_def split: prod.splits sum.splits)
  ultimately show ?thesis using assms(3) by (simp add: settled_def)
qed

lemma auto_checkpoint_settled:
  assumes "writable env e1" "grows e e1" "accounted e e1" "auto_checkpoint env ck e1 = Some (Inr (), e')"
  shows "settled ck e e'"
proof (cases "should_checkpoint (ck_now ck) (en_coordinator e1)")
  case True
  then obtain r where "run_checkpoint env ck False e1 = Some (r, e')"
    using assms(4) by (auto simp: auto_checkpoint_def engine_checkpoint_def bindS_def okS_def split: option.splits sum.splits prod.splits)
  moreover have "co_interval_bytes (en_coordinator e1) = co_interval_bytes (en_coordinator e)"
    using assms(3) by (auto simp: accounted_def record_bytes_written_def)
  ultimately show ?thesis using run_checkpoint_settled [OF assms(1,2)] by blast
next
  case False
  then show ?thesis using assms(3,4) by (auto simp: auto_checkpoint_def okS_def settled_def accounted_def record_bytes_written_def)
qed

section \<open>A put\<close>

text \<open>The version chain of a key, in the shard the key is routed to.\<close>

definition chain_at :: "engine_env \<Rightarrow> engine \<Rightarrow> bytes \<Rightarrow> version_chain option" where
  "chain_at env e key = map_of (sh_version_chains
     (en_shards e ! unat (shard_for_key (ev_xxh64 env) key (of_nat (length (en_shards e)))))) key"

lemma chain_at_same:
  assumes "same_index e e'" "shards_ok P A (en_shards e)"
  shows "chain_at env e' key = chain_at env e key"
proof -
  have l: "length (en_shards e') = length (en_shards e)" using assms(1) by (rule same_index_length)
  let ?i = "unat (shard_for_key (ev_xxh64 env) key (of_nat (length (en_shards e))))"
  have "?i < length (en_shards e)" by (rule shardS_spec(1) [OF assms(2)])
  then have "sh_version_chains (en_shards e' ! ?i) = sh_version_chains (en_shards e ! ?i)"
    using assms(1) l unfolding same_index_def by (metis nth_map)
  then show ?thesis by (simp add: chain_at_def l)
qed

lemma find_chain_eq: "shards_ok P A (en_shards e) \<Longrightarrow> find_chain env key e = Some (chain_at env e key)"
  using shardS_spec(1) [of P A e env key] by (simp add: find_chain_def chain_at_def Let_def)

lemma chain_at_with:
  fixes env key
  assumes "shards_ok P A (en_shards e)" "length sh = length (en_shards e)"
    "map sh_version_chains sh = map sh_version_chains (en_shards e)"
  defines "s \<equiv> unat (shard_for_key (ev_xxh64 env) key (of_nat (length (en_shards e))))"
  assumes "en_shards e' = sh[s := with_chain key vc (sh ! s)]"
  shows "chain_at env e' k = (if k = key then Some vc else chain_at env e k)"
proof -
  let ?i = "unat (shard_for_key (ev_xxh64 env) k (of_nat (length (en_shards e))))"
  have i: "s < length sh" "?i < length sh" using shardS_spec(1) [OF assms(1)] assms(2) by (simp_all add: s_def)
  have "sh_version_chains (sh ! ?i) = sh_version_chains (en_shards e ! ?i)"
    using assms(2,3) i by (metis nth_map)
  moreover have "?i = s" if "k = key" using that by (simp add: s_def)
  ultimately show ?thesis using i by (auto simp: chain_at_def assms(2,5) nth_list_update)
qed

text \<open>
  The bytes a put appends: new chunks, none if every segment is stored already, and possibly
  a checkpoint of the new table.
\<close>

definition put_appends :: "engine_env \<Rightarrow> bytes \<Rightarrow> engine \<Rightarrow> engine \<Rightarrow> bool" where
  "put_appends env data e e' \<longleftrightarrow> (\<exists>body tail segs.
     cdc_chunk (ev_hash128 env) data CdcConfig_default = Some segs \<and>
     contents (en_io e') = contents (en_io e) @ body @ tail \<and>
     length body \<le> 2 * length data + (84 + unat (fh_chunk_align (en_header e))) * (length data div 32768 + 1) \<and>
     ((\<forall>seg \<in> set segs. stored (en_content_store e) (sg_content_hash seg)) \<longrightarrow> body = []) \<and>
     (tail = [] \<or> is_checkpoint_of (en_master_toc e') tail) \<and>
     (\<forall>h. stored (en_content_store e') h \<longleftrightarrow> stored (en_content_store e) h \<or> h \<in> sg_content_hash ` set segs))"

text \<open>
  What a put does: it never fails, the archive grows, the chain of the key gets a version and
  the table an entry whose chunks decode to segments of the data.
\<close>

definition put_outcome ::
  "engine_env \<Rightarrow> bytes set \<Rightarrow> (chunk_ref art_node \<Rightarrow> bool) \<Rightarrow> u8 set \<Rightarrow> clock \<Rightarrow> bytes \<Rightarrow> bytes \<Rightarrow> DTypeId
     \<Rightarrow> u32 list \<Rightarrow> attrs \<Rightarrow> RetentionPolicy \<Rightarrow> engine \<Rightarrow> engine \<Rightarrow> bool" where
  "put_outcome env U P A ck key data dtype shape attrs retention e e' \<longleftrightarrow>
     grows e e' \<and> shards_ok P A (en_shards e') \<and> put_appends env data e e' \<and> keeps_places e e' \<and> settled ck e e' \<and>
     (\<exists>refs segs hs. concat segs = data \<and> length refs \<le> length data div 32768 + 1 \<and>
        list_all2 (\<lambda>raw. placed env e e' (ev_hash128 env raw) raw) segs refs \<and>
        en_master_toc e' = Toc_add_entry (en_master_toc e) (TocEntry_new (ev_xxh64 env) key dtype shape attrs refs) \<and>
        (\<forall>k. chain_at env e' k = (if k = key then Some (snd (VersionChain_append
           ((case chain_at env e key of Some vc \<Rightarrow> vc | None \<Rightarrow> VersionChain_new key retention)\<lparr>vc_retention := retention\<rparr>)
           (ck_secs ck) dtype shape attrs hs)) else chain_at env e k)) \<and>
        (length (contents (en_io e')) < 2 ^ 64 \<longrightarrow> store_ok env U (contents (en_io e)) (en_content_store e) \<longrightarrow>
           store_ok env U (contents (en_io e')) (en_content_store e') \<and>
           list_all2 (holds env (contents (en_io e'))) refs segs))"

text \<open>
  The bookkeeping of a stored tensor: its entry in the table and its version, on the indexes
  alone.
\<close>

definition new_entry ::
  "engine_env \<Rightarrow> (chunk_ref art_node \<Rightarrow> bool) \<Rightarrow> u8 set \<Rightarrow> clock \<Rightarrow> bytes \<Rightarrow> DTypeId \<Rightarrow> u32 list \<Rightarrow> attrs
     \<Rightarrow> chunk_ref list \<Rightarrow> version_chain \<Rightarrow> u128 list \<Rightarrow> engine \<Rightarrow> engine \<Rightarrow> bool" where
  "new_entry env P A ck key dtype shape attrs refs vc hs e e' \<longleftrightarrow>
     en_io e' = en_io e \<and> en_mode e' = en_mode e \<and> en_header e' = en_header e \<and> en_is_closed e' = en_is_closed e \<and>
     shards_ok P A (en_shards e') \<and> length (en_shards e') = length (en_shards e) \<and>
     en_master_toc e' = Toc_add_entry (en_master_toc e) (TocEntry_new (ev_xxh64 env) key dtype shape attrs refs) \<and>
     (\<forall>h. location (en_content_store e') h = location (en_content_store e) h) \<and> en_coordinator e' = en_coordinator e \<and>
     (\<forall>k. chain_at env e' k = (if k = key
        then Some (snd (VersionChain_append vc (ck_secs ck) dtype shape attrs hs)) else chain_at env e k))"

lemma new_entry_grows: "io_inv (en_io e) \<Longrightarrow> new_entry env P A ck key dtype shape attrs refs vc hs e e' \<Longrightarrow> grows e e'"
  by (simp add: new_entry_def grows_def)

text \<open>The chunks of a block need a bounded number of bytes.\<close>

lemma appends_bound:
  assumes "\<forall>seg \<in> set segs. segment_of env U data seg" and "concat (map (segment_bytes data) segs) = data"
    and "length segs \<le> length data div 32768 + 1" and "appends env e e1 segs" and "grows e e1"
  shows "\<exists>body. contents (en_io e1) = contents (en_io e) @ body \<and>
    length body \<le> 2 * length data + (84 + unat (fh_chunk_align (en_header e))) * (length data div 32768 + 1) \<and>
    ((\<forall>seg \<in> set segs. stored (en_content_store e) (sg_content_hash seg)) \<longrightarrow> body = [])"
proof -
  let ?c = "84 + unat (fh_chunk_align (en_header e))"
  have "(\<Sum>seg\<leftarrow>segs. 2 * sg_len seg + ?c) = 2 * length (concat (map (segment_bytes data) segs)) + ?c * length segs"
    using assms(1) by (induction segs) (auto simp: segment_of_def algebra_simps)
  also have "\<dots> \<le> 2 * length data + ?c * (length data div 32768 + 1)"
    using assms(3) mult_le_mono2 [OF assms(3), of ?c] by (simp only: assms(2) add_le_cancel_left)
  finally have "length (contents (en_io e1)) \<le> length (contents (en_io e)) + (2 * length data + ?c * (length data div 32768 + 1))"
    using assms(4) unfolding appends_def by (simp add: add.assoc)
  then show ?thesis using assms(4,5) by (auto simp: grows_def appends_def)
qed

text \<open>The index entries and a checkpoint keep what the segments' chunks established.\<close>

lemma put_data_kept:
  assumes "length (contents (en_io e1)) < 2 ^ 64 \<longrightarrow> store_ok env U (contents (en_io e)) (en_content_store e) \<longrightarrow>
       store_ok env U (contents (en_io e1)) (en_content_store e1) \<and> list_all2 (holds env (contents (en_io e1))) refs raws"
    and loc: "\<And>h. location (en_content_store e5) h = location (en_content_store e1) h"
    and io: "contents (en_io e5) = contents (en_io e1) @ tail"
    and "length (contents (en_io e5)) < 2 ^ 64" "store_ok env U (contents (en_io e)) (en_content_store e)"
  shows "store_ok env U (contents (en_io e5)) (en_content_store e5) \<and> list_all2 (holds env (contents (en_io e5))) refs raws"
proof -
  have h: "store_ok env U (contents (en_io e1)) (en_content_store e1)" "list_all2 (holds env (contents (en_io e1))) refs raws"
    using assms(1,4,5) by (simp_all add: io)
  show ?thesis unfolding io store_ok_cong [OF loc]
    using store_ok_append [OF h(1)] list_all2_mono [OF h(2)] holds_append by blast
qed

lemma placed_kept:
  assumes "list_all2 (\<lambda>seg. placed env e e1 (sg_content_hash seg) (segment_bytes data seg)) segs refs"
    and "\<forall>seg \<in> set segs. segment_of env U data seg"
    and "\<And>h. location (en_content_store e5) h = location (en_content_store e1) h"
  shows "list_all2 (\<lambda>raw. placed env e e5 (ev_hash128 env raw) raw) (map (segment_bytes data) segs) refs"
  unfolding list.rel_map using assms(1)
  by (rule list.rel_mono_strong) (use assms(2,3) in \<open>simp add: placed_def segment_of_def\<close>)

lemma put_appends_kept:
  assumes segs: "cdc_chunk (ev_hash128 env) data CdcConfig_default = Some segs"
    "\<forall>seg \<in> set segs. segment_of env U data seg" "concat (map (segment_bytes data) segs) = data"
    "length segs \<le> length data div 32768 + 1"
    and app: "appends env e e1 segs" and g: "grows e e1"
    and loc: "\<And>h. location (en_content_store e5) h = location (en_content_store e1) h"
    and io: "contents (en_io e5) = contents (en_io e1) @ tail" and tail: "tail = [] \<or> is_checkpoint_of (en_master_toc e5) tail"
  shows "put_appends env data e e5"
proof -
  obtain body where body: "contents (en_io e1) = contents (en_io e) @ body"
    "length body \<le> 2 * length data + (84 + unat (fh_chunk_align (en_header e))) * (length data div 32768 + 1)"
    "(\<forall>seg \<in> set segs. stored (en_content_store e) (sg_content_hash seg)) \<longrightarrow> body = []"
    using appends_bound [OF segs(2-4) app g] by blast
  show ?thesis unfolding put_appends_def
    using segs(1) body app tail stored_cong [OF loc]
    by (intro exI [of _ body] exI [of _ tail] exI [of _ segs]) (simp add: io appends_def)
qed

text \<open>The trees of the shards accept insertions of keys over \<open>A\<close>.\<close>

locale engine_index = insert_class P A
  for P :: "chunk_ref art_node \<Rightarrow> bool" and A :: "u8 set"
begin

lemma put_art_spec:
  assumes "shards_ok P A (en_shards e)" "unat s < length (en_shards e)" "set key \<subseteq> A"
  shows "\<exists>sh. put_art s key refs e = Some (Inr (), e\<lparr>en_shards := sh\<rparr>) \<and> shards_ok P A sh \<and>
    map sh_version_chains sh = map sh_version_chains (en_shards e)"
proof (cases refs)
  case Nil
  then show ?thesis using assms(1) by (intro exI [of _ "en_shards e"]) (simp add: put_art_def okS_def)
next
  case (Cons r rs)
  let ?s = "en_shards e ! unat s"
  obtain t where t: "Art_insert key r (sh_art ?s) = Some (Art_get (sh_art ?s) key, t)" "tree_wf P A t"
    using Art_insert_spec [OF shards_ok_nth [OF assms(1,2)] assms(3), of r] by blast
  let ?new = "?s\<lparr>sh_art := t, sh_chunk_count := sh_chunk_count ?s + of_nat (length refs)\<rparr>"
  have "put_art s key refs e = Some (Inr (), e\<lparr>en_shards := (en_shards e)[unat s := ?new]\<rparr>)"
    using t(1) Cons by (simp add: put_art_def update_shard_eq)
  moreover have "shards_ok P A ((en_shards e)[unat s := ?new])"
    using t(2) by (intro shards_ok_update [OF assms(1)]) simp
  moreover have "map sh_version_chains ((en_shards e)[unat s := ?new]) = map sh_version_chains (en_shards e)"
    using assms(2) by (intro nth_equalityI) (simp_all add: nth_list_update)
  ultimately show ?thesis by blast
qed

lemma new_entry_spec:
  fixes env key and upd :: "version_chain \<Rightarrow> version_chain"
  assumes sh: "shards_ok P A (en_shards e)" and key: "set key \<subseteq> A"
  defines "s \<equiv> shard_for_key (ev_xxh64 env) key (of_nat (length (en_shards e)))"
  shows "\<exists>e1. put_art s key refs e = Some (Inr (), e1) \<and>
    new_entry env P A ck key dtype shape attrs refs
      (upd (case chain_at env e key of Some vc \<Rightarrow> vc | None \<Rightarrow> VersionChain_new key ret)) hs e
      (add_toc_entry env key dtype shape attrs refs
        (append_version ck s key (upd (chain_of s key ret e1)) dtype shape attrs hs e1))"
proof -
  have s: "unat s < length (en_shards e)" using shardS_spec(1) [OF sh] by (simp add: s_def)
  obtain sh1 where e1: "put_art s key refs e = Some (Inr (), e\<lparr>en_shards := sh1\<rparr>)" "shards_ok P A sh1"
    "map sh_version_chains sh1 = map sh_version_chains (en_shards e)"
    using put_art_spec [OF sh s key] by blast
  let ?e1 = "e\<lparr>en_shards := sh1\<rparr>" and ?chain = "case chain_at env e key of Some vc \<Rightarrow> vc | None \<Rightarrow> VersionChain_new key ret"
  have l: "length sh1 = length (en_shards e)" using arg_cong [OF e1(3), of length] by simp
  have "sh_version_chains (sh1 ! unat s) = sh_version_chains (en_shards e ! unat s)"
    using e1(3) l s by (metis nth_map)
  then have vc: "chain_of s key ret ?e1 = ?chain"
    by (simp add: chain_of_def chain_or_new_def chain_at_def s_def [symmetric])
  obtain v_id evicted vc' where v: "VersionChain_append (upd ?chain) (ck_secs ck) dtype shape attrs hs = ((v_id, evicted), vc')"
    by (metis surj_pair)
  let ?e = "add_toc_entry env key dtype shape attrs refs (append_version ck s key (upd ?chain) dtype shape attrs hs ?e1)"
  have f: "en_shards ?e = sh1[unat s := with_chain key vc' (sh1 ! unat s)]"
    "en_content_store ?e = fold (\<lambda>h s. snd (cs_release s h)) evicted (en_content_store e)"
    by (simp_all add: append_version_eq v add_toc_entry_def)
  have "shards_ok P A (en_shards ?e)"
    unfolding f using e1(2) shards_ok_nth [OF e1(2), of "unat s"] s by (intro shards_ok_update) (simp_all add: l)
  moreover have "chain_at env ?e k = (if k = key then Some vc' else chain_at env e k)" for k
    unfolding s_def by (rule chain_at_with [OF sh l e1(3) f(1) [unfolded s_def]])
  ultimately have "new_entry env P A ck key dtype shape attrs refs (upd ?chain) hs e ?e"
    by (simp add: new_entry_def f l location_released v) (simp add: append_version_eq v add_toc_entry_def)
  then show ?thesis using e1(1) unfolding vc [symmetric] by blast
qed

lemma put_spec:
  assumes w: "writable env e" and sh: "shards_ok P A (en_shards e)" and inj: "inj_on (ev_hash128 env) U"
    and cut: "cut_into env U data" and key: "set key \<subseteq> A"
  shows "\<exists>e'. engine_put_with_retention env ck key data dtype shape attrs retain e = Some (Inr (), e') \<and>
    put_outcome env U P A ck key data dtype shape attrs (parse_retention retain) e e'"
proof -
  define s where "s = shard_for_key (ev_xxh64 env) key (of_nat (length (en_shards e)))"
  define ret where "ret = parse_retention retain"
  obtain segs where segs: "cdc_chunk (ev_hash128 env) data CdcConfig_default = Some segs"
    "\<forall>seg \<in> set segs. segment_of env U data seg" "concat (map (segment_bytes data) segs) = data"
    "length segs \<le> length data div 32768 + 1"
    using cut_segments [OF cut] by blast
  define hs where "hs = map sg_content_hash segs"
  obtain refs e1 where e1: "mapS (put_segment env s data dtype) segs e = Some (Inr refs, e1)" "grows e e1" "keeps e e1"
    "appends env e e1 segs" "keeps_places e e1" "accounted e e1"
    "list_all2 (\<lambda>seg. placed env e e1 (sg_content_hash seg) (segment_bytes data seg)) segs refs"
    "length (contents (en_io e1)) < 2 ^ 64 \<longrightarrow> store_ok env U (contents (en_io e)) (en_content_store e) \<longrightarrow>
       store_ok env U (contents (en_io e1)) (en_content_store e1) \<and>
       list_all2 (holds env (contents (en_io e1))) refs (map (segment_bytes data) segs)"
    using put_segments_spec [OF w inj segs(2)] by blast
  have shs: "en_shards e1 = en_shards e" "en_master_toc e1 = en_master_toc e" using e1(3) by (simp_all add: keeps_def)
  then have ch1: "chain_at env e1 k = chain_at env e k" for k by (simp add: chain_at_def)
  let ?vc = "(case chain_at env e key of Some vc \<Rightarrow> vc | None \<Rightarrow> VersionChain_new key ret)\<lparr>vc_retention := ret\<rparr>"
  obtain e2 e4 where e2: "put_art s key refs e1 = Some (Inr (), e2)"
    and e4: "e4 = add_toc_entry env key dtype shape attrs refs
        (append_version ck s key ((chain_of s key ret e2)\<lparr>vc_retention := ret\<rparr>) dtype shape attrs hs e2)"
    and n: "new_entry env P A ck key dtype shape attrs refs ?vc hs e1 e4"
    using new_entry_spec [of e1 key env refs ck dtype shape attrs "\<lambda>vc. vc\<lparr>vc_retention := ret\<rparr>" ret hs] sh key
    unfolding shs s_def [symmetric] ch1 by blast
  have i1: "io_inv (en_io e1)" using e1(2) by (simp add: grows_def)
  have g4: "grows e e4" using grows_trans [OF e1(2) new_entry_grows [OF i1 n]] .
  obtain e5 tail where e5: "auto_checkpoint env ck e4 = Some (Inr (), e5)" "grows e4 e5" "same_index e4 e5"
    "contents (en_io e5) = contents (en_io e4) @ tail" "tail = [] \<or> is_checkpoint_of (en_master_toc e4) tail"
    using auto_checkpoint_spec [OF writable_grows [OF w g4]] by blast
  have run: "engine_put_with_retention env ck key data dtype shape attrs retain e = Some (Inr (), e5)"
    using w shardS_spec(2) [OF sh, where env = env and key = key] e5(1)
    by (simp add: engine_put_with_retention_def bindS_def cdcS_def segs(1) updS_def s_def [symmetric] writable_def
        e1(1) e2 ret_def [symmetric] hs_def [symmetric] e4)
  note n = n [unfolded new_entry_def] and si = e5(3) [unfolded same_index_def]
  have io: "contents (en_io e5) = contents (en_io e1) @ tail" using n e5(4) by simp
  have loc: "location (en_content_store e5) h = location (en_content_store e1) h" for h using n si by simp
  have chains: "chain_at env e5 k = (if k = key then Some (snd (VersionChain_append ?vc (ck_secs ck) dtype shape attrs hs))
      else chain_at env e k)" for k
    using n chain_at_same [OF e5(3), of P A env k] by (simp add: ch1)
  note data = put_data_kept [OF e1(8) loc io]
  have se: "settled ck e e5"
  proof (rule auto_checkpoint_settled [OF writable_grows [OF w g4] g4 accounted_trans [OF e1(6)] e5(1)])
    show "accounted e1 e4" using n by (intro accounted_same) simp_all
  qed
  have kp: "keeps_places e e5" using e1(5) by (simp add: keeps_places_def loc)
  note pl = placed_kept [OF e1(7) segs(2) loc]
  have toc: "en_master_toc e5 = Toc_add_entry (en_master_toc e) (TocEntry_new (ev_xxh64 env) key dtype shape attrs refs)"
    using n si by (simp add: shs)
  have "tail = [] \<or> is_checkpoint_of (en_master_toc e5) tail" using e5(5) si by simp
  note app = put_appends_kept [OF segs e1(4,2) loc io this]
  have "put_outcome env U P A ck key data dtype shape attrs ret e e5"
    unfolding put_outcome_def
    using grows_trans [OF g4 e5(2)] same_index_shards [OF e5(3)] n segs(3,4) mapS_length [OF e1(1)] toc chains data app kp pl se
    by (intro conjI exI [of _ refs] exI [of _ "map (segment_bytes data) segs"] exI [of _ hs]) simp_all
  then show ?thesis using run unfolding ret_def by blast
qed

end

end
