(* ===== verification/Engine_History.thy ===== *)
theory Engine_History
  imports Engine_Put
begin

text \<open>
  The engine as a keyed store of tensors: the invariant of its state, what every operation
  does to the tensors that are visible, and histories of operations refined by histories on
  an abstract map.
\<close>

section \<open>The invariant\<close>

definition entry_ok :: "engine_env \<Rightarrow> bytes \<Rightarrow> toc_entry \<Rightarrow> bool" where
  "entry_ok env c entry \<longleftrightarrow> (\<exists>segs. list_all2 (holds env c) (te_chunk_refs entry) segs)"

lemma entry_ok_holds: "entry_ok env c entry \<Longrightarrow> r \<in> set (te_chunk_refs entry) \<Longrightarrow> \<exists>seg. holds env c r seg"
  by (auto simp: entry_ok_def list_all2_conv_all_nth in_set_conv_nth)

lemma mapR_holds: "list_all2 (holds env c) refs segs \<Longrightarrow> mapR (chunk_data env c dtype) refs = Inr segs"
  unfolding mapR_Inr by (erule list_all2_mono) (simp add: holds_def)

lemma entry_tensor_holds:
  "list_all2 (holds env c) (te_chunk_refs entry) segs \<Longrightarrow>
     entry_tensor env c entry = Inr (OwnedTensor_new (te_dtype_id entry) (te_shape entry) (concat segs))"
  by (simp add: entry_tensor_def entry_data_def mapR_holds)

lemma entry_ok_append: "entry_ok env c entry \<Longrightarrow> entry_ok env (c @ d) entry"
  unfolding entry_ok_def by (metis holds_append list_all2_mono)

lemma entry_tensor_append: "entry_ok env c entry \<Longrightarrow> entry_tensor env (c @ d) entry = entry_tensor env c entry"
  unfolding entry_ok_def by (metis entry_tensor_holds holds_append list_all2_mono)

lemma mark_data [simp]: "entry_ok env c (mark k entry) = entry_ok env c entry"
  "entry_tensor env c (mark k entry) = entry_tensor env c entry"
  by (simp_all add: entry_ok_def entry_tensor_def entry_data_def)

text \<open>
  The keys stored so far lie in \<open>K\<close>. Offsets are 64-bit numbers, so what the chunks hold is
  claimed as long as the archive is shorter than 2^64 bytes.
\<close>

definition engine_inv ::
  "engine_env \<Rightarrow> bytes set \<Rightarrow> bytes set \<Rightarrow> (chunk_ref art_node \<Rightarrow> bool) \<Rightarrow> u8 set \<Rightarrow> engine \<Rightarrow> bool" where
  "engine_inv env U K P A e \<longleftrightarrow> writable env e \<and> shards_ok P A (en_shards e) \<and> index_ok (en_master_toc e) \<and>
     hashed (ev_xxh64 env) (toc_entries (en_master_toc e)) \<and> te_key ` set (toc_entries (en_master_toc e)) \<subseteq> K \<and>
     (length (contents (en_io e)) < 2 ^ 64 \<longrightarrow>
        store_ok env U (contents (en_io e)) (en_content_store e) \<and>
        (\<forall>entry \<in> set (toc_entries (en_master_toc e)). entry_ok env (contents (en_io e)) entry))"

definition in_bounds :: "engine \<Rightarrow> bool" where
  "in_bounds e \<longleftrightarrow> length (contents (en_io e)) < 2 ^ 64 \<and> length (toc_entries (en_master_toc e)) \<le> 2 ^ 32"

section \<open>The abstract store\<close>

type_synonym tensor_map = "bytes \<Rightarrow> (owned_tensor \<times> attrs) option"

definition engine_abs :: "engine_env \<Rightarrow> engine \<Rightarrow> tensor_map" where
  "engine_abs env e key =
     (case live (toc_entries (en_master_toc e)) key of
        None \<Rightarrow> None
      | Some entry \<Rightarrow>
          (case entry_tensor env (contents (en_io e)) entry of
             Inl _ \<Rightarrow> None
           | Inr t \<Rightarrow> Some (t, te_attrs entry)))"

text \<open>What reading needs: a consistent table whose entries are all readable.\<close>

definition readable :: "engine_env \<Rightarrow> bytes set \<Rightarrow> engine \<Rightarrow> bool" where
  "readable env K e \<longleftrightarrow> io_inv (en_io e) \<and> index_ok (en_master_toc e) \<and>
     hashed (ev_xxh64 env) (toc_entries (en_master_toc e)) \<and> te_key ` set (toc_entries (en_master_toc e)) \<subseteq> K \<and>
     length (toc_entries (en_master_toc e)) \<le> 2 ^ 32 \<and>
     (\<forall>entry \<in> set (toc_entries (en_master_toc e)). entry_ok env (contents (en_io e)) entry) \<and>
     inj_on (\<lambda>k. ev_xxh64 env k 0) K"

lemma engine_inv_readable:
  "engine_inv env U K P A e \<Longrightarrow> in_bounds e \<Longrightarrow> inj_on (\<lambda>k. ev_xxh64 env k 0) K \<Longrightarrow> readable env K e"
  by (simp add: engine_inv_def in_bounds_def readable_def writable_def)

lemma Toc_lookup_readable:
  assumes "readable env K e" "key \<in> K"
  shows "Toc_lookup (ev_xxh64 env) (en_master_toc e) key = live (toc_entries (en_master_toc e)) key"
proof -
  have "no_collision (ev_xxh64 env) (toc_entries (en_master_toc e)) key"
    using assms unfolding no_collision_def readable_def by (meson image_subset_iff inj_onD)
  then show ?thesis using assms(1) by (intro Toc_lookup_live) (simp_all add: readable_def)
qed

lemmas Toc_lookup_inv = Toc_lookup_readable [OF engine_inv_readable]

lemma live_segments:
  assumes "readable env K e" "live (toc_entries (en_master_toc e)) key = Some entry"
  shows "\<exists>segs. list_all2 (holds env (contents (en_io e))) (te_chunk_refs entry) segs"
  using assms live_key [OF assms(2)] unfolding readable_def entry_ok_def by blast

text \<open>Reading a key answers what the abstract store has for it.\<close>

lemma engine_get_readable:
  assumes "readable env K e" "key \<in> K"
  shows "\<exists>e'. engine_get env key e = Some (Inr (map_option fst (engine_abs env e key)), e') \<and> reads_only e e'"
proof -
  have io: "io_inv (en_io e)" using assms(1) by (simp add: readable_def)
  show ?thesis
  proof (cases "live (toc_entries (en_master_toc e)) key")
    case None
    then show ?thesis using engine_get_eq [OF io, of env key] by (simp add: Toc_lookup_readable [OF assms] engine_abs_def)
  next
    case (Some entry)
    obtain segs where "list_all2 (holds env (contents (en_io e))) (te_chunk_refs entry) segs"
      using live_segments [OF assms(1) Some] by blast
    then show ?thesis using engine_get_eq [OF io, of env key] Some
      by (simp add: Toc_lookup_readable [OF assms] engine_abs_def entry_tensor_holds)
  qed
qed

lemma engine_get_attrs_readable:
  assumes "readable env K e" "key \<in> K"
  shows "engine_get_attrs env key e =
    (case engine_abs env e key of None \<Rightarrow> Inl (KeyNotFound key) | Some (_, attrs) \<Rightarrow> Inr (attrs_map attrs))"
proof (cases "live (toc_entries (en_master_toc e)) key")
  case (Some entry)
  then obtain segs where "list_all2 (holds env (contents (en_io e))) (te_chunk_refs entry) segs"
    using live_segments [OF assms(1)] by blast
  then show ?thesis using Some
    by (simp add: engine_get_attrs_def Toc_lookup_readable [OF assms] engine_abs_def entry_tensor_holds)
qed (simp add: engine_get_attrs_def Toc_lookup_readable [OF assms] engine_abs_def)

lemmas engine_get_abs = engine_get_readable [OF engine_inv_readable]
lemmas engine_get_attrs_abs = engine_get_attrs_readable [OF engine_inv_readable]

section \<open>Every operation keeps the invariant\<close>

text \<open>The abstract store is a function of the live entries and the chunks they point at.\<close>

lemma engine_abs_entry:
  "live (toc_entries (en_master_toc e)) key = Some entry \<Longrightarrow>
   list_all2 (holds env (contents (en_io e))) (te_chunk_refs entry) segs \<Longrightarrow>
   engine_abs env e key = Some (OwnedTensor_new (te_dtype_id entry) (te_shape entry) (concat segs), te_attrs entry)"
  by (simp add: engine_abs_def entry_tensor_holds)

text \<open>
  A step that extends the archive and leaves an entry live leaves what is visible through it.
\<close>

lemma engine_abs_grows:
  assumes "grows e e'" and "live (toc_entries (en_master_toc e')) key = live (toc_entries (en_master_toc e)) key"
    and "\<forall>entry \<in> set (toc_entries (en_master_toc e)). entry_ok env (contents (en_io e)) entry"
  shows "engine_abs env e' key = engine_abs env e key"
proof -
  obtain d where d: "contents (en_io e') = contents (en_io e) @ d" using assms(1) by (auto simp: grows_def)
  show ?thesis
  proof (cases "live (toc_entries (en_master_toc e)) key")
    case (Some entry)
    then have "entry_ok env (contents (en_io e)) entry" using assms(3) live_key by blast
    then show ?thesis by (simp add: engine_abs_def assms(2) d Some entry_tensor_append)
  qed (simp add: engine_abs_def assms(2))
qed

lemma entry_ok_grows:
  "grows e e' \<Longrightarrow> entry_ok env (contents (en_io e)) entry \<Longrightarrow> entry_ok env (contents (en_io e')) entry"
  by (auto simp: grows_def entry_ok_append)

lemma engine_inv_grows_length:
  "grows e e' \<Longrightarrow> length (contents (en_io e')) < 2 ^ 64 \<Longrightarrow> length (contents (en_io e)) < 2 ^ 64"
  using grows_length le_less_trans by blast

lemma engine_inv_same_index:
  assumes "engine_inv env U K P A e" "grows e e'" "same_index e e'"
  shows "engine_inv env U K P A e'"
    and "length (contents (en_io e')) < 2 ^ 64 \<Longrightarrow> engine_abs env e' = engine_abs env e"
proof -
  have t: "en_master_toc e' = en_master_toc e" "en_content_store e' = en_content_store e"
    using assms(3) by (simp_all add: same_index_def)
  obtain d where d: "contents (en_io e') = contents (en_io e) @ d" using assms(2) by (auto simp: grows_def)
  show "engine_inv env U K P A e'"
    using assms(1) writable_grows [OF _ assms(2)] same_index_shards [OF assms(3)]
    by (simp add: engine_inv_def t d store_ok_append entry_ok_append)
  show "engine_abs env e' = engine_abs env e" if "length (contents (en_io e')) < 2 ^ 64"
    using assms(1) engine_inv_grows_length [OF assms(2) that]
    by (intro ext engine_abs_grows [OF assms(2)]) (simp_all add: t engine_inv_def)
qed

text \<open>An entry with readable chunks at the end of the table.\<close>

lemma add_entry_inv:
  assumes e: "engine_inv env U K P A e" and key: "key \<in> K"
    and g: "grows e e'" and sh: "shards_ok P A (en_shards e')" and data: "concat segs = data"
    and toc: "en_master_toc e' = Toc_add_entry (en_master_toc e) (TocEntry_new (ev_xxh64 env) key dtype shape attrs refs)"
    and ok: "length (contents (en_io e')) < 2 ^ 64 \<longrightarrow> store_ok env U (contents (en_io e)) (en_content_store e) \<longrightarrow>
           store_ok env U (contents (en_io e')) (en_content_store e') \<and>
           list_all2 (holds env (contents (en_io e'))) refs segs"
  shows "engine_inv env U K P A e'"
    and "length (contents (en_io e')) < 2 ^ 64 \<Longrightarrow>
      engine_abs env e' = (engine_abs env e)(key \<mapsto> (OwnedTensor_new dtype shape data, attrs))"
proof -
  let ?new = "TocEntry_new (ev_xxh64 env) key dtype shape attrs refs"
  have all: "store_ok env U (contents (en_io e')) (en_content_store e')" "list_all2 (holds env (contents (en_io e'))) refs segs"
    "\<forall>entry \<in> set (toc_entries (en_master_toc e)). entry_ok env (contents (en_io e)) entry"
    if "length (contents (en_io e')) < 2 ^ 64"
    using that ok e engine_inv_grows_length [OF g that] by (simp_all add: engine_inv_def)
  have new: "entry_ok env (contents (en_io e')) ?new" if "length (contents (en_io e')) < 2 ^ 64"
    using all(2) [OF that] unfolding entry_ok_def by auto
  show "engine_inv env U K P A e'"
    unfolding engine_inv_def
  proof (intro conjI impI ballI)
    fix entry
    assume l: "length (contents (en_io e')) < 2 ^ 64" and "entry \<in> set (toc_entries (en_master_toc e'))"
    then show "entry_ok env (contents (en_io e')) entry"
      using new [OF l] all(3) [OF l] entry_ok_grows [OF g] by (auto simp: toc)
  qed (use e key sh g all(1) in \<open>auto simp: engine_inv_def toc index_ok_add intro: writable_grows\<close>)
  show "engine_abs env e' = (engine_abs env e)(key \<mapsto> (OwnedTensor_new dtype shape data, attrs))"
    if l: "length (contents (en_io e')) < 2 ^ 64"
  proof
    fix k
    show "engine_abs env e' k = ((engine_abs env e)(key \<mapsto> (OwnedTensor_new dtype shape data, attrs))) k"
    proof (cases "k = key")
      case True
      then show ?thesis using engine_abs_entry [of e' key ?new env segs] all(2) [OF l] by (simp add: toc data)
    next
      case False
      then show ?thesis using engine_abs_grows [OF g _ all(3) [OF l], of k] by (simp add: toc)
    qed
  qed
qed

lemma put_outcome_inv:
  assumes e: "engine_inv env U K P A e" and key: "key \<in> K"
    and put: "put_outcome env U P A ck key data dtype shape attrs retention e e'"
  shows "engine_inv env U K P A e'"
    and "length (contents (en_io e')) < 2 ^ 64 \<Longrightarrow>
      engine_abs env e' = (engine_abs env e)(key \<mapsto> (OwnedTensor_new dtype shape data, attrs))"
  using put add_entry_inv [OF e key] unfolding put_outcome_def by blast+

lemma new_entry_inv:
  assumes e: "engine_inv env U K P A e" and key: "key \<in> K"
    and new: "new_entry env P A ck key dtype shape attrs refs vc hs e e'"
    and refs: "length (contents (en_io e)) < 2 ^ 64 \<longrightarrow> list_all2 (holds env (contents (en_io e))) refs segs"
  shows "engine_inv env U K P A e'"
    and "length (contents (en_io e)) < 2 ^ 64 \<Longrightarrow>
      engine_abs env e' = (engine_abs env e)(key \<mapsto> (OwnedTensor_new dtype shape (concat segs), attrs))"
proof -
  note n = new [unfolded new_entry_def]
  have g: "grows e e'" using new_entry_grows [OF _ new] e by (simp add: engine_inv_def writable_def)
  have ok: "store_ok env U c (en_content_store e') = store_ok env U c (en_content_store e)" for c
    using n store_ok_cong by blast
  note a = add_entry_inv [OF e key g _ refl, where segs = segs and dtype = dtype and shape = shape and attrs = attrs and refs = refs]
  show "engine_inv env U K P A e'" using a(1) n refs ok by simp
  show "engine_abs env e' = (engine_abs env e)(key \<mapsto> (OwnedTensor_new dtype shape (concat segs), attrs))"
    if "length (contents (en_io e)) < 2 ^ 64" using a(2) n refs ok that by simp
qed

text \<open>Deletion, over trees that also support removals.\<close>

definition delete_outcome ::
  "engine_env \<Rightarrow> (chunk_ref art_node \<Rightarrow> bool) \<Rightarrow> u8 set \<Rightarrow> bytes \<Rightarrow> engine \<Rightarrow> engine \<Rightarrow> bool" where
  "delete_outcome env P A key e e' \<longleftrightarrow>
     en_io e' = en_io e \<and> en_mode e' = en_mode e \<and> en_header e' = en_header e \<and> en_is_closed e' = en_is_closed e \<and>
     en_content_store e' = en_content_store e \<and> en_coordinator e' = en_coordinator e \<and> shards_ok P A (en_shards e') \<and>
     en_master_toc e' = Toc_tombstone (en_master_toc e) key \<and>
     (\<forall>k. chain_at env e' k = (if k = key then None else chain_at env e k))"

lemma delete_outcome_inv:
  assumes e: "engine_inv env U K P A e" and del: "delete_outcome env P A key e e'"
  shows "engine_inv env U K P A e'" and "engine_abs env e' = (engine_abs env e)(key := None)"
proof -
  note d = del [unfolded delete_outcome_def]
  show "engine_inv env U K P A e'"
    using e d by (auto simp: engine_inv_def writable_def index_ok_tombstone)
  show "engine_abs env e' = (engine_abs env e)(key := None)"
  proof
    fix k
    show "engine_abs env e' k = ((engine_abs env e)(key := None)) k"
    proof (cases "k = key")
      case False
      then have "live (toc_entries (en_master_toc e')) k = live (toc_entries (en_master_toc e)) k"
        using d by (simp add: live_mark)
      then show ?thesis using False d by (simp add: engine_abs_def split: option.split)
    qed (use d in \<open>simp add: engine_abs_def live_mark\<close>)
  qed
qed

locale engine_index_del = engine_index P A + del: remove_class P
  for P :: "chunk_ref art_node \<Rightarrow> bool" and A :: "u8 set"
begin

lemma delete_spec:
  assumes w: "writable env e" and sh: "shards_ok P A (en_shards e)"
  shows "\<exists>e'. engine_delete env key e = Some (Inr (), e') \<and> delete_outcome env P A key e e'"
proof -
  define s where "s = shard_for_key (ev_xxh64 env) key (of_nat (length (en_shards e)))"
  let ?s = "en_shards e ! unat s"
  have s: "unat s < length (en_shards e)" "shardS env key e = Some (Inr s, e)"
    using shardS_spec [OF sh, where env = env and key = key] by (simp_all add: s_def)
  obtain t where t: "Art_remove key (sh_art ?s) = (Art_get (sh_art ?s) key, t)" "tree_wf P A t"
    using del.Art_remove_spec [OF shards_ok_nth [OF sh s(1)], of key] by blast
  let ?new = "?s\<lparr>sh_art := t, sh_version_chains := AList.delete key (sh_version_chains ?s)\<rparr>"
  let ?e = "e\<lparr>en_shards := (en_shards e)[unat s := ?new], en_master_toc := Toc_tombstone (en_master_toc e) key\<rparr>"
  have "engine_delete env key e = Some (Inr (), ?e)"
    using w s(2) by (simp add: engine_delete_def bindS_def updS_def update_shard_eq t(1) writable_def)
  moreover have "shards_ok P A (en_shards ?e)"
    using shards_ok_update [OF sh, of ?new "unat s"] t(2) by simp
  moreover have "chain_at env ?e k = (if k = key then None else chain_at env e k)" for k
  proof -
    let ?i = "unat (shard_for_key (ev_xxh64 env) k (of_nat (length (en_shards e))))"
    have "?i < length (en_shards e)" by (rule shardS_spec(1) [OF sh])
    moreover have "?i = unat s" if "k = key" using that by (simp add: s_def)
    ultimately show ?thesis by (cases "?i = unat s") (auto simp: chain_at_def delete_conv')
  qed
  ultimately show ?thesis unfolding delete_outcome_def by auto
qed

end

text \<open>
  The trees: insertions alone over all keys; insertions and removals over keys of at most
  sixteen different bytes.
\<close>

interpretation any_keys: engine_index "node_shape True" UNIV
  by unfold_locales

interpretation narrow_keys: engine_index_del "narrow S" "alphabet S" for S :: "u8 list"
  by unfold_locales

section \<open>Creating\<close>

lemma length_header_block: "fh_magic h = MAGIC \<Longrightarrow> 0 < length (header_block h)"
  using pad_to_align_eq [of "FileHeader_serialize h" "fh_chunk_align h"]
  by (auto simp: header_block_def HEADER_SIZE_def)

lemma engine_create_spec:
  assumes "engine_create_with_retention ck existing locked sc retention = Inr e" and "env_ok env"
  shows "engine_inv env U K P A e" and "engine_abs env e = Map.empty"
    and "toc_entries (en_master_toc e) = []"
    and "contents (en_io e) = file_write (case existing of None \<Rightarrow> [] | Some f \<Rightarrow> f) 0 (header_block (en_header e))"
    and "\<exists>n. en_header e = FileHeader_new n DEFAULT_CHUNK_ALIGN 2" and "chain_at env e key = None"
    and "\<not> en_is_closed e" and "en_content_store e = ContentStore_new"
    and "en_coordinator e = Coordinator_default (ck_now ck)"
proof -
  define n where "n = max (case sc of None \<Rightarrow> 4 | Some n \<Rightarrow> n) 1"
  define h where "h = FileHeader_new n DEFAULT_CHUNK_ALIGN 2"
  obtain io where io: "mmap_open_or_create existing locked ReadWrite = Inr io"
    using assms(1) by (cases "mmap_open_or_create existing locked ReadWrite")
      (simp_all add: engine_create_with_retention_def detect_best_tier_def Let_def)
  note o = open_spec [OF io]
  have hb: "header_block h \<noteq> []" using length_header_block [of h] by (auto simp: h_def FileHeader_new_def)
  obtain r io' where w: "io_write_at 0 (header_block h) io = (r, io')" by fastforce
  note ws = write_at_spec [of io "header_block h" 0, unfolded w fst_conv snd_conv]
  have ws: "r = Inr ()" "contents io' = file_write (contents io) 0 (header_block h)" "io_inv io'" "mb_mode io' = ReadWrite"
    using ws o hb by simp_all
  have e: "e = \<lparr>en_mode = ReadWrite, en_shards = map (\<lambda>i. Shard_new (of_nat i) (of_nat (length (header_block h)))) [0..<unat n],
      en_io = io', en_header = h, en_master_toc = Toc_new, en_content_store = ContentStore_new,
      en_coordinator = Coordinator_default (ck_now ck), en_is_closed = False\<rparr>"
    using assms(1) by (simp add: engine_create_with_retention_def detect_best_tier_def Let_def io n_def [symmetric]
        h_def [symmetric] w ws(1))
  have n: "0 < unat n" by (simp add: n_def max_def word_le_nat_alt unat_gt_0 split: option.split) auto
  have n2: "unat n < 2 ^ 16" using unsigned_less [of n] by simp
  have sh: "shards_ok P A (en_shards e)"
    using n n2 by (auto simp: shards_ok_def e Shard_new_def Art_new_def)
  show "engine_inv env U K P A e"
    using assms(2) ws sh by (simp add: engine_inv_def writable_def e h_def FileHeader_new_def DEFAULT_CHUNK_ALIGN_def
        store_ok_def ContentStore_new_def location_def)
  show "engine_abs env e = Map.empty" by (rule ext) (simp add: engine_abs_def e live_def)
  show "toc_entries (en_master_toc e) = []" by (simp add: e)
  show "contents (en_io e) = file_write (case existing of None \<Rightarrow> [] | Some f \<Rightarrow> f) 0 (header_block (en_header e))"
    using o by (simp add: e ws(2))
  show "\<exists>n. en_header e = FileHeader_new n DEFAULT_CHUNK_ALIGN 2" by (auto simp: e h_def)
  show "\<not> en_is_closed e" "en_content_store e = ContentStore_new"
    "en_coordinator e = Coordinator_default (ck_now ck)" by (simp_all add: e)
  have "unat (shard_for_key (ev_xxh64 env) key (of_nat (length (en_shards e)))) < length (en_shards e)"
    by (rule shardS_spec(1) [OF sh])
  then show "chain_at env e key = None" by (simp add: chain_at_def e Shard_new_def)
qed

section \<open>Histories\<close>

datatype engine_op =
  PutOp bytes bytes DTypeId "u32 list" attrs bytes
| DeleteOp bytes
| GetOp bytes
| FlushOp

text \<open>A call and the clock it sees. The result of a read is ignored, its effects are kept.\<close>

fun engine_step :: "engine_env \<Rightarrow> clock \<times> engine_op \<Rightarrow> unit op" where
  "engine_step env (ck, PutOp key data dtype shape attrs retain) =
     engine_put_with_retention env ck key data dtype shape attrs retain"
| "engine_step env (ck, DeleteOp key) = engine_delete env key"
| "engine_step env (ck, GetOp key) =
     (\<lambda>e. case engine_get env key e of None \<Rightarrow> None | Some (_, e') \<Rightarrow> Some (Inr (), e'))"
| "engine_step env (ck, FlushOp) = engine_flush env ck"

fun run_ops :: "engine_env \<Rightarrow> (clock \<times> engine_op) list \<Rightarrow> unit op" where
  "run_ops env [] = okS ()"
| "run_ops env (x # xs) = bindS (engine_step env x) (\<lambda>_. run_ops env xs)"

text \<open>The same history on the abstract store, and its effect on one key.\<close>

fun key_ops :: "engine_op \<Rightarrow> (bytes, owned_tensor \<times> attrs) key_op list" where
  "key_ops (PutOp key data dtype shape attrs retain) = [Put key (OwnedTensor_new dtype shape data, attrs)]"
| "key_ops (DeleteOp key) = [Del key]"
| "key_ops _ = []"

definition history :: "(clock \<times> engine_op) list \<Rightarrow> (bytes, owned_tensor \<times> attrs) key_op list" where
  "history ops = concat (map (key_ops \<circ> snd) ops)"

definition abs_step :: "engine_op \<Rightarrow> tensor_map \<Rightarrow> tensor_map" where
  "abs_step op m = (case op of
     PutOp key data dtype shape attrs retain \<Rightarrow> m(key \<mapsto> (OwnedTensor_new dtype shape data, attrs))
   | DeleteOp key \<Rightarrow> m(key := None)
   | _ \<Rightarrow> m)"

lemma abs_steps: "fold (abs_step \<circ> snd) ops m key = last_write (history ops) key (m key)"
proof (induction ops arbitrary: m)
  case (Cons x ops)
  obtain ck op where "x = (ck, op)" by (cases x)
  with Cons show ?case by (cases op) (auto simp: history_def abs_step_def)
qed (simp add: history_def)

text \<open>What a call may be given: keys of \<open>K\<close> over the bytes \<open>A\<close>, data with segments in \<open>U\<close>.\<close>

definition op_admissible :: "engine_env \<Rightarrow> bytes set \<Rightarrow> bytes set \<Rightarrow> u8 set \<Rightarrow> engine_op \<Rightarrow> bool" where
  "op_admissible env U K A op = (case op of
     PutOp key data dtype shape attrs retain \<Rightarrow> key \<in> K \<and> set key \<subseteq> A \<and> cut_into env U data | _ \<Rightarrow> True)"

definition is_delete :: "engine_op \<Rightarrow> bool" where
  "is_delete op = (case op of DeleteOp key \<Rightarrow> True | _ \<Rightarrow> False)"

text \<open>
  Histories without deletions may use any keys; with deletions the keys are made of at most
  sixteen different bytes, for which the radix tree supports removals.
\<close>

definition history_ok :: "engine_env \<Rightarrow> bytes set \<Rightarrow> bytes set \<Rightarrow> (clock \<times> engine_op) list \<Rightarrow> bool" where
  "history_ok env U K ops \<longleftrightarrow> inj_on (ev_hash128 env) U \<and> inj_on (\<lambda>k. ev_xxh64 env k 0) K \<and>
     ((\<forall>x \<in> set ops. \<not> is_delete (snd x) \<and> op_admissible env U K UNIV (snd x)) \<or>
      (\<exists>S. \<forall>x \<in> set ops. op_admissible env U K (alphabet S) (snd x)))"

section \<open>The effect of a history\<close>

text \<open>
  What a single operation does, as a relation between the states. A call that writes leaves
  no checkpoint due; the others leave the archive and the coordinator as they are.
\<close>

definition paced :: "clock \<Rightarrow> engine \<Rightarrow> engine \<Rightarrow> bool" where
  "paced ck e e' \<longleftrightarrow> settled ck e e' \<or>
     contents (en_io e') = contents (en_io e) \<and> en_coordinator e' = en_coordinator e"

lemma put_outcome_paced: "put_outcome env U P A ck key data dtype shape attrs retention e e' \<Longrightarrow> paced ck e e'"
  by (simp add: paced_def put_outcome_def)

lemma delete_outcome_paced: "delete_outcome env P A key e e' \<Longrightarrow> paced ck e e'"
  by (simp add: paced_def delete_outcome_def)

lemma reads_only_paced: "reads_only e e' \<Longrightarrow> paced ck e e'"
  using reads_onlyD [of e e'] by (simp add: paced_def)

definition step_effect ::
  "engine_env \<Rightarrow> bytes set \<Rightarrow> (chunk_ref art_node \<Rightarrow> bool) \<Rightarrow> u8 set \<Rightarrow> clock \<times> engine_op \<Rightarrow> engine \<Rightarrow> engine \<Rightarrow> bool" where
  "step_effect env U P A x e e' \<longleftrightarrow> (case x of (ck, op) \<Rightarrow> paced ck e e' \<and> (case op of
     PutOp key data dtype shape attrs retain \<Rightarrow>
       put_outcome env U P A ck key data dtype shape attrs (parse_retention retain) e e'
   | DeleteOp key \<Rightarrow> delete_outcome env P A key e e'
   | _ \<Rightarrow> grows e e' \<and> same_index e e'))"

inductive history_run ::
  "engine_env \<Rightarrow> bytes set \<Rightarrow> (chunk_ref art_node \<Rightarrow> bool) \<Rightarrow> u8 set \<Rightarrow> (clock \<times> engine_op) list \<Rightarrow> engine \<Rightarrow> engine \<Rightarrow> bool"
  for env U P A where
  run_done: "history_run env U P A [] e e"
| run_step: "step_effect env U P A x e e1 \<Longrightarrow> history_run env U P A xs e1 e2 \<Longrightarrow> history_run env U P A (x # xs) e e2"

inductive_cases history_runE: "history_run env U P A ops e e'"

lemma history_run_append:
  "history_run env U P A xs e e1 \<Longrightarrow> history_run env U P A ys e1 e2 \<Longrightarrow> history_run env U P A (xs @ ys) e e2"
  by (induction rule: history_run.induct) (auto intro: history_run.intros)

lemma delete_outcome_grows: "io_inv (en_io e) \<Longrightarrow> delete_outcome env P A key e e' \<Longrightarrow> grows e e'"
  by (simp add: grows_def delete_outcome_def)

text \<open>Every operation extends the archive and keeps the engine able to work.\<close>

lemma step_effect_grows: "io_inv (en_io e) \<Longrightarrow> step_effect env U P A x e e' \<Longrightarrow> grows e e'"
  by (cases x; cases "snd x") (auto simp: step_effect_def put_outcome_def delete_outcome_grows)

lemma step_effect_shards: "shards_ok P A (en_shards e) \<Longrightarrow> step_effect env U P A x e e' \<Longrightarrow> shards_ok P A (en_shards e')"
  by (cases x; cases "snd x") (auto simp: step_effect_def put_outcome_def delete_outcome_def same_index_shards)

lemma step_effect_stored: "step_effect env U P A x e e' \<Longrightarrow> stored (en_content_store e) h \<Longrightarrow> stored (en_content_store e') h"
  by (cases x; cases "snd x")
    (auto simp: step_effect_def put_outcome_def put_appends_def delete_outcome_def same_index_def)

lemma history_run_grows:
  "history_run env U P A ops e e' \<Longrightarrow> io_inv (en_io e) \<Longrightarrow> grows e e'"
proof (induction rule: history_run.induct)
  case (run_step x e e1 xs e2)
  then have "grows e e1" by (simp add: step_effect_grows)
  then show ?case using run_step.IH grows_trans by (auto simp: grows_def)
qed (rule grows_refl)

lemma history_run_stored:
  "history_run env U P A ops e e' \<Longrightarrow> stored (en_content_store e) h \<Longrightarrow> stored (en_content_store e') h"
  by (induction rule: history_run.induct) (auto dest: step_effect_stored)

lemma history_run_table_length:
  "history_run env U P A ops e e' \<Longrightarrow>
     length (toc_entries (en_master_toc e')) \<le> length (toc_entries (en_master_toc e)) + length ops"
proof (induction rule: history_run.induct)
  case (run_step x e e1 xs e2)
  have "length (toc_entries (en_master_toc e1)) \<le> Suc (length (toc_entries (en_master_toc e)))"
    using run_step.hyps(1) by (cases x; cases "snd x")
      (auto simp: step_effect_def put_outcome_def delete_outcome_def same_index_def)
  then show ?case using run_step.IH by simp
qed simp

text \<open>The operations have these effects.\<close>

lemma reads_only_grows: "reads_only e e' \<Longrightarrow> grows e e' \<and> same_index e e'"
  using reads_onlyD [of e e'] by (auto simp: grows_def same_index_def)

lemma settled_io:
  assumes "settled ck e e'" "contents io = contents (en_io e')" "mb_file io = contents (en_io e')"
  shows "settled ck e (e'\<lparr>en_io := io\<rparr>)"
proof -
  have "same_index em (e'\<lparr>en_io := io\<rparr>) = same_index em e'" for em by (simp add: same_index_def)
  then have "checkpointed e e' \<Longrightarrow> checkpointed e (e'\<lparr>en_io := io\<rparr>)" using assms(2,3) by (simp add: checkpointed_def)
  moreover have "accounted e (e'\<lparr>en_io := io\<rparr>) = accounted e e'" using assms(2) by (simp add: accounted_def)
  ultimately show ?thesis using assms(1) by (auto simp: settled_def)
qed

lemma flush_effect:
  assumes w: "writable env e"
  shows "\<exists>e' r. engine_flush env ck e = Some (Inr (), e') \<and> grows e e' \<and> same_index e e' \<and> settled ck e e' \<and>
    r = checkpoint_footer (ev_xxh64 env) (en_shards e) (Toc_serialize (en_master_toc e)) (length (contents (en_io e))) False \<and>
    mb_file (en_io e') = contents (en_io e') \<and>
    contents (en_io e') = contents (en_io e) @ checkpoint_block (Toc_serialize (en_master_toc e)) (Footer_serialize r)"
proof -
  obtain r e1 where e1: "run_checkpoint env ck False e = Some (Inr r, e1)" "grows e e1" "same_index e e1"
    "r = checkpoint_footer (ev_xxh64 env) (en_shards e) (Toc_serialize (en_master_toc e)) (length (contents (en_io e))) False"
    "contents (en_io e1) = contents (en_io e) @ checkpoint_block (Toc_serialize (en_master_toc e)) (Footer_serialize r)"
    using run_checkpoint_spec [OF w, of ck False] unfolding same_index_def by blast
  obtain rs io where s: "io_sync (en_io e1) = (rs, io)" by fastforce
  have "io_inv (en_io e1)" using e1(2) by (simp add: grows_def)
  note ss = sync_spec [OF this, unfolded s fst_conv snd_conv]
  let ?e2 = "e1\<lparr>en_io := io\<rparr>"
  have "engine_flush env ck e = Some (Inr (), ?e2)"
    by (simp add: engine_flush_def engine_checkpoint_def bindS_def e1(1) ioS_def s ss(1))
  moreover have "grows e ?e2" "same_index e ?e2"
    using e1(2,3) ss by (simp_all add: grows_def same_index_def)
  moreover have "settled ck e ?e2"
    using run_checkpoint_settled [OF w grows_refl refl e1(1), of ck] w ss(2,4) settled_io by (simp add: writable_def)
  ultimately show ?thesis using e1(4,5) ss(2,4) by fastforce
qed

context engine_index
begin

lemma engine_step_effect:
  assumes w: "writable env e" and sh: "shards_ok P A (en_shards e)" and "inj_on (ev_hash128 env) U"
    and a: "op_admissible env U K A op" and "\<not> is_delete op"
  shows "\<exists>e'. engine_step env (ck, op) e = Some (Inr (), e') \<and> step_effect env U P A (ck, op) e e'"
proof (cases op)
  case (PutOp key data dtype shape attrs retain)
  have "cut_into env U data" "set key \<subseteq> A" using a PutOp by (simp_all add: op_admissible_def)
  then obtain e' where "engine_put_with_retention env ck key data dtype shape attrs retain e = Some (Inr (), e')"
    "put_outcome env U P A ck key data dtype shape attrs (parse_retention retain) e e'"
    using put_spec [OF w sh assms(3)] by blast
  then show ?thesis using PutOp put_outcome_paced by (simp add: step_effect_def)
next
  case (GetOp key)
  have "io_inv (en_io e)" using w by (simp add: writable_def)
  then obtain r e' where "engine_get env key e = Some (r, e')" "reads_only e e'" using engine_get_eq by blast
  then show ?thesis using GetOp reads_only_grows reads_only_paced by (auto simp: step_effect_def)
next
  case FlushOp
  obtain e' where "engine_flush env ck e = Some (Inr (), e')" "grows e e'" "same_index e e'" "settled ck e e'"
    using flush_effect [OF w, of ck] by blast
  then show ?thesis using FlushOp by (auto simp: step_effect_def paced_def)
qed (use assms(5) in \<open>simp add: is_delete_def\<close>)

end

context engine_index_del
begin

lemma engine_step_effect_del:
  assumes "writable env e" "shards_ok P A (en_shards e)" "inj_on (ev_hash128 env) U" "op_admissible env U K A op"
  shows "\<exists>e'. engine_step env (ck, op) e = Some (Inr (), e') \<and> step_effect env U P A (ck, op) e e'"
proof (cases op)
  case (DeleteOp key)
  then show ?thesis using delete_spec [OF assms(1,2), of key] delete_outcome_paced by (fastforce simp: step_effect_def)
qed (use engine_step_effect [OF assms] in \<open>simp_all add: is_delete_def\<close>)

end

text \<open>The trees fit the history.\<close>

definition history_class :: "(clock \<times> engine_op) list \<Rightarrow> (chunk_ref art_node \<Rightarrow> bool) \<Rightarrow> u8 set \<Rightarrow> bool" where
  "history_class ops P A \<longleftrightarrow> (P = node_shape True \<and> A = UNIV \<and> (\<forall>x \<in> set ops. \<not> is_delete (snd x))) \<or>
     (\<exists>S. P = narrow S \<and> A = alphabet S)"

lemma history_class_subset: "history_class ops P A \<Longrightarrow> set ops' \<subseteq> set ops \<Longrightarrow> history_class ops' P A"
  unfolding history_class_def by blast

lemma history_ok_class:
  "history_ok env U K ops \<Longrightarrow> \<exists>P A. history_class ops P A \<and> (\<forall>x \<in> set ops. op_admissible env U K A (snd x))"
  unfolding history_ok_def history_class_def by blast

lemma history_step:
  assumes "history_class ops P A" "x \<in> set ops" "op_admissible env U K A (snd x)" "inj_on (ev_hash128 env) U"
    and w: "writable env e" and sh: "shards_ok P A (en_shards e)"
  shows "\<exists>e'. engine_step env x e = Some (Inr (), e') \<and> step_effect env U P A x e e'"
proof -
  obtain ck op where x: "x = (ck, op)" by (cases x)
  note a = assms(3) [unfolded x snd_conv]
  from assms(1) consider "P = node_shape True" "A = UNIV" "\<not> is_delete (snd x)" | S where "P = narrow S" "A = alphabet S"
    using assms(2) unfolding history_class_def by blast
  then show ?thesis
  proof cases
    case 1
    show ?thesis unfolding x 1(1,2)
      by (rule any_keys.engine_step_effect [OF w sh [unfolded 1(1,2)] assms(4) a [unfolded 1(2)]])
        (use 1(3) x in simp)
  next
    case 2
    show ?thesis unfolding x 2
      by (rule narrow_keys.engine_step_effect_del [OF w sh [unfolded 2] assms(4) a [unfolded 2(2)]])
  qed
qed

lemma run_history:
  assumes "history_class ops P A" "\<forall>x \<in> set ops. op_admissible env U K A (snd x)" "inj_on (ev_hash128 env) U"
    and "writable env e" "shards_ok P A (en_shards e)"
  shows "\<exists>e'. run_ops env ops e = Some (Inr (), e') \<and> history_run env U P A ops e e'"
  using assms(1,2,4,5)
proof (induction ops arbitrary: e)
  case Nil
  then show ?case by (auto simp: okS_def intro: run_done)
next
  case (Cons x ops)
  obtain e1 where e1: "engine_step env x e = Some (Inr (), e1)" "step_effect env U P A x e e1"
    using history_step [OF Cons.prems(1), of x env U K e] Cons.prems assms(3) by auto
  have "grows e e1" using e1(2) Cons.prems(3) by (intro step_effect_grows) (simp_all add: writable_def)
  then have "writable env e1" "shards_ok P A (en_shards e1)"
    using writable_grows [OF Cons.prems(3)] step_effect_shards [OF Cons.prems(4) e1(2)] by simp_all
  moreover have "history_class ops P A" using Cons.prems(1) by (rule history_class_subset) auto
  ultimately obtain e2 where "run_ops env ops e1 = Some (Inr (), e2)" "history_run env U P A ops e1 e2"
    using Cons.IH Cons.prems(2) by auto
  then show ?case using e1 by (auto simp: bindS_def intro: run_step)
qed

section \<open>Refinement\<close>

text \<open>Every effect keeps the invariant and is the abstract step on the visible tensors.\<close>

lemma step_effect_refines:
  assumes e: "engine_inv env U K P A e" and "op_admissible env U K A op" and step: "step_effect env U P A (ck, op) e e'"
  shows "engine_inv env U K P A e'"
    and "length (contents (en_io e')) < 2 ^ 64 \<Longrightarrow> engine_abs env e' = abs_step op (engine_abs env e)"
proof -
  have "engine_inv env U K P A e' \<and>
    (length (contents (en_io e')) < 2 ^ 64 \<longrightarrow> engine_abs env e' = abs_step op (engine_abs env e))"
  proof (cases op)
    case (PutOp key data dtype shape attrs retain)
    then have "key \<in> K" "put_outcome env U P A ck key data dtype shape attrs (parse_retention retain) e e'"
      using assms(2,3) by (simp_all add: op_admissible_def step_effect_def)
    then show ?thesis using put_outcome_inv [OF e] PutOp by (simp add: abs_step_def)
  next
    case (DeleteOp key)
    then have "delete_outcome env P A key e e'" using step by (simp add: step_effect_def)
    then show ?thesis using delete_outcome_inv [OF e] DeleteOp by (simp add: abs_step_def)
  qed (use engine_inv_same_index [OF e] step in \<open>simp_all add: abs_step_def step_effect_def\<close>)
  then show "engine_inv env U K P A e'"
    and "length (contents (en_io e')) < 2 ^ 64 \<Longrightarrow> engine_abs env e' = abs_step op (engine_abs env e)" by simp_all
qed

lemma history_refines:
  assumes "history_run env U P A ops e e'" and "engine_inv env U K P A e"
    and "\<forall>x \<in> set ops. op_admissible env U K A (snd x)"
  shows "engine_inv env U K P A e' \<and> (length (contents (en_io e')) < 2 ^ 64 \<longrightarrow>
    (\<forall>key. engine_abs env e' key = last_write (history ops) key (engine_abs env e key)))"
proof -
  have "engine_inv env U K P A e' \<and> (length (contents (en_io e')) < 2 ^ 64 \<longrightarrow>
    engine_abs env e' = fold (abs_step \<circ> snd) ops (engine_abs env e))"
    using assms
  proof (induction rule: history_run.induct)
    case (run_step x e e1 xs e2)
    obtain ck op where x: "x = (ck, op)" by (cases x)
    note s = step_effect_refines [OF run_step.prems(1) _ run_step.hyps(1) [unfolded x]]
    have s: "engine_inv env U K P A e1"
      "length (contents (en_io e1)) < 2 ^ 64 \<Longrightarrow> engine_abs env e1 = abs_step op (engine_abs env e)"
      using s run_step.prems(2) x by simp_all
    have "grows e1 e2" using history_run_grows [OF run_step.hyps(2)] s(1) by (simp add: engine_inv_def writable_def)
    then have len: "length (contents (en_io e2)) < 2 ^ 64 \<Longrightarrow> length (contents (en_io e1)) < 2 ^ 64"
      by (rule engine_inv_grows_length)
    have IH: "engine_inv env U K P A e2 \<and> (length (contents (en_io e2)) < 2 ^ 64 \<longrightarrow>
        engine_abs env e2 = fold (abs_step \<circ> snd) xs (engine_abs env e1))"
      using run_step.IH [OF s(1)] run_step.prems(2) by (simp add: comp_def)
    show ?case using IH s(2) len by (simp add: x comp_def)
  qed simp
  then show ?thesis by (simp add: abs_steps)
qed

lemma created_history:
  assumes "env_ok env" and "engine_create_with_retention ck existing locked sc retention = Inr e0"
    and "history_ok env U K ops"
  shows "\<exists>e P A. run_ops env ops e0 = Some (Inr (), e) \<and> history_class ops P A \<and>
    (\<forall>x \<in> set ops. op_admissible env U K A (snd x)) \<and> history_run env U P A ops e0 e \<and> engine_inv env U K P A e \<and>
    (length (contents (en_io e)) < 2 ^ 64 \<longrightarrow> (\<forall>key. engine_abs env e key = last_write (history ops) key None))"
proof -
  note c = engine_create_spec [OF assms(2,1)]
  obtain P A where pa: "history_class ops P A" "\<forall>x \<in> set ops. op_admissible env U K A (snd x)"
    using history_ok_class [OF assms(3)] by blast
  have inj: "inj_on (ev_hash128 env) U" using assms(3) by (simp add: history_ok_def)
  have inv: "engine_inv env U K P A e0" by (rule c(1))
  obtain e where e: "run_ops env ops e0 = Some (Inr (), e)" "history_run env U P A ops e0 e"
    using run_history [OF pa inj] inv unfolding engine_inv_def by blast
  show ?thesis using e pa history_refines [OF e(2) inv pa(2)] unfolding c(2) by blast
qed

lemma created_readable:
  assumes "env_ok env" and "engine_create_with_retention ck existing locked sc retention = Inr e0"
    and "history_ok env U K ops" and "length ops < 2 ^ 32"
  shows "\<exists>e. run_ops env ops e0 = Some (Inr (), e) \<and>
    (length (contents (en_io e)) < 2 ^ 64 \<longrightarrow>
       readable env K e \<and> engine_abs env e = (\<lambda>key. last_write (history ops) key None))"
proof -
  obtain e P A where e: "run_ops env ops e0 = Some (Inr (), e)" "engine_inv env U K P A e"
    "length (contents (en_io e)) < 2 ^ 64 \<longrightarrow> (\<forall>key. engine_abs env e key = last_write (history ops) key None)"
    "history_run env U P A ops e0 e"
    using created_history [OF assms(1-3)] by blast
  have "in_bounds e" if "length (contents (en_io e)) < 2 ^ 64"
    using that history_run_table_length [OF e(4)] assms(4) engine_create_spec(3) [OF assms(2,1)] by (simp add: in_bounds_def)
  moreover have "inj_on (\<lambda>k. ev_xxh64 env k 0) K" using assms(3) by (simp add: history_ok_def)
  ultimately show ?thesis using e(1,3) engine_inv_readable [OF e(2)] by auto
qed

text \<open>
  C1: the engine refines a map from keys to tensors. On a newly created archive any history
  of puts (with any retention), reads, flushes and deletions, however the puts deduplicate
  and whenever checkpoints are triggered, runs without an error or a panic; afterwards a get
  of any key answers exactly the tensor of the key's last put, or nothing if the key was
  deleted since or never stored, and its attributes are those of that put. Hypotheses: the
  codecs invert each other, the content hash does not collide on the segments and the key
  hash not on the keys, the archive stays within 64-bit offsets, the history has fewer than 2^32
  calls, and where the history deletes, its keys use at most sixteen different bytes.
\<close>

theorem engine_refines_map:
  assumes "env_ok env" and "engine_create_with_retention ck existing locked sc retention = Inr e0"
    and "history_ok env U K ops" and "length ops < 2 ^ 32"
  shows "\<exists>e. run_ops env ops e0 = Some (Inr (), e) \<and>
    (length (contents (en_io e)) < 2 ^ 64 \<longrightarrow> (\<forall>key \<in> K.
       \<exists>e'. engine_get env key e = Some (Inr (map_option fst (last_write (history ops) key None)), e') \<and>
         engine_get_attrs env key e =
           (case last_write (history ops) key None of
              None \<Rightarrow> Inl (KeyNotFound key) | Some (_, attrs) \<Rightarrow> Inr (attrs_map attrs))))"
proof -
  obtain e where e: "run_ops env ops e0 = Some (Inr (), e)"
    and r: "length (contents (en_io e)) < 2 ^ 64 \<Longrightarrow> readable env K e"
    and a: "length (contents (en_io e)) < 2 ^ 64 \<Longrightarrow> engine_abs env e = (\<lambda>key. last_write (history ops) key None)"
    using created_readable [OF assms] by blast
  show ?thesis
  proof (rule exI [of _ e], intro conjI impI ballI)
    fix key assume l: "length (contents (en_io e)) < 2 ^ 64" and k: "key \<in> K"
    show "\<exists>e'. engine_get env key e = Some (Inr (map_option fst (last_write (history ops) key None)), e') \<and>
        engine_get_attrs env key e =
          (case last_write (history ops) key None of
             None \<Rightarrow> Inl (KeyNotFound key) | Some (_, attrs) \<Rightarrow> Inr (attrs_map attrs))"
      using engine_get_readable [OF r [OF l] k] engine_get_attrs_readable [OF r [OF l] k] by (auto simp: a [OF l])
  qed (rule e)
qed

text \<open>An environment for examples: codecs that copy, and hashes that are the sum of the bytes.\<close>

definition example_env :: engine_env where
  "example_env = \<lparr>ev_lib = identity_lib\<lparr>cl_xxh64 := (\<lambda>d s. s + (\<Sum>b\<leftarrow>d. ucast b))\<rparr>,
     ev_hash128 = (\<lambda>d. \<Sum>b\<leftarrow>d. ucast b), ev_crc32 = (\<lambda>d. of_nat (length d))\<rparr>"

definition example_clock :: clock where
  "example_clock = \<lparr>ck_now = 0, ck_secs = 0\<rparr>"

lemma example_env_ok: "env_ok example_env"
  using identity_lib_ok by (simp add: env_ok_def example_env_def codec_lib_ok_def identity_lib_def)

lemma toc_entry_length:
  "length (toc_entry_bytes e) = 19 + length (te_key e) + 4 * length (te_shape e) +
     length (Attrs_serialize (entry_attrs (te_attrs e))) + 14 * length (te_chunk_refs e)"
proof -
  have "length (concat (map write_u32 xs)) = 4 * length xs" for xs by (induction xs) simp_all
  moreover have "length (concat (map chunk_ref_bytes xs)) = 14 * length xs" for xs
    by (induction xs) (simp_all add: chunk_ref_bytes_def)
  ultimately show ?thesis by (simp add: toc_entry_bytes_def Let_def)
qed

lemma checkpoint_block_length:
  "is_checkpoint_of t block \<Longrightarrow> length block \<le> length (Toc_serialize t) + 24 + 4096"
  by (auto simp: is_checkpoint_of_def checkpoint_block_def Let_def resize0_def FOOTER_SIZE_def)

lemma header_block_bound: "length (header_block (FileHeader_new n DEFAULT_CHUNK_ALIGN 2)) \<le> 4144"
proof -
  let ?h = "FileHeader_new n DEFAULT_CHUNK_ALIGN 2"
  obtain k where "header_block ?h = FileHeader_serialize ?h @ replicate k 0" "k \<le> unat DEFAULT_CHUNK_ALIGN"
    using pad_to_align_spec [of "FileHeader_serialize ?h" DEFAULT_CHUNK_ALIGN]
    by (auto simp: header_block_def FileHeader_new_def split: if_splits)
  then show ?thesis by (simp add: FileHeader_new_def HEADER_SIZE_def DEFAULT_CHUNK_ALIGN_def)
qed

lemma example_created:
  "\<exists>e. engine_create example_clock None False sc = Inr e \<and> length (contents (en_io e)) < 2 ^ 13"
proof -
  obtain e where e: "engine_create example_clock None False sc = Inr e"
    by (cases "engine_create example_clock None False sc")
      (simp_all add: engine_create_def engine_create_with_retention_def detect_best_tier_def mmap_open_or_create_def
        io_write_at_def Let_def)
  note c = engine_create_spec(4,5) [OF e [unfolded engine_create_def] example_env_ok]
  have "length (header_block (en_header e)) \<le> 4144" using header_block_bound c(2) by auto
  then have "length (contents (en_io e)) < 2 ^ 13" using c(1) by (simp add: file_write_def)
  then show ?thesis using e by blast
qed

lemma example_put:
  assumes "[1] \<in> K"
  shows "\<exists>e0 e. engine_create example_clock None False sc = Inr e0 \<and>
    engine_put_with_retention example_env example_clock [1] [7, 8] UInt8 [2] [] retain e0 = Some (Inr (), e) \<and>
    engine_inv example_env {[7, 8]} K (node_shape True) UNIV e \<and> grows e0 e \<and>
    toc_entries (en_master_toc e) \<noteq> [] \<and> te_chunk_refs (last (toc_entries (en_master_toc e))) \<noteq> [] \<and>
    length (contents (en_io e)) < 2 ^ 15 \<and> length (Toc_serialize (en_master_toc e)) < 2 ^ 13"
proof -
  obtain e0 where e0: "engine_create example_clock None False sc = Inr e0" "length (contents (en_io e0)) < 2 ^ 13"
    using example_created by blast
  note c = engine_create_spec [OF e0(1) [unfolded engine_create_def] example_env_ok]
  have inv: "engine_inv example_env {[7, 8]} K (node_shape True) UNIV e0" by (rule c(1))
  have w: "writable example_env e0" "shards_ok (node_shape True) UNIV (en_shards e0)"
    and inj: "inj_on (ev_hash128 example_env) {[7, 8]}" and cut: "cut_into example_env {[7, 8]} [7, 8]"
    using inv by (simp_all add: engine_inv_def cut_into_small)
  obtain e where e: "engine_put_with_retention example_env example_clock [1] [7, 8] UInt8 [2] [] retain e0 = Some (Inr (), e)"
    and po: "put_outcome example_env {[7, 8]} (node_shape True) UNIV example_clock [1] [7, 8] UInt8 [2] [] (parse_retention retain) e0 e"
    using any_keys.put_spec [OF w inj cut subset_UNIV] by blast
  have h: "fh_chunk_align (en_header e0) = 4096"
    using c(5) by (auto simp: FileHeader_new_def DEFAULT_CHUNK_ALIGN_def)
  obtain refs segs where toc: "en_master_toc e = Toc_add_entry (en_master_toc e0)
      (TocEntry_new (ev_xxh64 example_env) [1] UInt8 [2] [] refs)" "length refs \<le> 1" "concat segs = [7, 8]"
    "length (contents (en_io e)) < 2 ^ 64 \<longrightarrow> store_ok example_env {[7, 8]} (contents (en_io e0)) (en_content_store e0) \<longrightarrow>
       list_all2 (holds example_env (contents (en_io e))) refs segs"
    using po unfolding put_outcome_def by auto
  obtain body tail where b: "contents (en_io e) = contents (en_io e0) @ body @ tail" "length body \<le> 2 * 2 + (84 + 4096) * 1"
    "tail = [] \<or> is_checkpoint_of (en_master_toc e) tail"
    using po h unfolding put_outcome_def put_appends_def by auto
  have "toc_entries (en_master_toc e0) = []" by (rule c(3))
  then have t: "length (Toc_serialize (en_master_toc e)) < 2 ^ 13"
    using toc(2) by (simp add: toc(1) Toc_serialize_def toc_entry_length entry_attrs_def Attrs_serialize_def Attrs_new_def)
  then have "length tail < 2 ^ 14" using b(3) checkpoint_block_length [of "en_master_toc e" tail] by auto
  then have l: "length (contents (en_io e)) < 2 ^ 15" using b(1,2) e0(2) by simp
  then have "list_all2 (holds example_env (contents (en_io e))) refs segs"
    using toc(4) inv e0(2) by (simp add: engine_inv_def)
  then have "refs \<noteq> []" using toc(3) by auto
  then have "toc_entries (en_master_toc e) \<noteq> [] \<and> te_chunk_refs (last (toc_entries (en_master_toc e))) \<noteq> []"
    by (simp add: toc(1))
  moreover have "grows e0 e" using po by (simp add: put_outcome_def)
  ultimately show ?thesis using e0(1) e t l put_outcome_inv(1) [OF inv assms po] by blast
qed

lemma example_history:
  "history_ok example_env {[7, 8]} {[1]} [(example_clock, PutOp [1] [7, 8] UInt8 [2] [] retain)]"
  using cut_into_small [of "[7, 8]" "{[7, 8]}" example_env] by (simp add: history_ok_def is_delete_def op_admissible_def)

theorem engine_refines_map_witness:
  "\<exists>e0 e e'. engine_create example_clock None False (Some 2) = Inr e0 \<and>
     run_ops example_env [(example_clock, PutOp [1] [7, 8] UInt8 [2] [] [])] e0 = Some (Inr (), e) \<and>
     engine_get example_env [1] e = Some (Inr (Some (OwnedTensor_new UInt8 [2] [7, 8])), e')"
proof -
  let ?op = "PutOp [1] [7, 8] UInt8 [2] [] []"
  obtain e0 e where e: "engine_create example_clock None False (Some 2) = Inr e0"
    "engine_put_with_retention example_env example_clock [1] [7, 8] UInt8 [2] [] [] e0 = Some (Inr (), e)"
    "length (contents (en_io e)) < 2 ^ 15"
    using example_put [of "{[1]}"] by blast
  have "history_ok example_env {[7, 8]} {[1]} [(example_clock, ?op)]" by (rule example_history)
  moreover have "run_ops example_env [(example_clock, ?op)] e0 = Some (Inr (), e)" using e(2) by (simp add: bindS_def okS_def)
  ultimately show ?thesis
    using engine_refines_map [OF example_env_ok e(1) [unfolded engine_create_def], of "{[7, 8]}" "{[1]}" "[(example_clock, ?op)]"]
      e(1,3) by (fastforce simp: history_def)
qed

section \<open>Integrity\<close>

text \<open>
  C6: integrity of the archive. After any history, every place the content store knows holds
  a chunk that decodes to a segment with the content hash it is filed under, and every entry
  of the table, deleted ones included, lists chunks that decode; nothing refers outside the
  archive.
\<close>

theorem archive_integrity:
  assumes "env_ok env" and "engine_create_with_retention ck existing locked sc retention = Inr e0"
    and "history_ok env U K ops"
  shows "\<exists>e. run_ops env ops e0 = Some (Inr (), e) \<and> (length (contents (en_io e)) < 2 ^ 64 \<longrightarrow>
    (\<forall>h ce. cs_lookup (en_content_store e) h = Some ce \<longrightarrow>
       (\<exists>seg. ev_hash128 env seg = h \<and> (\<forall>dtype. chunk_data env (contents (en_io e)) dtype (entry_ref ce) = Inr seg))) \<and>
    (\<forall>entry \<in> set (toc_entries (en_master_toc e)). \<forall>r \<in> set (te_chunk_refs entry).
       unat (cr_chunk_offset r) + unat (cr_chunk_len r) \<le> length (contents (en_io e)) \<and>
       (\<exists>seg. \<forall>dtype. chunk_data env (contents (en_io e)) dtype r = Inr seg)))"
proof -
  obtain e P A where e: "run_ops env ops e0 = Some (Inr (), e)" and inv: "engine_inv env U K P A e"
    using created_history [OF assms] by blast
  let ?c = "contents (en_io e)"
  show ?thesis
  proof (intro exI [of _ e] conjI impI allI ballI)
    assume "length ?c < 2 ^ 64"
    then have s: "store_ok env U ?c (en_content_store e)"
      and t: "\<And>entry. entry \<in> set (toc_entries (en_master_toc e)) \<Longrightarrow> entry_ok env ?c entry"
      using inv by (simp_all add: engine_inv_def)
    show "\<exists>seg. ev_hash128 env seg = h \<and> (\<forall>dtype. chunk_data env ?c dtype (entry_ref ce) = Inr seg)"
      if "cs_lookup (en_content_store e) h = Some ce" for h ce
      using s [unfolded store_ok_def, rule_format, OF cs_lookup_location [OF that]] by (auto simp: entry_ref_place holds_def)
    show "unat (cr_chunk_offset r) + unat (cr_chunk_len r) \<le> length ?c"
      and "\<exists>seg. \<forall>dtype. chunk_data env ?c dtype r = Inr seg"
      if "entry \<in> set (toc_entries (en_master_toc e))" "r \<in> set (te_chunk_refs entry)" for entry r
      using entry_ok_holds [OF t [OF that(1)] that(2)] by (auto simp: holds_def)
  qed (rule e)
qed

theorem archive_integrity_witness:
  "\<exists>e0 e seg. engine_create example_clock None False (Some 2) = Inr e0 \<and>
     run_ops example_env [(example_clock, PutOp [1] [7, 8] UInt8 [2] [] [])] e0 = Some (Inr (), e) \<and>
     toc_entries (en_master_toc e) \<noteq> [] \<and> te_chunk_refs (last (toc_entries (en_master_toc e))) \<noteq> [] \<and>
     chunk_data example_env (contents (en_io e)) UInt8 (hd (te_chunk_refs (last (toc_entries (en_master_toc e))))) = Inr seg"
proof -
  let ?op = "PutOp [1] [7, 8] UInt8 [2] [] []"
  obtain e0 e where e: "engine_create example_clock None False (Some 2) = Inr e0"
    "engine_put_with_retention example_env example_clock [1] [7, 8] UInt8 [2] [] [] e0 = Some (Inr (), e)"
    "length (contents (en_io e)) < 2 ^ 15" "te_chunk_refs (last (toc_entries (en_master_toc e))) \<noteq> []"
    "toc_entries (en_master_toc e) \<noteq> []"
    using example_put [of "{[1]}"] by blast
  have "history_ok example_env {[7, 8]} {[1]} [(example_clock, ?op)]" by (rule example_history)
  moreover have r: "run_ops example_env [(example_clock, ?op)] e0 = Some (Inr (), e)" using e(2) by (simp add: bindS_def okS_def)
  ultimately have "\<forall>entry \<in> set (toc_entries (en_master_toc e)). \<forall>r \<in> set (te_chunk_refs entry).
      \<exists>seg. \<forall>dtype. chunk_data example_env (contents (en_io e)) dtype r = Inr seg"
    using archive_integrity [OF example_env_ok e(1) [unfolded engine_create_def], of "{[7, 8]}" "{[1]}" "[(example_clock, ?op)]"] e(3)
    by auto
  then show ?thesis using e r by (meson last_in_set list.set_sel(1))
qed

section \<open>Deduplication\<close>

lemma run_ops_append: "run_ops env (xs @ ys) = bindS (run_ops env xs) (\<lambda>_. run_ops env ys)"
proof (induction xs)
  case (Cons x xs)
  then show ?case by (intro ext) (auto simp: bindS_def split: option.split sum.split prod.split)
qed (auto simp: fun_eq_iff bindS_def okS_def)

lemma history_ok_split:
  "history_ok env U K (xs @ ys) \<Longrightarrow> history_ok env U K xs \<and> history_ok env U K ys"
  unfolding history_ok_def by auto

text \<open>The segments of a block are in the content store after a put of it.\<close>

definition block_stored :: "engine_env \<Rightarrow> bytes \<Rightarrow> engine \<Rightarrow> bool" where
  "block_stored env data e \<longleftrightarrow> (case cdc_chunk (ev_hash128 env) data CdcConfig_default of
     Some segs \<Rightarrow> \<forall>seg \<in> set segs. stored (en_content_store e) (sg_content_hash seg) | None \<Rightarrow> True)"

lemma put_outcome_stored: "put_outcome env U P A ck key data dtype shape attrs retention e e' \<Longrightarrow> block_stored env data e'"
  unfolding put_outcome_def put_appends_def block_stored_def by auto

lemma put_stored_appends:
  "put_outcome env U P A ck key data dtype shape attrs retention e e' \<Longrightarrow> block_stored env data e \<Longrightarrow>
     \<exists>tail. contents (en_io e') = contents (en_io e) @ tail \<and> (tail = [] \<or> is_checkpoint_of (en_master_toc e') tail)"
  unfolding put_outcome_def put_appends_def block_stored_def by auto

text \<open>
  C7: deduplication. Storing a block of data that an earlier put of the history stored, under
  any key and however many operations lie between, appends no chunk: the archive keeps its
  bytes, or grows by the checkpoint the put may trigger.
\<close>

theorem put_deduplicates:
  assumes "env_ok env" and "engine_create_with_retention ck0 existing locked sc retention = Inr e0"
    and "history_ok env U K (ops @ [(ck, PutOp key data dtype shape attrs retain)])"
    and "(ck1, PutOp key1 data dtype1 shape1 attrs1 retain1) \<in> set ops"
  shows "\<exists>e1 e2 tail. run_ops env ops e0 = Some (Inr (), e1) \<and>
    engine_put_with_retention env ck key data dtype shape attrs retain e1 = Some (Inr (), e2) \<and>
    contents (en_io e2) = contents (en_io e1) @ tail \<and> (tail = [] \<or> is_checkpoint_of (en_master_toc e2) tail)"
proof -
  let ?put = "(ck, PutOp key data dtype shape attrs retain)"
  let ?put1 = "(ck1, PutOp key1 data dtype1 shape1 attrs1 retain1)"
  let ?all = "ops @ [?put]"
  obtain P A where pa: "history_class ?all P A" "\<forall>x \<in> set ?all. op_admissible env U K A (snd x)"
    using history_ok_class [OF assms(3)] by blast
  have inj: "inj_on (ev_hash128 env) U" using assms(3) by (simp add: history_ok_def)
  note inv0 = engine_create_spec(1) [OF assms(2,1), of U K P A]
  have cl: "history_class ops P A" "history_class [?put] P A"
    using pa(1) by (auto intro: history_class_subset)
  obtain e1 where e1: "run_ops env ops e0 = Some (Inr (), e1)" "history_run env U P A ops e0 e1"
    using run_history [OF cl(1) _ inj, of K e0] pa(2) inv0 unfolding engine_inv_def by auto
  have inv1: "engine_inv env U K P A e1" using history_refines [OF e1(2) inv0] pa(2) by auto
  have "block_stored env data e1" using e1(2) assms(4)
  proof (induction rule: history_run.induct)
    case (run_step x e e1 xs e2)
    show ?case
    proof (cases "x = ?put1")
      case True
      then have "block_stored env data e1" using run_step.hyps(1) put_outcome_stored by (auto simp: step_effect_def)
      then show ?thesis using history_run_stored [OF run_step.hyps(2)] by (auto simp: block_stored_def split: option.splits)
    next
      case False
      then show ?thesis using run_step by auto
    qed
  qed simp
  moreover obtain e2 where "engine_step env ?put e1 = Some (Inr (), e2)" "step_effect env U P A ?put e1 e2"
    using history_step [OF cl(2), of ?put env U K e1] pa(2) inj inv1 unfolding engine_inv_def by auto
  ultimately show ?thesis using e1(1) put_stored_appends by (auto simp: step_effect_def)
qed

theorem put_deduplicates_witness:
  "\<exists>e0 e1 e2 tail. engine_create example_clock None False (Some 2) = Inr e0 \<and>
     run_ops example_env [(example_clock, PutOp [1] [7, 8] UInt8 [2] [] [])] e0 = Some (Inr (), e1) \<and>
     engine_put_with_retention example_env example_clock [3] [7, 8] Int8 [2] [] [] e1 = Some (Inr (), e2) \<and>
     contents (en_io e2) = contents (en_io e1) @ tail \<and> (tail = [] \<or> is_checkpoint_of (en_master_toc e2) tail)"
proof -
  let ?op = "PutOp [1] [7, 8] UInt8 [2] [] []"
  obtain e0 where e0: "engine_create example_clock None False (Some 2) = Inr e0" using example_created by blast
  have cut: "cut_into example_env {[7, 8]} [7, 8]" by (rule cut_into_small) simp_all
  have inj: "inj_on (\<lambda>k. ev_xxh64 example_env k 0) {[1], [3]}" by (simp add: example_env_def)
  have "history_ok example_env {[7, 8]} {[1], [3]} ([(example_clock, ?op)] @ [(example_clock, PutOp [3] [7, 8] Int8 [2] [] [])])"
    using cut inj by (simp add: history_ok_def is_delete_def op_admissible_def)
  from put_deduplicates [OF example_env_ok e0 [unfolded engine_create_def] this, of example_clock "[1]" UInt8 "[2]" "[]" "[]"]
  show ?thesis using e0 by auto
qed

end
