(* ===== verification/Engine_Listing.thy ===== *)
theory Engine_Listing
  imports Engine_History
begin

text \<open>
  Reads of many keys at once: the list of keys, prefix reads and batch reads agree with the
  map that a history leaves, as single reads do.
\<close>

section \<open>Listing keys\<close>

lemma keys_scan_spec:
  "k \<in> set (keys_scan seen es) \<longleftrightarrow>
     k \<noteq> [] \<and> k \<notin> seen \<and> (\<exists>t. find (\<lambda>t. te_key t = k) es = Some t \<and> te_tombstone t = 0)"
proof (induction es arbitrary: seen)
  case (Cons a es)
  then show ?case by (auto split: if_splits)
qed simp

lemma keys_scan_distinct: "distinct (keys_scan seen es) \<and> set (keys_scan seen es) \<inter> seen = {}"
proof (induction es arbitrary: seen)
  case (Cons a es)
  from Cons [of "insert (te_key a) seen"] Cons [of seen] show ?case by auto
qed simp

lemma live_find:
  "live es k \<noteq> None \<longleftrightarrow> (\<exists>t. find (\<lambda>t. te_key t = k) (rev es) = Some t \<and> te_tombstone t = 0)"
  by (cases "find (\<lambda>t. te_key t = k) (rev es)") (simp_all add: live_def latest_def)

lemma engine_keys_spec:
  "distinct (engine_keys e) \<and> set (engine_keys e) = {k. k \<noteq> [] \<and> live (toc_entries (en_master_toc e)) k \<noteq> None}"
  using keys_scan_distinct [of "{}" "rev (toc_entries (en_master_toc e))"]
  by (simp add: engine_keys_def set_eq_iff keys_scan_spec live_find del: not_None_eq)

lemma engine_abs_live:
  assumes "readable env K e"
  shows "engine_abs env e key = None \<longleftrightarrow> live (toc_entries (en_master_toc e)) key = None"
proof (cases "live (toc_entries (en_master_toc e)) key")
  case (Some entry)
  then show ?thesis using live_segments [OF assms Some] engine_abs_entry [OF Some] by fastforce
qed (simp add: engine_abs_def)

section \<open>Reading many keys\<close>

lemma readable_reads_only: "reads_only e e' \<Longrightarrow> readable env K e \<Longrightarrow> readable env K e'"
  using reads_onlyD [of e e'] by (simp add: readable_def)

lemma engine_abs_reads_only: "reads_only e e' \<Longrightarrow> engine_abs env e' = engine_abs env e"
  by (drule reads_onlyD) (simp add: engine_abs_def fun_eq_iff cong: option.case_cong)

text \<open>The tensors of a list of keys, for those that have one.\<close>

definition present :: "tensor_map \<Rightarrow> bytes list \<Rightarrow> (bytes \<times> owned_tensor) list" where
  "present m keys = map (\<lambda>k. (k, fst (the (m k)))) (filter (\<lambda>k. m k \<noteq> None) keys)"

lemma present_Cons:
  "present m (k # ks) = (case m k of Some (t, _) \<Rightarrow> [(k, t)] | None \<Rightarrow> []) @ present m ks"
  by (auto simp: present_def split: option.split)

lemma get_batch_readable:
  assumes "readable env K e" "set keys \<subseteq> K"
  shows "\<exists>e'. engine_get_batch env keys e = Some (Inr (present (engine_abs env e) keys), e') \<and> reads_only e e'"
  using assms
proof (induction keys arbitrary: e)
  case Nil
  then show ?case using reads_only_refl [of e] by (auto simp: okS_def present_def readable_def)
next
  case (Cons key keys)
  obtain e1 where e1: "engine_get env key e = Some (Inr (map_option fst (engine_abs env e key)), e1)" "reads_only e e1"
    using engine_get_readable [OF Cons.prems(1), of key] Cons.prems(2) by auto
  obtain e2 where e2: "engine_get_batch env keys e1 = Some (Inr (present (engine_abs env e1) keys), e2)" "reads_only e1 e2"
    using Cons.IH [of e1] readable_reads_only [OF e1(2) Cons.prems(1)] Cons.prems(2) by auto
  have "engine_get_batch env (key # keys) e = Some (Inr (present (engine_abs env e) (key # keys)), e2)"
    using e1(1) e2(1) by (simp add: bindS_def okS_def engine_abs_reads_only [OF e1(2)] present_Cons split: option.split)
  then show ?case using reads_only_trans [OF e1(2) e2(2)] by blast
qed

lemma get_entries_readable:
  assumes "readable env K e" "te_key ` set es \<subseteq> K" "distinct (map fst m)"
  shows "\<exists>m' e'. get_entries env es m e = Some (Inr m', e') \<and> reads_only e e' \<and> distinct (map fst m') \<and>
    (\<forall>k. map_of m' k = (if k \<in> te_key ` set es \<and> engine_abs env e k \<noteq> None
                        then map_option fst (engine_abs env e k) else map_of m k))"
  using assms
proof (induction es arbitrary: e m)
  case Nil
  then show ?case using reads_only_refl [of e] by (auto simp: okS_def readable_def)
next
  case (Cons entry es)
  let ?k = "te_key entry"
  let ?m = "case map_option fst (engine_abs env e ?k) of Some t \<Rightarrow> AList.update ?k t m | None \<Rightarrow> m"
  obtain e1 where e1: "engine_get env ?k e = Some (Inr (map_option fst (engine_abs env e ?k)), e1)" "reads_only e e1"
    using engine_get_readable [OF Cons.prems(1), of ?k] Cons.prems(2) by auto
  have d: "distinct (map fst ?m)" using Cons.prems(3) by (auto simp: distinct_update split: option.split)
  obtain m' e2 where e2: "get_entries env es ?m e1 = Some (Inr m', e2)" "reads_only e1 e2" "distinct (map fst m')"
    and m': "\<And>k. map_of m' k = (if k \<in> te_key ` set es \<and> engine_abs env e k \<noteq> None
                        then map_option fst (engine_abs env e k) else map_of ?m k)"
    using Cons.IH [OF readable_reads_only [OF e1(2) Cons.prems(1)] _ d] Cons.prems(2)
    unfolding engine_abs_reads_only [OF e1(2)] by auto
  have "get_entries env (entry # es) m e = Some (Inr m', e2)" using e1(1) e2(1) by (simp add: bindS_def)
  moreover have "map_of m' k = (if k \<in> te_key ` set (entry # es) \<and> engine_abs env e k \<noteq> None
      then map_option fst (engine_abs env e k) else map_of m k)" for k
    by (cases "k = ?k") (auto simp: m' update_conv' split: option.split)
  ultimately show ?case using reads_only_trans [OF e1(2) e2(2)] e2(3) by blast
qed

lemma get_prefix_readable:
  assumes "readable env K e"
  shows "\<exists>m e'. engine_get_prefix env pre e = Some (Inr m, e') \<and> reads_only e e' \<and> distinct (map fst m) \<and>
    (\<forall>k. map_of m k = (if starts_with k pre then map_option fst (engine_abs env e k) else None))"
proof -
  let ?es = "Toc_lookup_prefix (en_master_toc e) pre"
  have mem: "entry \<in> set ?es \<longleftrightarrow> starts_with (te_key entry) pre \<and> live (toc_entries (en_master_toc e)) (te_key entry) = Some entry"
    for entry by (auto simp: Toc_lookup_prefix_def prefix_scan_spec live_def latest_def split: option.splits if_splits)
  then have keys: "k \<in> te_key ` set ?es \<longleftrightarrow> starts_with k pre \<and> engine_abs env e k \<noteq> None" for k
    unfolding engine_abs_live [OF assms] using live_key by (force simp: image_iff)
  have "te_key ` set ?es \<subseteq> K"
  proof
    fix k assume "k \<in> te_key ` set ?es"
    then obtain entry where "entry \<in> set (toc_entries (en_master_toc e))" "te_key entry = k"
      using mem live_key by blast
    then show "k \<in> K" using assms by (auto simp: readable_def)
  qed
  from get_entries_readable [OF assms this, of "[]"] keys show ?thesis
    unfolding engine_get_prefix_def by (fastforce split: if_splits)
qed

section \<open>Agreement\<close>

text \<open>
  C11: reads of many keys agree with the map. After any history, the list of keys names each
  non-empty key that has a tensor once and no other; a batch read answers the requested keys
  that have a tensor, in the order of the request; a prefix read answers, for every key with
  the prefix, the tensor of the map.
\<close>

theorem bulk_reads_agree:
  assumes "env_ok env" and "engine_create_with_retention ck existing locked sc retention = Inr e0"
    and "history_ok env U K ops" and "length ops < 2 ^ 32" and "set keys \<subseteq> K"
  shows "\<exists>e. run_ops env ops e0 = Some (Inr (), e) \<and> (length (contents (en_io e)) < 2 ^ 64 \<longrightarrow>
    distinct (engine_keys e) \<and> set (engine_keys e) = {k. k \<noteq> [] \<and> last_write (history ops) k None \<noteq> None} \<and>
    (\<exists>e'. engine_get_batch env keys e = Some (Inr (present (\<lambda>k. last_write (history ops) k None) keys), e')) \<and>
    (\<exists>m e'. engine_get_prefix env pre e = Some (Inr m, e') \<and> distinct (map fst m) \<and>
       (\<forall>k. map_of m k = (if starts_with k pre then map_option fst (last_write (history ops) k None) else None))))"
proof -
  obtain e where e: "run_ops env ops e0 = Some (Inr (), e)"
    and r: "length (contents (en_io e)) < 2 ^ 64 \<Longrightarrow> readable env K e"
    and a: "length (contents (en_io e)) < 2 ^ 64 \<Longrightarrow> engine_abs env e = (\<lambda>key. last_write (history ops) key None)"
    using created_readable [OF assms(1-4)] by blast
  have k: "distinct (engine_keys e) \<and> set (engine_keys e) = {k. k \<noteq> [] \<and> engine_abs env e k \<noteq> None}"
    if "length (contents (en_io e)) < 2 ^ 64"
    unfolding engine_abs_live [OF r [OF that]] by (rule engine_keys_spec)
  show ?thesis
  proof (rule exI [of _ e], intro conjI impI)
    assume l: "length (contents (en_io e)) < 2 ^ 64"
    note r = r [OF l] and a = a [OF l]
    show "distinct (engine_keys e)" "set (engine_keys e) = {k. k \<noteq> [] \<and> last_write (history ops) k None \<noteq> None}"
      using k [OF l] by (simp_all add: a)
    show "\<exists>e'. engine_get_batch env keys e = Some (Inr (present (\<lambda>k. last_write (history ops) k None) keys), e')"
      using get_batch_readable [OF r assms(5)] unfolding a by blast
    show "\<exists>m e'. engine_get_prefix env pre e = Some (Inr m, e') \<and> distinct (map fst m) \<and>
       (\<forall>k. map_of m k = (if starts_with k pre then map_option fst (last_write (history ops) k None) else None))"
      using get_prefix_readable [OF r, of pre] unfolding a by blast
  qed (rule e)
qed

theorem bulk_reads_agree_witness:
  "\<exists>e0 e e'. engine_create example_clock None False (Some 2) = Inr e0 \<and>
     run_ops example_env [(example_clock, PutOp [1] [7, 8] UInt8 [2] [] [])] e0 = Some (Inr (), e) \<and>
     engine_keys e = [[1]] \<and>
     engine_get_batch example_env [[1]] e = Some (Inr [([1], OwnedTensor_new UInt8 [2] [7, 8])], e')"
proof -
  let ?op = "PutOp [1] [7, 8] UInt8 [2] [] []"
  obtain e0 e where e: "engine_create example_clock None False (Some 2) = Inr e0"
    "engine_put_with_retention example_env example_clock [1] [7, 8] UInt8 [2] [] [] e0 = Some (Inr (), e)"
    "length (contents (en_io e)) < 2 ^ 15"
    using example_put [of "{[1]}"] by blast
  have run: "run_ops example_env [(example_clock, ?op)] e0 = Some (Inr (), e)" using e(2) by (simp add: bindS_def okS_def)
  have map: "last_write (history [(example_clock, ?op)]) k None =
      (if k = [1] then Some (OwnedTensor_new UInt8 [2] [7, 8], []) else None)" for k
    by (simp add: history_def)
  obtain e' where k: "distinct (engine_keys e)" "set (engine_keys e) = {[1]}"
    and b: "engine_get_batch example_env [[1]] e = Some (Inr [([1], OwnedTensor_new UInt8 [2] [7, 8])], e')"
    using bulk_reads_agree [OF example_env_ok e(1) [unfolded engine_create_def] example_history [of "[]"], of "[[1]]" "[]"] run e(3)
    by (auto simp: map present_def)
  have "engine_keys e = [[1]]"
    using k by (cases "engine_keys e") (auto simp: subset_singleton_iff)
  then show ?thesis using e(1) run b by blast
qed

end
