(* ===== verification/Engine_Batch.thy ===== *)
theory Engine_Batch
  imports Engine_History
begin

text \<open>
  A batch put: chunks are prepared for all tensors, coalesced into one buffer, appended at
  once and entered into the table. Seen through the keys it is the sequence of its puts.
\<close>

section \<open>Prepared chunks\<close>

definition chunk_of :: "engine_env \<Rightarrow> bytes set \<Rightarrow> u32 \<Rightarrow> bytes \<Rightarrow> processed_chunk \<Rightarrow> bool" where
  "chunk_of env U align raw ch \<longleftrightarrow> raw \<in> U \<and> length raw < 2 ^ 29 \<and>
     ch = \<lparr>pc_content_hash = ev_hash128 env raw, pc_chunk_bytes = segment_chunk env align raw\<rparr>"

lemma process_segment_chunk:
  assumes "segment_of env U data seg"
  shows "chunk_of env U align (segment_bytes data seg) (process_segment env align data dtype seg)"
  using assms compress_segment_eq [of "segment_bytes data seg" env dtype]
  by (simp add: segment_of_def chunk_of_def process_segment_def Let_def segment_chunk_def)

text \<open>A prepared tensor: its shard and the chunks of its segments in order.\<close>

definition prepared ::
  "engine_env \<Rightarrow> bytes set \<Rightarrow> u16 \<Rightarrow> u32 \<Rightarrow> batch_item \<Rightarrow> processed_tensor \<Rightarrow> bytes list \<Rightarrow> bool" where
  "prepared env U sc align item pt raws \<longleftrightarrow> 
     pt_shard_id pt = shard_for_key (ev_xxh64 env) (fst item) sc \<and> concat raws = fst (snd item) \<and>
     length raws \<le> length (fst (snd item)) div 32768 + 1 \<and> list_all2 (chunk_of env U align) raws (pt_chunks pt)"

lemma process_tensor_prepared:
  assumes "cut_into env U (fst (snd item))"
  shows "\<exists>pt raws. process_tensor env sc align item = Some pt \<and> prepared env U sc align item pt raws"
proof -
  obtain key data dtype shape where item: "item = (key, data, dtype, shape)" by (cases item)
  obtain segs where segs: "cdc_chunk (ev_hash128 env) data CdcConfig_default = Some segs"
    "\<forall>seg \<in> set segs. segment_of env U data seg" "concat (map (segment_bytes data) segs) = data"
    "length segs \<le> length data div 32768 + 1"
    using cut_segments [of env U data] assms item by auto
  then show ?thesis
    using process_segment_chunk [of env U data _ align dtype]
    by (intro exI [of _ "\<lparr>pt_shard_id = shard_for_key (ev_xxh64 env) key sc,
        pt_chunks = map (process_segment env align data dtype) segs\<rparr>"] exI [of _ "map (segment_bytes data) segs"])
      (simp add: item process_tensor_def prepared_def list_all2_conv_all_nth)
qed

lemma process_tensors_prepared:
  assumes "\<forall>item \<in> set items. cut_into env U (fst (snd item))"
  shows "\<exists>pts rawss. those (map (process_tensor env sc align) items) = Some pts \<and>
    length pts = length items \<and> length rawss = length items \<and>
    (\<forall>i < length items. prepared env U sc align (items ! i) (pts ! i) (rawss ! i))"
  using assms
proof (induction items)
  case (Cons item items)
  obtain pt raws where "process_tensor env sc align item = Some pt" "prepared env U sc align item pt raws"
    using process_tensor_prepared [of env U item sc align] Cons.prems by auto
  moreover obtain pts rawss where "those (map (process_tensor env sc align) items) = Some pts"
    "length pts = length items" "length rawss = length items"
    "\<forall>i < length items. prepared env U sc align (items ! i) (pts ! i) (rawss ! i)"
    using Cons by auto
  ultimately show ?case
    by (intro exI [of _ "pt # pts"] exI [of _ "raws # rawss"]) (auto simp: less_Suc_eq_0_disj)
qed simp

section \<open>Coalescing\<close>

text \<open>The chunks of a batch with their positions, in the order the loops visit them.\<close>

type_synonym batch_job = "nat \<times> nat \<times> u16 \<times> processed_chunk"

definition tensor_jobs :: "nat \<times> processed_tensor \<Rightarrow> batch_job list" where
  "tensor_jobs x = (case x of (t, pt) \<Rightarrow> map (\<lambda>(i, ch). (t, i, pt_shard_id pt, ch)) (enumerate 0 (pt_chunks pt)))"

definition batch_jobs :: "processed_tensor list \<Rightarrow> batch_job list" where
  "batch_jobs pts = concat (map tensor_jobs (enumerate 0 pts))"

definition coalesce_job :: "batch_job \<Rightarrow> coalesced \<Rightarrow> coalesced" where
  "coalesce_job x = (case x of (t, i, s, ch) \<Rightarrow> coalesce_chunk t s (i, ch))"

definition position :: "batch_job \<Rightarrow> nat \<times> nat" where
  "position x = (case x of (t, i, s, ch) \<Rightarrow> (t, i))"

lemma coalesce_tensor_jobs: "coalesce_tensor x st = fold coalesce_job (tensor_jobs x) st"
  by (cases x) (simp add: coalesce_tensor_def tensor_jobs_def fold_map comp_def coalesce_job_def split_def)

lemma coalesce_jobs: "fold coalesce_tensor xs st = fold coalesce_job (concat (map tensor_jobs xs)) st"
  by (induction xs arbitrary: st) (simp_all add: coalesce_tensor_jobs)

lemma batch_jobs_mem:
  "(t, i, s, ch) \<in> set (batch_jobs pts) \<longleftrightarrow>
     t < length pts \<and> i < length (pt_chunks (pts ! t)) \<and> s = pt_shard_id (pts ! t) \<and> ch = pt_chunks (pts ! t) ! i"
  by (force simp: batch_jobs_def tensor_jobs_def in_set_enumerate_eq)

lemma tensor_jobs_positions: "map position (tensor_jobs (t, pt)) = map (Pair t) [0..<length (pt_chunks pt)]"
  by (rule nth_equalityI) (simp_all add: tensor_jobs_def position_def nth_enumerate_eq split_def)

lemma batch_jobs_distinct: "distinct (map position (batch_jobs pts))"
proof -
  have "distinct (map position (concat (map tensor_jobs (enumerate n pts))))" for n
  proof (induction pts arbitrary: n)
    case (Cons pt pts)
    let ?rest = "map position (concat (map tensor_jobs (enumerate (Suc n) pts)))"
    have "map position (concat (map tensor_jobs (enumerate n (pt # pts)))) =
        map (Pair n) [0..<length (pt_chunks pt)] @ ?rest" by (simp add: tensor_jobs_positions)
    moreover have "distinct (map (Pair n) [0..<length (pt_chunks pt)])" by (simp add: distinct_map inj_on_def)
    moreover have "fst p \<noteq> n" if "p \<in> set ?rest" for p
      using that by (auto simp: tensor_jobs_def position_def in_set_enumerate_eq)
    moreover have "distinct ?rest" by (rule Cons)
    ultimately show ?case by (simp only: distinct_append) force
  qed simp
  then show ?thesis by (simp add: batch_jobs_def)
qed

text \<open>Slots: updates at different positions commute.\<close>

lemma set_slot_lengths [simp]: "map length (set_slot t i r slots) = map length slots"
  by (cases "t < length slots") (simp_all add: set_slot_def map_update list_update_same_conv not_less list_update_beyond)

lemma set_slot_nth:
  assumes "t < length slots" "i < length (slots ! t)"
  shows "set_slot t i r slots ! t' ! i' = (if (t', i') = (t, i) then Some r else slots ! t' ! i')"
  using assms by (auto simp: set_slot_def nth_list_update)

lemma set_slot_commute:
  assumes "(t, i) \<noteq> (t', i')"
  shows "set_slot t i r (set_slot t' i' r' slots) = set_slot t' i' r' (set_slot t i r slots)"
proof (cases "t = t' \<and> t < length slots")
  case True
  then show ?thesis using assms by (simp add: set_slot_def list_update_swap)
next
  case False
  then show ?thesis by (cases "t = t'") (simp_all add: set_slot_def list_update_swap list_update_beyond not_less)
qed

definition write_ref :: "nat \<Rightarrow> pending_write \<Rightarrow> chunk_ref" where
  "write_ref base pw = \<lparr>cr_shard_id = pw_shard_id pw,
     cr_chunk_offset = of_nat base + of_nat (pw_buffer_offset pw), cr_chunk_len = pw_chunk_len pw\<rparr>"

text \<open>The slots once the pending writes are at \<open>base\<close>.\<close>

definition resolve :: "nat \<Rightarrow> pending_write list \<Rightarrow> chunk_slots \<Rightarrow> chunk_slots" where
  "resolve base pws slots =
     fold (\<lambda>pw. set_slot (pw_tensor_idx pw) (pw_chunk_idx pw) (write_ref base pw)) pws slots"

lemma resolve_snoc [simp]:
  "resolve base (pws @ [pw]) slots =
     set_slot (pw_tensor_idx pw) (pw_chunk_idx pw) (write_ref base pw) (resolve base pws slots)"
  by (simp add: resolve_def)

lemma resolve_lengths [simp]: "map length (resolve base pws slots) = map length slots"
  unfolding resolve_def by (induction pws arbitrary: slots) simp_all

lemma resolve_set_slot:
  assumes "\<forall>pw \<in> set pws. (pw_tensor_idx pw, pw_chunk_idx pw) \<noteq> (t, i)"
  shows "resolve base pws (set_slot t i r slots) = set_slot t i r (resolve base pws slots)"
  using assms unfolding resolve_def
proof (induction pws arbitrary: slots)
  case (Cons pw pws)
  then have "(pw_tensor_idx pw, pw_chunk_idx pw) \<noteq> (t, i)" by simp
  from set_slot_commute [OF this] Cons show ?case by simp
qed simp

lemma in_slots: "map length slots = lens \<Longrightarrow> t < length lens \<Longrightarrow> i < lens ! t \<Longrightarrow> t < length slots \<and> i < length (slots ! t)"
  by auto

lemma commit_writes:
  "fold (commit_write base) pws (slots, e) =
     (resolve base pws slots,
      fold (\<lambda>pw. record_chunk (pw_shard_id pw) (pw_content_hash pw) (cr_chunk_offset (write_ref base pw)) (pw_chunk_len pw))
        pws e)"
  unfolding resolve_def
  by (induction pws arbitrary: slots e) (simp_all add: commit_write_def Let_def write_ref_def)

text \<open>
  What holds while the chunks are coalesced, behind an archive with contents \<open>c\<close>: the index
  is unchanged, and every chunk visited so far resolves to a place that holds its segment.
\<close>

definition coalesced_shape :: "u32 \<Rightarrow> content_store \<Rightarrow> nat list \<Rightarrow> batch_job list \<Rightarrow> coalesced \<Rightarrow> bool" where
  "coalesced_shape align store lens visited st \<longleftrightarrow>
     (\<forall>h. location (cl_store st) h = location store h) \<and> map length (cl_slots st) = lens \<and>
     (\<forall>pw \<in> set (cl_pending st). (pw_tensor_idx pw, pw_chunk_idx pw) \<in> position ` set visited) \<and>
     (align = 4096 \<longrightarrow> 4096 dvd length (cl_buffer st)) \<and> (cl_buffer st = [] \<longrightarrow> cl_pending st = [])"

definition writes_held :: "engine_env \<Rightarrow> bytes set \<Rightarrow> bytes \<Rightarrow> coalesced \<Rightarrow> bool" where
  "writes_held env U c st \<longleftrightarrow> (\<forall>pw \<in> set (cl_pending st). \<exists>raw \<in> U. pw_content_hash pw = ev_hash128 env raw \<and>
     holds env (c @ cl_buffer st) (write_ref (length c) pw) raw)"

definition slots_held :: "engine_env \<Rightarrow> bytes set \<Rightarrow> u32 \<Rightarrow> bytes \<Rightarrow> batch_job list \<Rightarrow> coalesced \<Rightarrow> bool" where
  "slots_held env U align c visited st \<longleftrightarrow> (\<forall>(t, i, s, ch) \<in> set visited.
     \<exists>r. resolve (length c) (cl_pending st) (cl_slots st) ! t ! i = Some r \<and>
       (\<forall>raw. chunk_of env U align raw ch \<longrightarrow> holds env (c @ cl_buffer st) r raw))"

definition coalesced_ok ::
  "engine_env \<Rightarrow> bytes set \<Rightarrow> u32 \<Rightarrow> bytes \<Rightarrow> content_store \<Rightarrow> nat list \<Rightarrow> batch_job list \<Rightarrow> coalesced \<Rightarrow> bool" where
  "coalesced_ok env U align c store lens visited st \<longleftrightarrow> coalesced_shape align store lens visited st \<and>
     (length (c @ cl_buffer st) < 2 ^ 64 \<longrightarrow> store_ok env U c store \<longrightarrow>
        writes_held env U c st \<and> slots_held env U align c visited st)"

lemma coalesced_start:
  "coalesced_ok env U align c store lens []
     \<lparr>cl_buffer = [], cl_pending = [], cl_slots = map (\<lambda>n. replicate n None) lens, cl_store = store\<rparr>"
  by (simp add: coalesced_ok_def coalesced_shape_def writes_held_def slots_held_def comp_def)

text \<open>The slot of the next chunk is filled without touching the others.\<close>

lemma slots_held_snoc:
  assumes "slots_held env U align c visited st" and "(t, i) \<notin> position ` set visited"
    and "t < length (cl_slots st)" "i < length (cl_slots st ! t)"
    and "resolve (length c) (cl_pending st') (cl_slots st') = set_slot t i r (resolve (length c) (cl_pending st) (cl_slots st))"
    and "cl_buffer st' = cl_buffer st @ d"
    and "\<And>raw. chunk_of env U align raw ch \<Longrightarrow> holds env (c @ cl_buffer st') r raw"
  shows "slots_held env U align c (visited @ [(t, i, s, ch)]) st'"
proof -
  let ?slots = "resolve (length c) (cl_pending st) (cl_slots st)"
  have m: "map length ?slots = map length (cl_slots st)" by simp
  have "length ?slots = length (cl_slots st)" "length (?slots ! t) = length (cl_slots st ! t)"
    using arg_cong [OF m, of length] arg_cong [OF m, of "\<lambda>xs. xs ! t"] assms(3)
    by (simp_all del: resolve_lengths)
  then have b: "t < length ?slots" "i < length (?slots ! t)" using assms(3,4) by simp_all
  have "(t', i') \<noteq> (t, i)" if "(t', i', s', ch') \<in> set visited" for t' i' s' ch'
    using that assms(2) by (force simp: position_def)
  moreover have "holds env (c @ cl_buffer st') r' raw" if "holds env (c @ cl_buffer st) r' raw" for r' raw
    using holds_append [OF that, of d] by (simp add: assms(6))
  ultimately show ?thesis
    using assms(1,7) unfolding slots_held_def assms(5) set_slot_nth [OF b] by fastforce
qed

lemma coalesce_hit:
  assumes ok: "coalesced_ok env U align c store lens visited st" and inj: "inj_on (ev_hash128 env) U"
    and new: "(t, i) \<notin> position ` set visited" and bounds: "t < length lens" "i < lens ! t"
    and hit: "cs_lookup (cl_store st) (pc_content_hash ch) = Some ce"
  shows "coalesced_ok env U align c store lens (visited @ [(t, i, s, ch)]) (coalesce_chunk t s (i, ch) st)"
proof -
  let ?st = "coalesce_chunk t s (i, ch) st"
  have st: "?st = st\<lparr>cl_store := snd (cs_add_ref (cl_store st) (pc_content_hash ch)),
      cl_slots := set_slot t i (entry_ref ce) (cl_slots st)\<rparr>" using hit by (simp add: coalesce_chunk_def)
  have sh: "coalesced_shape align store lens visited st" using ok by (simp add: coalesced_ok_def)
  have loc: "location store (pc_content_hash ch) = Some (ce_shard_id ce, ce_chunk_offset ce, ce_chunk_len ce)"
    using cs_lookup_location [OF hit] sh by (simp add: coalesced_shape_def)
  have hold: "holds env (c @ cl_buffer ?st) (entry_ref ce) raw"
    if "store_ok env U c store" "chunk_of env U align raw ch" for raw
  proof -
    note so = that(1)
    obtain x where x: "x \<in> U" "ev_hash128 env x = pc_content_hash ch" "holds env c (entry_ref ce) x"
      using so loc unfolding store_ok_def entry_ref_place by blast
    then have "x = raw" using inj that(2) by (simp add: chunk_of_def inj_on_eq_iff)
    then show ?thesis using x(3) by (simp add: st holds_append)
  qed
  have "resolve (length c) (cl_pending ?st) (cl_slots ?st) =
      set_slot t i (entry_ref ce) (resolve (length c) (cl_pending st) (cl_slots st))"
    using sh new by (auto simp: st coalesced_shape_def intro!: resolve_set_slot)
  moreover have "t < length (cl_slots st)" "i < length (cl_slots st ! t)"
    using in_slots [OF _ bounds, of "cl_slots st"] sh by (simp_all add: coalesced_shape_def)
  ultimately have "slots_held env U align c (visited @ [(t, i, s, ch)]) ?st"
    if "store_ok env U c store" "slots_held env U align c visited st"
    using slots_held_snoc [OF that(2) new, of ?st "entry_ref ce" "[]" ch s] hold [OF that(1)] by (simp add: st)
  moreover have "writes_held env U c ?st = writes_held env U c st" by (simp add: st writes_held_def)
  moreover have "coalesced_shape align store lens (visited @ [(t, i, s, ch)]) ?st"
    using sh by (auto simp: coalesced_shape_def st location_add_ref)
  ultimately show ?thesis using ok by (simp add: coalesced_ok_def st)
qed

lemma coalesce_miss:
  assumes ok: "coalesced_ok env U align c store lens visited st" and env: "env_ok env" "unat align \<le> 2 ^ 21"
    and inj: "inj_on (ev_hash128 env) U" and new: "(t, i) \<notin> position ` set visited" and bounds: "t < length lens" "i < lens ! t"
    and miss: "cs_lookup (cl_store st) (pc_content_hash ch) = None" and ch: "chunk_of env U align raw ch"
  shows "coalesced_ok env U align c store lens (visited @ [(t, i, s, ch)]) (coalesce_chunk t s (i, ch) st)"
proof -
  let ?st = "coalesce_chunk t s (i, ch) st" and ?b = "segment_chunk env align raw"
  let ?pw = "\<lparr>pw_tensor_idx = t, pw_chunk_idx = i, pw_buffer_offset = length (cl_buffer st),
      pw_chunk_len = of_nat (length ?b), pw_content_hash = pc_content_hash ch, pw_shard_id = s\<rparr>"
  have b: "pc_chunk_bytes ch = ?b" "pc_content_hash ch = ev_hash128 env raw" "raw \<in> U" "length raw < 2 ^ 29"
    using ch by (simp_all add: chunk_of_def)
  have st: "?st = st\<lparr>cl_buffer := cl_buffer st @ ?b, cl_pending := cl_pending st @ [?pw]\<rparr>"
    using miss by (simp add: coalesce_chunk_def b(1))
  have sh: "coalesced_shape align store lens visited st" using ok by (simp add: coalesced_ok_def)
  have hold: "holds env (c @ cl_buffer ?st) (write_ref (length c) ?pw) raw" if "length (c @ cl_buffer ?st) < 2 ^ 64"
    using holds_new [OF env(1) b(4) env(2), of "c @ cl_buffer st" "[]" s] that by (simp add: write_ref_def st)
  have same: "raw' = raw" if "chunk_of env U align raw' ch" for raw'
    using that b inj by (simp add: chunk_of_def inj_on_eq_iff)
  have l: "length (c @ cl_buffer st) < 2 ^ 64" if "length (c @ cl_buffer ?st) < 2 ^ 64" using that by (simp add: st)
  have "t < length (cl_slots st)" "i < length (cl_slots st ! t)"
    using in_slots [OF _ bounds, of "cl_slots st"] sh by (simp_all add: coalesced_shape_def)
  then have "slots_held env U align c (visited @ [(t, i, s, ch)]) ?st"
    if "length (c @ cl_buffer ?st) < 2 ^ 64" "slots_held env U align c visited st"
    using slots_held_snoc [OF that(2) new, of ?st "write_ref (length c) ?pw" ?b ch s] hold [OF that(1)] same by (auto simp: st)
  moreover have "writes_held env U c ?st"
    if "length (c @ cl_buffer ?st) < 2 ^ 64" "writes_held env U c st"
    unfolding writes_held_def
  proof
    note held = that(2) [unfolded writes_held_def]
    fix pw assume "pw \<in> set (cl_pending ?st)"
    then consider "pw \<in> set (cl_pending st)" | "pw = ?pw" by (auto simp: st)
    then show "\<exists>raw \<in> U. pw_content_hash pw = ev_hash128 env raw \<and> holds env (c @ cl_buffer ?st) (write_ref (length c) pw) raw"
    proof cases
      case 1
      then obtain x where "x \<in> U" "pw_content_hash pw = ev_hash128 env x" "holds env (c @ cl_buffer st) (write_ref (length c) pw) x"
        using held by blast
      then show ?thesis using holds_append [of env "c @ cl_buffer st" _ x ?b] by (auto simp: st)
    next
      case 2
      then show ?thesis using hold [OF that(1)] b by (intro bexI [of _ raw]) simp_all
    qed
  qed
  moreover have "coalesced_shape align store lens (visited @ [(t, i, s, ch)]) ?st"
    using sh segment_chunk_dvd [of env raw] length_segment_chunk(1) [OF env(1) b(4) env(2)]
    by (auto simp: coalesced_shape_def st position_def)
  ultimately show ?thesis using ok l unfolding coalesced_ok_def by blast
qed

lemma coalesce_all:
  assumes "coalesced_ok env U align c store lens visited st" and "env_ok env" "unat align \<le> 2 ^ 21"
    and "inj_on (ev_hash128 env) U" and "distinct (map position (visited @ jobs))"
    and "\<forall>(t, i, s, ch) \<in> set jobs. t < length lens \<and> i < lens ! t \<and> (\<exists>raw. chunk_of env U align raw ch)"
  shows "coalesced_ok env U align c store lens (visited @ jobs) (fold coalesce_job jobs st)"
  using assms(1,5,6)
proof (induction jobs arbitrary: visited st)
  case (Cons job jobs)
  obtain t i s ch where job: "job = (t, i, s, ch)" by (cases job)
  have new: "(t, i) \<notin> position ` set visited" using Cons.prems(2) by (auto simp: job position_def)
  obtain raw where raw: "t < length lens" "i < lens ! t" "chunk_of env U align raw ch" using Cons.prems(3) by (auto simp: job)
  have "coalesced_ok env U align c store lens (visited @ [job]) (coalesce_job job st)"
    using coalesce_hit [OF Cons.prems(1) assms(4) new raw(1,2)]
      coalesce_miss [OF Cons.prems(1) assms(2-4) new raw(1,2) _ raw(3)]
    by (cases "cs_lookup (cl_store st) (pc_content_hash ch)") (simp_all add: job coalesce_job_def)
  from Cons.IH [OF this] Cons.prems(2,3) show ?case by simp
qed simp

section \<open>Committing the buffer\<close>

lemma record_writes:
  fixes env base
  defines "rec \<equiv> \<lambda>pw. record_chunk (pw_shard_id pw) (pw_content_hash pw) (cr_chunk_offset (write_ref base pw)) (pw_chunk_len pw)"
  shows "\<exists>st co. fold rec pws e = e\<lparr>en_content_store := st, en_coordinator := co\<rparr> \<and>
    (store_ok env U c (en_content_store e) \<longrightarrow>
     (\<forall>pw \<in> set pws. \<exists>raw \<in> U. pw_content_hash pw = ev_hash128 env raw \<and> holds env c (write_ref base pw) raw) \<longrightarrow>
       store_ok env U c st)"
proof (induction pws arbitrary: e)
  case Nil
  show ?case by (rule exI [of _ "en_content_store e"], rule exI [of _ "en_coordinator e"]) simp
next
  case (Cons pw pws)
  have w: "write_ref base pw = place (pw_shard_id pw, cr_chunk_offset (write_ref base pw), pw_chunk_len pw)"
    by (simp add: write_ref_def place_def)
  have "store_ok env U c (en_content_store (rec pw e))"
    if "store_ok env U c (en_content_store e)" "raw \<in> U" "pw_content_hash pw = ev_hash128 env raw"
      "holds env c (write_ref base pw) raw" for raw
    using store_ok_insert [OF that(1,2) that(3) [symmetric], of "pw_shard_id pw"] that(4)
    by (simp add: rec_def record_chunk_def w [symmetric])
  moreover obtain st co where "fold rec pws (rec pw e) = (rec pw e)\<lparr>en_content_store := st, en_coordinator := co\<rparr>"
    "store_ok env U c (en_content_store (rec pw e)) \<longrightarrow>
     (\<forall>pw \<in> set pws. \<exists>raw \<in> U. pw_content_hash pw = ev_hash128 env raw \<and> holds env c (write_ref base pw) raw) \<longrightarrow>
       store_ok env U c st"
    using Cons by blast
  moreover obtain st1 co1 where "rec pw e = e\<lparr>en_content_store := st1, en_coordinator := co1\<rparr>"
    by (simp add: rec_def record_chunk_def)
  ultimately show ?case
    by (intro exI [of _ st] exI [of _ co]) auto
qed

text \<open>The slots of each tensor, all filled, with the references in the order of its segments.\<close>

lemma slots_filled:
  assumes "slots_held env U align c (batch_jobs pts) st"
    and "map length (cl_slots st) = map (\<lambda>pt. length (pt_chunks pt)) pts"
    and "t < length pts" and "list_all2 (chunk_of env U align) raws (pt_chunks (pts ! t))"
  defines "slots \<equiv> resolve (length c) (cl_pending st) (cl_slots st)"
  shows "\<exists>refs. slots ! t = map Some refs \<and> list_all2 (holds env (c @ cl_buffer st)) refs raws"
proof -
  have m: "map length slots = map (\<lambda>pt. length (pt_chunks pt)) pts" using assms(2) by (simp add: slots_def)
  have l: "length slots = length pts" using arg_cong [OF m, of length] by simp
  have n: "length (slots ! t) = length (pt_chunks (pts ! t))"
    using arg_cong [OF m, of "\<lambda>xs. xs ! t"] assms(3) l by simp
  have len: "length raws = length (pt_chunks (pts ! t))" using assms(4) by (rule list_all2_lengthD)
  have at: "\<exists>r. slots ! t ! i = Some r \<and> holds env (c @ cl_buffer st) r (raws ! i)" if i: "i < length raws" for i
  proof -
    let ?ch = "pt_chunks (pts ! t) ! i"
    have "(t, i, pt_shard_id (pts ! t), ?ch) \<in> set (batch_jobs pts)" using assms(3) i len by (simp add: batch_jobs_mem)
    moreover have "chunk_of env U align (raws ! i) ?ch" using assms(4) i by (simp add: list_all2_conv_all_nth)
    ultimately show ?thesis using assms(1) unfolding slots_held_def slots_def by blast
  qed
  have "slots ! t = map Some (map the (slots ! t))"
    using at n len by (intro nth_equalityI) force+
  moreover have "list_all2 (holds env (c @ cl_buffer st)) (map the (slots ! t)) raws"
    using at n len by (force simp: list_all2_conv_all_nth)
  ultimately show ?thesis by blast
qed

definition prepared_all ::
  "engine_env \<Rightarrow> bytes set \<Rightarrow> u16 \<Rightarrow> u32 \<Rightarrow> batch_item list \<Rightarrow> processed_tensor list \<Rightarrow> bytes list list \<Rightarrow> bool" where
  "prepared_all env U sc align items pts rawss \<longleftrightarrow> length pts = length items \<and> length rawss = length items \<and>
     (\<forall>i < length items. prepared env U sc align (items ! i) (pts ! i) (rawss ! i))"

lemma prepared_jobs:
  assumes "prepared_all env U sc align items pts rawss" "(t, i, s, ch) \<in> set (batch_jobs pts)"
  shows "\<exists>raw. chunk_of env U align raw ch"
proof -
  have t: "t < length pts" "i < length (pt_chunks (pts ! t))" "ch = pt_chunks (pts ! t) ! i"
    using assms(2) by (simp_all add: batch_jobs_mem)
  then have "list_all2 (chunk_of env U align) (rawss ! t) (pt_chunks (pts ! t))"
    using assms(1) by (simp add: prepared_all_def prepared_def)
  then show ?thesis using t unfolding list_all2_conv_all_nth by metis
qed

lemma coalesce_spec:
  assumes "prepared_all env U sc align items pts rawss" and "env_ok env" "unat align \<le> 2 ^ 21" "inj_on (ev_hash128 env) U"
  shows "coalesced_ok env U align c store (map (\<lambda>pt. length (pt_chunks pt)) pts) (batch_jobs pts) (coalesce pts store)"
proof -
  let ?lens = "map (\<lambda>pt. length (pt_chunks pt)) pts"
  let ?st = "\<lparr>cl_buffer = [], cl_pending = [], cl_slots = map (\<lambda>n. replicate n None) ?lens, cl_store = store\<rparr>"
  have "coalesce pts store = fold coalesce_job (batch_jobs pts) ?st"
    by (simp add: coalesce_def coalesce_jobs batch_jobs_def comp_def)
  moreover have "coalesced_ok env U align c store ?lens ([] @ batch_jobs pts) (fold coalesce_job (batch_jobs pts) ?st)"
    using prepared_jobs [OF assms(1)]
    by (intro coalesce_all [OF coalesced_start assms(2-4)]) (auto simp: batch_jobs_distinct batch_jobs_mem)
  ultimately show ?thesis by simp
qed

text \<open>The write of the buffer, if there is anything to write, and the updates of the content store.\<close>

lemma batch_commit:
  assumes w: "writable env e" and inj: "inj_on (ev_hash128 env) U"
    and prep: "prepared_all env U sc (fh_chunk_align (en_header e)) items pts rawss"
  defines "st \<equiv> coalesce pts (en_content_store e)"
  shows "\<exists>base e1 slots e2. (\<forall>f :: nat \<Rightarrow> unit op. bindS (if cl_buffer st \<noteq> [] then ioS (io_append (cl_buffer st)) else okS 0) f
        (e\<lparr>en_content_store := cl_store st\<rparr>) = f base e1) \<and>
    fold (commit_write base) (cl_pending st) (cl_slots st, e1) = (slots, e2) \<and> grows e e2 \<and> keeps e e2 \<and>
    contents (en_io e2) = contents (en_io e) @ cl_buffer st \<and>
    map length slots = map (\<lambda>pt. length (pt_chunks pt)) pts \<and>
    (length (contents (en_io e2)) < 2 ^ 64 \<longrightarrow> store_ok env U (contents (en_io e)) (en_content_store e) \<longrightarrow>
       store_ok env U (contents (en_io e2)) (en_content_store e2) \<and>
       (\<forall>t < length pts. \<exists>refs. slots ! t = map Some refs \<and> list_all2 (holds env (contents (en_io e2))) refs (rawss ! t)))"
proof -
  let ?c = "contents (en_io e)" and ?a = "fh_chunk_align (en_header e)" and ?lens = "map (\<lambda>pt. length (pt_chunks pt)) pts"
  have io: "io_inv (en_io e)" "mb_mode (en_io e) \<noteq> ReadOnly" "env_ok env" "unat ?a \<le> 2 ^ 21"
    using w by (simp_all add: writable_def)
  have ok: "coalesced_ok env U ?a ?c (en_content_store e) ?lens (batch_jobs pts) st"
    unfolding st_def by (rule coalesce_spec [OF prep io(3,4) inj])
  then have sh: "coalesced_shape ?a (en_content_store e) ?lens (batch_jobs pts) st" by (simp add: coalesced_ok_def)
  obtain io1 where io1: "cl_buffer st \<noteq> [] \<Longrightarrow> io_append (cl_buffer st) (en_io e) = (Inr (length ?c), io1)"
    "cl_buffer st = [] \<Longrightarrow> io1 = en_io e"
    "contents io1 = ?c @ cl_buffer st" "io_inv io1" "mb_mode io1 = mb_mode (en_io e)"
    using append_spec [OF io(1,2), of "cl_buffer st"] io(1)
    by (cases "cl_buffer st = []"; cases "io_append (cl_buffer st) (en_io e)") auto
  define base where "base = (if cl_buffer st \<noteq> [] then length ?c else 0)"
  define e1 where "e1 = e\<lparr>en_content_store := cl_store st, en_io := io1\<rparr>"
  have run: "bindS (if cl_buffer st \<noteq> [] then ioS (io_append (cl_buffer st)) else okS 0) f (e\<lparr>en_content_store := cl_store st\<rparr>) = f base e1" for f :: "nat \<Rightarrow> unit op"
    using io1(1,2) by (cases "cl_buffer st = []") (simp_all add: bindS_def okS_def ioS_def base_def e1_def)
  have pend: "base = length ?c \<or> cl_pending st = []" using sh by (auto simp: coalesced_shape_def base_def)
  obtain store co where rec: "snd (fold (commit_write base) (cl_pending st) (cl_slots st, e1)) = e1\<lparr>en_content_store := store, en_coordinator := co\<rparr>"
    and store: "store_ok env U (contents io1) (cl_store st) \<longrightarrow> (\<forall>pw \<in> set (cl_pending st). \<exists>raw \<in> U.
      pw_content_hash pw = ev_hash128 env raw \<and> holds env (contents io1) (write_ref base pw) raw) \<longrightarrow> store_ok env U (contents io1) store"
    using record_writes [where e = e1 and U = U and c = "contents io1" and pws = "cl_pending st" and env = env and base = base]
    unfolding commit_writes by (auto simp: e1_def)
  define slots where "slots = resolve base (cl_pending st) (cl_slots st)"
  have slots: "slots = resolve (length ?c) (cl_pending st) (cl_slots st)" using pend by (auto simp: slots_def resolve_def)
  let ?e2 = "e1\<lparr>en_content_store := store, en_coordinator := co\<rparr>"
  have lens: "map length (cl_slots st) = ?lens" using sh by (simp add: coalesced_shape_def)
  have n: "map length slots = ?lens" using lens by (simp add: slots)
  have com: "fold (commit_write base) (cl_pending st) (cl_slots st, e1) = (slots, ?e2)"
    using rec unfolding commit_writes slots_def by simp
  have g: "grows e ?e2" "keeps e ?e2"
    using io1(3-5) sh by (simp_all add: grows_def keeps_def e1_def coalesced_shape_def)
  have held: "store_ok env U (contents io1) store \<and>
      (\<forall>t < length pts. \<exists>refs. slots ! t = map Some refs \<and> list_all2 (holds env (contents io1)) refs (rawss ! t))"
    if l: "length (contents io1) < 2 ^ 64" and so: "store_ok env U ?c (en_content_store e)"
  proof (intro conjI allI impI)
    have h: "writes_held env U ?c st" "slots_held env U ?a ?c (batch_jobs pts) st"
      using ok l so by (simp_all add: coalesced_ok_def io1(3))
    have "store_ok env U ?c (cl_store st) = store_ok env U ?c (en_content_store e)"
      using sh by (intro store_ok_cong) (simp add: coalesced_shape_def)
    then have "store_ok env U (contents io1) (cl_store st)" using so store_ok_append by (simp add: io1(3))
    moreover have "\<forall>pw \<in> set (cl_pending st). \<exists>raw \<in> U. pw_content_hash pw = ev_hash128 env raw \<and>
        holds env (contents io1) (write_ref base pw) raw"
      using h(1) pend by (simp add: io1(3) writes_held_def) (elim disjE; simp)
    ultimately show "store_ok env U (contents io1) store" using store by blast
    fix t assume t: "t < length pts"
    then have "list_all2 (chunk_of env U ?a) (rawss ! t) (pt_chunks (pts ! t))"
      using prep by (simp add: prepared_all_def prepared_def)
    from slots_filled [OF h(2) lens t this]
    show "\<exists>refs. slots ! t = map Some refs \<and> list_all2 (holds env (contents io1)) refs (rawss ! t)"
      by (simp add: slots io1(3))
  qed
  show ?thesis
    using run com g n held by (intro exI [of _ base] exI [of _ e1] exI [of _ slots] exI [of _ ?e2]) (simp add: e1_def io1(3))
qed

text \<open>The size of the buffer.\<close>

lemma coalesce_buffer:
  "length (cl_buffer (fold coalesce_job jobs st)) \<le>
     length (cl_buffer st) + (\<Sum>(t, i, s, ch)\<leftarrow>jobs. length (pc_chunk_bytes ch))"
proof (induction jobs arbitrary: st)
  case (Cons job jobs)
  obtain t i s ch where job: "job = (t, i, s, ch)" by (cases job)
  have "length (cl_buffer (coalesce_job job st)) \<le> length (cl_buffer st) + length (pc_chunk_bytes ch)"
    by (auto simp: job coalesce_job_def coalesce_chunk_def split: option.split)
  with Cons [of "coalesce_job job st"] show ?case by (simp add: job)
qed simp

lemma sum_enumerate: "(\<Sum>x\<leftarrow>enumerate n xs. f (snd x)) = sum_list (map f xs)"
  by (induction xs arbitrary: n) simp_all

lemma batch_jobs_sum:
  "(\<Sum>(t, i, s, ch)\<leftarrow>batch_jobs pts. length (pc_chunk_bytes ch)) = (\<Sum>pt\<leftarrow>pts. \<Sum>ch\<leftarrow>pt_chunks pt. length (pc_chunk_bytes ch))"
proof -
  have "(\<Sum>(t, i, s, ch)\<leftarrow>tensor_jobs x. length (pc_chunk_bytes ch)) = (\<Sum>ch\<leftarrow>pt_chunks (snd x). length (pc_chunk_bytes ch))" for x
    by (cases x) (simp add: tensor_jobs_def comp_def split_def
        sum_enumerate [of "\<lambda>ch. length (pc_chunk_bytes ch)"])
  then have "(\<Sum>(t, i, s, ch)\<leftarrow>concat (map tensor_jobs xs). length (pc_chunk_bytes ch)) =
      (\<Sum>x\<leftarrow>xs. \<Sum>ch\<leftarrow>pt_chunks (snd x). length (pc_chunk_bytes ch))" for xs
    by (induction xs) simp_all
  then show ?thesis unfolding batch_jobs_def
    by (simp add: sum_enumerate [of "\<lambda>pt. \<Sum>ch\<leftarrow>pt_chunks pt. length (pc_chunk_bytes ch)"])
qed

definition batch_bytes :: "u32 \<Rightarrow> batch_item list \<Rightarrow> nat" where
  "batch_bytes align items =
     (\<Sum>item\<leftarrow>items. 2 * length (fst (snd item)) + (84 + unat align) * (length (fst (snd item)) div 32768 + 1))"

lemma prepared_bytes:
  assumes "prepared env U sc align item pt raws" "env_ok env"
  shows "(\<Sum>ch\<leftarrow>pt_chunks pt. length (pc_chunk_bytes ch)) \<le>
    2 * length (fst (snd item)) + (84 + unat align) * (length (fst (snd item)) div 32768 + 1)"
proof -
  let ?c = "84 + unat align"
  have "list_all2 (chunk_of env U align) raws chs \<Longrightarrow>
      (\<Sum>ch\<leftarrow>chs. length (pc_chunk_bytes ch)) \<le> 2 * length (concat raws) + ?c * length raws" for raws chs
  proof (induction raws chs rule: list_all2_induct)
    case (Cons raw raws ch chs)
    then show ?case using segment_chunk_bound(2) [OF assms(2), of align raw] by (simp add: chunk_of_def)
  qed simp
  then have "(\<Sum>ch\<leftarrow>pt_chunks pt. length (pc_chunk_bytes ch)) \<le> 2 * length (fst (snd item)) + ?c * length raws"
    using assms(1) unfolding prepared_def by fastforce
  also have "\<dots> \<le> 2 * length (fst (snd item)) + ?c * (length (fst (snd item)) div 32768 + 1)"
    using assms(1) mult_le_mono2 [of "length raws" _ ?c] by (simp only: prepared_def add_le_cancel_left)
  finally show ?thesis .
qed

lemma buffer_bound:
  assumes prep: "prepared_all env U sc align items pts rawss" and "env_ok env"
  shows "length (cl_buffer (coalesce pts store)) \<le> batch_bytes align items"
proof -
  have "length (cl_buffer (coalesce pts store)) \<le> (\<Sum>pt\<leftarrow>pts. \<Sum>ch\<leftarrow>pt_chunks pt. length (pc_chunk_bytes ch))"
    using coalesce_buffer [of "batch_jobs pts" "\<lparr>cl_buffer = [], cl_pending = [],
      cl_slots = map (\<lambda>pt. replicate (length (pt_chunks pt)) None) pts, cl_store = store\<rparr>"]
    by (simp add: coalesce_def coalesce_jobs batch_jobs_sum flip: batch_jobs_def)
  also have "\<dots> \<le> batch_bytes align items"
    unfolding batch_bytes_def
  proof (intro sum_list_mono2 allI impI, goal_cases)
    case (2 i)
    then have "prepared env U sc align (items ! i) (pts ! i) (rawss ! i)" using prep by (simp add: prepared_all_def)
    from prepared_bytes [OF this assms(2)] show ?case using 2 prep by (simp add: prepared_all_def)
  qed (use prep in \<open>simp add: prepared_all_def\<close>)
  finally show ?thesis .
qed

section \<open>Entering the tensors\<close>

text \<open>The batch as a sequence of puts without attributes.\<close>

definition batch_ops :: "clock \<Rightarrow> batch_item list \<Rightarrow> (clock \<times> engine_op) list" where
  "batch_ops ck items = map (\<lambda>(key, data, dtype, shape). (ck, PutOp key data dtype shape [] (str ''keep_latest''))) items"

lemma batch_ops_simps [simp]:
  "batch_ops ck [] = []"
  "batch_ops ck ((key, data, dtype, shape) # items) = (ck, PutOp key data dtype shape [] (str ''keep_latest'')) # batch_ops ck items"
  by (simp_all add: batch_ops_def)

lemma abs_step_put [simp]:
  "abs_step (PutOp key data dtype shape attrs retain) m = m(key \<mapsto> (OwnedTensor_new dtype shape data, attrs))"
  by (simp add: abs_step_def)

text \<open>What the last loop needs of a tensor: its key, its shard and, for each segment, a filled slot.\<close>

definition entry_ready ::
  "engine_env \<Rightarrow> bytes set \<Rightarrow> u8 set \<Rightarrow> u16 \<Rightarrow> bytes \<Rightarrow> batch_item \<times> processed_tensor \<times> chunk_ref option list \<Rightarrow> bool" where
  "entry_ready env K A sc c x \<longleftrightarrow> (case x of ((key, data, dtype, shape), pt, slots) \<Rightarrow>
     key \<in> K \<and> set key \<subseteq> A \<and> pt_shard_id pt = shard_for_key (ev_xxh64 env) key sc \<and>
     length slots \<le> length data div 32768 + 1 \<and>
     (length c < 2 ^ 64 \<longrightarrow> (\<exists>refs segs. slots = map Some refs \<and> list_all2 (holds env c) refs segs \<and> concat segs = data)))"

text \<open>The table gets one entry per tensor, in the order of the batch.\<close>

definition batch_entries :: "engine_env \<Rightarrow> batch_item list \<Rightarrow> toc_entry list \<Rightarrow> bool" where
  "batch_entries env items entries \<longleftrightarrow> list_all2 (\<lambda>(key, data, dtype, shape) entry. \<exists>refs.
     entry = TocEntry_new (ev_xxh64 env) key dtype shape [] refs \<and> length refs \<le> length data div 32768 + 1) items entries"

context engine_index
begin

lemma batch_entry_spec:
  fixes key data dtype shape pt slots
  assumes inv: "engine_inv env U K P A e"
    and ready: "entry_ready env K A (of_nat (length (en_shards e))) (contents (en_io e)) ((key, data, dtype, shape), pt, slots)"
  shows "\<exists>e'. batch_entry env ck ((key, data, dtype, shape), pt, slots) e = Some (Inr (), e') \<and>
    engine_inv env U K P A e' \<and> en_io e' = en_io e \<and> length (en_shards e') = length (en_shards e) \<and> grows e e' \<and>
    (\<exists>refs. toc_entries (en_master_toc e') = toc_entries (en_master_toc e) @ [TocEntry_new (ev_xxh64 env) key dtype shape [] refs] \<and>
       length refs \<le> length data div 32768 + 1) \<and>
    (length (contents (en_io e)) < 2 ^ 64 \<longrightarrow>
       engine_abs env e' = (engine_abs env e)(key \<mapsto> (OwnedTensor_new dtype shape data, [])))"
proof -
  let ?c = "contents (en_io e)"
  define refs where "refs = map the (filter (\<lambda>r. r \<noteq> None) slots)"
  define s where "s = shard_for_key (ev_xxh64 env) key (of_nat (length (en_shards e)))"
  define hs where "hs = map pc_content_hash (pt_chunks pt)"
  have r: "key \<in> K" "set key \<subseteq> A" "pt_shard_id pt = s" using ready by (simp_all add: entry_ready_def s_def)
  have len: "length refs \<le> length data div 32768 + 1"
    using ready le_trans [OF length_filter_le [of "\<lambda>r. r \<noteq> None" slots]] by (simp add: entry_ready_def refs_def)
  have "\<exists>segs. length ?c < 2 ^ 64 \<longrightarrow> list_all2 (holds env ?c) refs segs \<and> concat segs = data"
  proof (cases "length ?c < 2 ^ 64")
    case True
    then obtain rs segs where "slots = map Some rs" "list_all2 (holds env ?c) rs segs" "concat segs = data"
      using ready by (auto simp: entry_ready_def)
    then show ?thesis by (auto simp: refs_def comp_def filter_map)
  qed simp
  then obtain segs where segs: "length ?c < 2 ^ 64 \<longrightarrow> list_all2 (holds env ?c) refs segs \<and> concat segs = data" by blast
  have sh: "shards_ok P A (en_shards e)" "io_inv (en_io e)" using inv by (simp_all add: engine_inv_def writable_def)
  have sl: "unat s < length (en_shards e)" using shardS_spec(1) [OF sh(1)] by (simp add: s_def)
  obtain e1 e' vc where e1: "put_art s key refs e = Some (Inr (), e1)"
    and e': "e' = add_toc_entry env key dtype shape [] refs
      (append_version ck s key (chain_of s key KeepLatest e1) dtype shape [] hs e1)"
    and new: "new_entry env P A ck key dtype shape [] refs vc hs e e'"
    using new_entry_spec [OF sh(1) r(2), of env refs ck dtype shape "[]" "\<lambda>vc. vc" KeepLatest hs]
    unfolding s_def [symmetric] by blast
  have "batch_entry env ck ((key, data, dtype, shape), pt, slots) e = Some (Inr (), e')"
    using sl e1 by (simp add: batch_entry_def Let_def r(3) refs_def [symmetric] hs_def [symmetric] bindS_def updS_def e'
        del: not_None_eq)
  moreover have "length ?c < 2 ^ 64 \<longrightarrow> list_all2 (holds env ?c) refs segs" using segs by blast
  note inv' = new_entry_inv [OF inv r(1) new this]
  have "engine_abs env e' = (engine_abs env e)(key \<mapsto> (OwnedTensor_new dtype shape data, []))"
    if "length ?c < 2 ^ 64" using inv'(2) [OF that] segs that by simp
  moreover note inv'(1) new_entry_grows [OF sh(2) new]
  ultimately show ?thesis using new len by (auto simp: new_entry_def)
qed

lemma batch_entries_spec:
  assumes "engine_inv env U K P A e"
    and "\<forall>x \<in> set xs. entry_ready env K A (of_nat (length (en_shards e))) (contents (en_io e)) x"
  shows "\<exists>us e'. mapS (batch_entry env ck) xs e = Some (Inr us, e') \<and> engine_inv env U K P A e' \<and> grows e e' \<and>
    en_io e' = en_io e \<and>
    (\<exists>entries. toc_entries (en_master_toc e') = toc_entries (en_master_toc e) @ entries \<and> batch_entries env (map fst xs) entries) \<and>
    (length (contents (en_io e)) < 2 ^ 64 \<longrightarrow>
       engine_abs env e' = fold (abs_step \<circ> snd) (batch_ops ck (map fst xs)) (engine_abs env e))"
  using assms
proof (induction xs arbitrary: e)
  case Nil
  then show ?case by (simp add: okS_def grows_refl engine_inv_def writable_def batch_entries_def)
next
  case (Cons x xs)
  obtain key data dtype shape pt slots where x: "x = ((key, data, dtype, shape), pt, slots)" by (metis surj_pair)
  obtain e1 refs where e1: "batch_entry env ck x e = Some (Inr (), e1)" "engine_inv env U K P A e1" "en_io e1 = en_io e"
    "length (en_shards e1) = length (en_shards e)" "grows e e1"
    "toc_entries (en_master_toc e1) = toc_entries (en_master_toc e) @ [TocEntry_new (ev_xxh64 env) key dtype shape [] refs]"
    "length refs \<le> length data div 32768 + 1"
    "length (contents (en_io e)) < 2 ^ 64 \<longrightarrow>
       engine_abs env e1 = (engine_abs env e)(key \<mapsto> (OwnedTensor_new dtype shape data, []))"
    using batch_entry_spec [OF Cons.prems(1), of key data dtype shape pt slots ck] Cons.prems(2) by (auto simp: x)
  obtain us e2 entries where e2: "mapS (batch_entry env ck) xs e1 = Some (Inr us, e2)" "engine_inv env U K P A e2" "grows e1 e2"
    "en_io e2 = en_io e1" "toc_entries (en_master_toc e2) = toc_entries (en_master_toc e1) @ entries"
    "batch_entries env (map fst xs) entries"
    "length (contents (en_io e1)) < 2 ^ 64 \<longrightarrow>
       engine_abs env e2 = fold (abs_step \<circ> snd) (batch_ops ck (map fst xs)) (engine_abs env e1)"
    using Cons.IH [OF e1(2)] Cons.prems(2) unfolding e1(3,4) by (auto simp: comp_def)
  have "mapS (batch_entry env ck) (x # xs) e = Some (Inr (() # us), e2)"
    by (simp add: bindS_def okS_def e1(1) e2(1))
  then show ?case
    using e1(3,6-8) e2(2,4-7) grows_trans [OF e1(5) e2(3)] by (auto simp: x comp_def batch_entries_def)
qed

end

section \<open>The whole batch\<close>

lemma commit_inv:
  assumes "engine_inv env U K P A e" "grows e e2" "keeps e e2"
    and "length (contents (en_io e2)) < 2 ^ 64 \<longrightarrow> store_ok env U (contents (en_io e)) (en_content_store e) \<longrightarrow>
       store_ok env U (contents (en_io e2)) (en_content_store e2)"
  shows "engine_inv env U K P A e2"
    and "length (contents (en_io e2)) < 2 ^ 64 \<Longrightarrow> engine_abs env e2 = engine_abs env e"
proof -
  have k: "en_shards e2 = en_shards e" "en_master_toc e2 = en_master_toc e" using assms(3) by (simp_all add: keeps_def)
  have l: "length (contents (en_io e)) < 2 ^ 64" if "length (contents (en_io e2)) < 2 ^ 64"
    by (rule engine_inv_grows_length [OF assms(2) that])
  show "engine_inv env U K P A e2"
    using assms(1,4) writable_grows [OF _ assms(2)] entry_ok_grows [OF assms(2)] l by (simp add: engine_inv_def k)
  show "engine_abs env e2 = engine_abs env e" if "length (contents (en_io e2)) < 2 ^ 64"
    using assms(1) l [OF that] by (intro ext engine_abs_grows [OF assms(2)]) (simp_all add: k engine_inv_def)
qed

text \<open>The slots of the committed buffer are what the last loop needs.\<close>

lemma prepared_ready:
  assumes prep: "prepared_all env U sc align items pts rawss" and lens: "map length slots = map (\<lambda>pt. length (pt_chunks pt)) pts"
    and adm: "\<forall>x \<in> set (batch_ops ck items). op_admissible env U K A (snd x)"
    and held: "length c < 2 ^ 64 \<longrightarrow> (\<forall>t < length pts. \<exists>refs. slots ! t = map Some refs \<and> list_all2 (holds env c) refs (rawss ! t))"
  shows "\<forall>x \<in> set (zip items (zip pts slots)). entry_ready env K A sc c x"
proof
  fix x assume x: "x \<in> set (zip items (zip pts slots))"
  have n: "length slots = length pts" using lens by (metis length_map)
  obtain i where i: "i < length items" "x = (items ! i, pts ! i, slots ! i)" "i < length pts"
    using x n by (auto simp: set_zip)
  obtain key data dtype shape where it: "items ! i = (key, data, dtype, shape)" by (metis surj_pair)
  have p: "prepared env U sc align (items ! i) (pts ! i) (rawss ! i)" using prep i(1) by (simp add: prepared_all_def)
  have "length (slots ! i) = length (pt_chunks (pts ! i))"
    using lens i(3) n by (metis (no_types, lifting) nth_map)
  also have "\<dots> = length (rawss ! i)" using p by (auto simp: prepared_def dest: list_all2_lengthD)
  finally have l: "length (slots ! i) \<le> length data div 32768 + 1" using p by (simp add: prepared_def it)
  have "\<exists>refs segs. slots ! i = map Some refs \<and> list_all2 (holds env c) refs segs \<and> concat segs = data" if "length c < 2 ^ 64"
    using held that i(3) p by (fastforce simp: prepared_def it)
  moreover have "key \<in> K \<and> set key \<subseteq> A"
    using adm nth_mem [OF i(1)] by (force simp: it batch_ops_def op_admissible_def)
  ultimately show "entry_ready env K A sc c x" using p l by (simp add: entry_ready_def i(2) it prepared_def)
qed

text \<open>What a batch put does.\<close>

definition put_batch_outcome ::
  "engine_env \<Rightarrow> bytes set \<Rightarrow> bytes set \<Rightarrow> (chunk_ref art_node \<Rightarrow> bool) \<Rightarrow> u8 set \<Rightarrow> clock \<Rightarrow> batch_item list
     \<Rightarrow> engine \<Rightarrow> engine \<Rightarrow> bool" where
  "put_batch_outcome env U K P A ck items e e' \<longleftrightarrow> engine_inv env U K P A e' \<and> grows e e' \<and>
     (\<exists>body tail entries. contents (en_io e') = contents (en_io e) @ body @ tail \<and>
        length body \<le> batch_bytes (fh_chunk_align (en_header e)) items \<and>
        (tail = [] \<or> is_checkpoint_of (en_master_toc e') tail) \<and>
        toc_entries (en_master_toc e') = toc_entries (en_master_toc e) @ entries \<and> batch_entries env items entries) \<and>
     (length (contents (en_io e')) < 2 ^ 64 \<longrightarrow>
        (\<forall>key. engine_abs env e' key = last_write (history (batch_ops ck items)) key (engine_abs env e key)))"

context engine_index
begin

lemma put_batch_spec:
  assumes inv: "engine_inv env U K P A e" and inj: "inj_on (ev_hash128 env) U"
    and adm: "\<forall>x \<in> set (batch_ops ck items). op_admissible env U K A (snd x)"
  shows "\<exists>e'. engine_put_batch env ck items e = Some (Inr (), e') \<and> put_batch_outcome env U K P A ck items e e'"
proof (cases "items = []")
  case True
  then show ?thesis using inv
    by (simp add: engine_put_batch_def engine_inv_def writable_def okS_def grows_refl history_def put_batch_outcome_def batch_entries_def)
next
  case False
  let ?sc = "of_nat (length (en_shards e)) :: u16" and ?a = "fh_chunk_align (en_header e)"
  have w: "writable env e" "env_ok env" using inv by (simp_all add: engine_inv_def writable_def)
  have "\<forall>item \<in> set items. cut_into env U (fst (snd item))"
    using adm by (fastforce simp: batch_ops_def op_admissible_def)
  then obtain pts rawss where pts: "those (map (process_tensor env ?sc ?a) items) = Some pts"
    and prep: "prepared_all env U ?sc ?a items pts rawss"
    using process_tensors_prepared [of items env U ?sc ?a] unfolding prepared_all_def by blast
  define st where "st = coalesce pts (en_content_store e)"
  obtain base e1 slots e2 where run1: "\<And>f :: nat \<Rightarrow> unit op. bindS (if cl_buffer st \<noteq> [] then ioS (io_append (cl_buffer st)) else okS 0) f
        (e\<lparr>en_content_store := cl_store st\<rparr>) = f base e1"
    and run2: "fold (commit_write base) (cl_pending st) (cl_slots st, e1) = (slots, e2)"
    and g2: "grows e e2" "keeps e e2" "contents (en_io e2) = contents (en_io e) @ cl_buffer st"
    and lens: "map length slots = map (\<lambda>pt. length (pt_chunks pt)) pts"
    and ok: "length (contents (en_io e2)) < 2 ^ 64 \<longrightarrow> store_ok env U (contents (en_io e)) (en_content_store e) \<longrightarrow>
       store_ok env U (contents (en_io e2)) (en_content_store e2) \<and>
       (\<forall>t < length pts. \<exists>refs. slots ! t = map Some refs \<and> list_all2 (holds env (contents (en_io e2))) refs (rawss ! t))"
    using batch_commit [OF w(1) inj prep] unfolding st_def by blast
  have "store_ok env U (contents (en_io e)) (en_content_store e)" if "length (contents (en_io e2)) < 2 ^ 64"
    using inv engine_inv_grows_length [OF g2(1) that] by (simp add: engine_inv_def)
  then have held: "length (contents (en_io e2)) < 2 ^ 64 \<longrightarrow>
      (\<forall>t < length pts. \<exists>refs. slots ! t = map Some refs \<and> list_all2 (holds env (contents (en_io e2))) refs (rawss ! t))"
    using ok by blast
  have "length (contents (en_io e2)) < 2 ^ 64 \<longrightarrow> store_ok env U (contents (en_io e)) (en_content_store e) \<longrightarrow>
       store_ok env U (contents (en_io e2)) (en_content_store e2)" using ok by blast
  note c = commit_inv [OF inv g2(1,2) this]
  have sh2: "en_shards e2 = en_shards e" "en_master_toc e2 = en_master_toc e" using g2(2) by (simp_all add: keeps_def)
  let ?xs = "zip items (zip pts slots)"
  have n: "length pts = length items" "length slots = length pts"
    using prep map_eq_imp_length_eq [OF lens] by (simp_all add: prepared_all_def)
  obtain us e3 entries where e3: "mapS (batch_entry env ck) ?xs e2 = Some (Inr us, e3)" "engine_inv env U K P A e3" "grows e2 e3"
    "en_io e3 = en_io e2" "toc_entries (en_master_toc e3) = toc_entries (en_master_toc e) @ entries"
    "batch_entries env (map fst ?xs) entries"
    "length (contents (en_io e2)) < 2 ^ 64 \<longrightarrow>
       engine_abs env e3 = fold (abs_step \<circ> snd) (batch_ops ck (map fst ?xs)) (engine_abs env e2)"
    using batch_entries_spec [OF c(1)] prepared_ready [OF prep lens adm held] unfolding sh2 by blast
  have fst: "map fst ?xs = items" using n by simp
  have w3: "writable env e3" using e3(2) by (simp add: engine_inv_def)
  obtain e4 tail where e4: "auto_checkpoint env ck e3 = Some (Inr (), e4)" "grows e3 e4" "same_index e3 e4"
    "contents (en_io e4) = contents (en_io e3) @ tail" "tail = [] \<or> is_checkpoint_of (en_master_toc e3) tail"
    using auto_checkpoint_spec [OF w3, of ck] by blast
  have m: "bindS (mapS (batch_entry env ck) ?xs) f e2 = f us e3" for f :: "unit list \<Rightarrow> unit op"
    using e3(1) by (simp add: bindS_def)
  have "engine_put_batch env ck items e = Some (Inr (), e4)"
    using w False run1 by (simp add: engine_put_batch_def writable_def pts Let_def st_def [symmetric] run2 m e4(1))
  moreover have "engine_abs env e4 key = last_write (history (batch_ops ck items)) key (engine_abs env e key)"
    if l: "length (contents (en_io e4)) < 2 ^ 64" for key
    using e3(7) c(2) engine_inv_grows_length [OF e4(2) l] engine_inv_same_index(2) [OF e3(2) e4(2,3) l]
    by (simp only: e3(4) fst abs_steps)
  moreover have "en_master_toc e4 = en_master_toc e3" using e4(3) by (simp add: same_index_def)
  moreover note engine_inv_same_index(1) [OF e3(2) e4(2,3)] grows_trans [OF g2(1) grows_trans [OF e3(3) e4(2)]]
  ultimately show ?thesis
    using e3(4-6) e4(4,5) g2(3) buffer_bound [OF prep w(2), of "en_content_store e"]
    by (auto simp: put_batch_outcome_def fst st_def)
qed

end

lemma put_batch_class:
  assumes "history_class (batch_ops ck items) P A" and inv: "engine_inv env U K P A e" and inj: "inj_on (ev_hash128 env) U"
    and adm: "\<forall>x \<in> set (batch_ops ck items). op_admissible env U K A (snd x)"
  shows "\<exists>e'. engine_put_batch env ck items e = Some (Inr (), e') \<and> put_batch_outcome env U K P A ck items e e'"
proof -
  from assms(1) consider "P = node_shape True" "A = UNIV" | S where "P = narrow S" "A = alphabet S"
    unfolding history_class_def by blast
  then show ?thesis
  proof cases
    case 1
    show ?thesis using any_keys.put_batch_spec [OF inv [unfolded 1] inj adm [unfolded 1]] unfolding 1 .
  next
    case 2
    show ?thesis using narrow_keys.put_batch_spec [OF inv [unfolded 2] inj adm [unfolded 2]] unfolding 2 .
  qed
qed

text \<open>A history from any state with the invariant.\<close>

lemma run_refines:
  assumes "history_class ops P A" "\<forall>x \<in> set ops. op_admissible env U K A (snd x)" "inj_on (ev_hash128 env) U"
    and inv: "engine_inv env U K P A e"
  shows "\<exists>e'. run_ops env ops e = Some (Inr (), e') \<and> engine_inv env U K P A e' \<and> grows e e' \<and>
    length (toc_entries (en_master_toc e')) \<le> length (toc_entries (en_master_toc e)) + length ops \<and>
    (length (contents (en_io e')) < 2 ^ 64 \<longrightarrow>
       (\<forall>key. engine_abs env e' key = last_write (history ops) key (engine_abs env e key)))"
proof -
  have e: "writable env e" "shards_ok P A (en_shards e)" "io_inv (en_io e)"
    using inv by (simp_all add: engine_inv_def writable_def)
  obtain e' where e': "run_ops env ops e = Some (Inr (), e')" "history_run env U P A ops e e'"
    using run_history [OF assms(1-3) e(1,2)] by blast
  show ?thesis
    using e'(1) history_refines [OF e'(2) inv assms(2)] history_run_grows [OF e'(2) e(3)] history_run_table_length [OF e'(2)]
    by blast
qed

text \<open>
  C8: a batch put is the sequence of its puts. In any history, replacing single puts of
  tensors without attributes by one batch put, whose chunks are coalesced into a single write
  behind the archive, changes nothing that reads can see: the calls succeed, and every key
  answers the tensor of its last put, in the batch or before or after it, also when the batch
  names a key twice or contains data that is stored already.
\<close>

theorem put_batch_equals_puts:
  assumes env: "env_ok env" and create: "engine_create_with_retention ck0 existing locked sc retention = Inr e0"
    and h: "history_ok env U K (xs @ batch_ops ck items @ ys)" and n: "length xs + length items + length ys < 2 ^ 32"
  shows "\<exists>e. bindS (run_ops env xs) (\<lambda>_. bindS (engine_put_batch env ck items) (\<lambda>_. run_ops env ys)) e0 = Some (Inr (), e) \<and>
    (length (contents (en_io e)) < 2 ^ 64 \<longrightarrow> (\<forall>key \<in> K. \<exists>e'. engine_get env key e =
       Some (Inr (map_option fst (last_write (history (xs @ batch_ops ck items @ ys)) key None)), e')))"
proof -
  let ?all = "xs @ batch_ops ck items @ ys"
  note c = engine_create_spec [OF create env]
  obtain P A where pa: "history_class ?all P A" "\<forall>x \<in> set ?all. op_admissible env U K A (snd x)"
    using history_ok_class [OF h] by blast
  have cl: "history_class xs P A" "history_class (batch_ops ck items) P A" "history_class ys P A"
    by (rule history_class_subset [OF pa(1)]; auto)+
  have inj: "inj_on (ev_hash128 env) U" "inj_on (\<lambda>k. ev_xxh64 env k 0) K" using h by (simp_all add: history_ok_def)
  have inv0: "engine_inv env U K P A e0" by (rule c(1))
  obtain e1 where e1: "run_ops env xs e0 = Some (Inr (), e1)" "engine_inv env U K P A e1"
    "length (toc_entries (en_master_toc e1)) \<le> length (toc_entries (en_master_toc e0)) + length xs"
    "length (contents (en_io e1)) < 2 ^ 64 \<longrightarrow> (\<forall>key. engine_abs env e1 key = last_write (history xs) key (engine_abs env e0 key))"
    using run_refines [OF cl(1) _ inj(1) inv0] pa(2) by auto
  obtain e2 where e2: "engine_put_batch env ck items e1 = Some (Inr (), e2)" "put_batch_outcome env U K P A ck items e1 e2"
    using put_batch_class [OF cl(2) e1(2) inj(1)] pa(2) by auto
  have o2: "engine_inv env U K P A e2" "grows e1 e2"
    "length (toc_entries (en_master_toc e2)) = length items + length (toc_entries (en_master_toc e1))"
    "length (contents (en_io e2)) < 2 ^ 64 \<longrightarrow>
       (\<forall>key. engine_abs env e2 key = last_write (history (batch_ops ck items)) key (engine_abs env e1 key))"
    using e2(2) list_all2_lengthD by (fastforce simp: put_batch_outcome_def batch_entries_def)+
  obtain e3 where e3: "run_ops env ys e2 = Some (Inr (), e3)" "engine_inv env U K P A e3" "grows e2 e3"
    "length (toc_entries (en_master_toc e3)) \<le> length (toc_entries (en_master_toc e2)) + length ys"
    "length (contents (en_io e3)) < 2 ^ 64 \<longrightarrow> (\<forall>key. engine_abs env e3 key = last_write (history ys) key (engine_abs env e2 key))"
    using run_refines [OF cl(3) _ inj(1) o2(1)] pa(2) by auto
  have "bindS (run_ops env xs) (\<lambda>_. bindS (engine_put_batch env ck items) (\<lambda>_. run_ops env ys)) e0 = Some (Inr (), e3)"
    by (simp add: bindS_def e1(1) e2(1) e3(1))
  moreover have "\<exists>e'. engine_get env key e3 = Some (Inr (map_option fst (last_write (history ?all) key None)), e')"
    if l: "length (contents (en_io e3)) < 2 ^ 64" and key: "key \<in> K" for key
  proof -
    note l2 = engine_inv_grows_length [OF e3(3) l]
    note l1 = engine_inv_grows_length [OF o2(2) l2]
    have "engine_abs env e3 key = last_write (history ?all) key None"
      using e3(5) o2(4) e1(4) l l1 l2 by (simp add: history_def last_write_append c(2))
    moreover have "in_bounds e3" using l n e1(3) o2(3) e3(4) by (simp add: in_bounds_def c(3))
    ultimately show ?thesis using engine_get_abs [OF e3(2) _ inj(2) key] by metis
  qed
  ultimately show ?thesis by blast
qed

text \<open>A batch of two tensors with the same data.\<close>

definition example_batch :: "batch_item list" where
  "example_batch = [([1], [7, 8], UInt8, [2]), ([3], [7, 8], Int8, [2])]"

lemma example_batch_ok: "history_ok example_env {[7, 8]} {[1], [3]} ([] @ batch_ops example_clock example_batch @ [])"
proof -
  have "inj_on (\<lambda>k. ev_xxh64 example_env k 0) {[1], [3]}" by (simp add: example_env_def)
  then show ?thesis using cut_into_small [of "[7, 8]" "{[7, 8]}" example_env]
    by (simp add: history_ok_def is_delete_def op_admissible_def example_batch_def)
qed

lemma example_batch_size:
  assumes e0: "engine_create example_clock None False (Some 2) = Inr e0" "length (contents (en_io e0)) < 2 ^ 13"
    and e: "put_batch_outcome example_env U K P A example_clock example_batch e0 e"
  shows "length (contents (en_io e)) < 2 ^ 16"
proof -
  note c = engine_create_spec [OF e0(1) [unfolded engine_create_def] example_env_ok]
  have h: "fh_chunk_align (en_header e0) = 4096" using c(5) by (auto simp: FileHeader_new_def DEFAULT_CHUNK_ALIGN_def)
  obtain body tail entries where b: "contents (en_io e) = contents (en_io e0) @ body @ tail"
    "length body \<le> batch_bytes 4096 example_batch" "tail = [] \<or> is_checkpoint_of (en_master_toc e) tail"
    "toc_entries (en_master_toc e) = entries" "batch_entries example_env example_batch entries"
    using e unfolding put_batch_outcome_def h c(3) by auto
  obtain r1 r2 where "entries = [TocEntry_new (ev_xxh64 example_env) [1] UInt8 [2] [] r1,
      TocEntry_new (ev_xxh64 example_env) [3] Int8 [2] [] r2]" "length r1 \<le> 1" "length r2 \<le> 1"
    using b(5) by (auto simp: batch_entries_def example_batch_def list_all2_Cons1)
  then have "length (Toc_serialize (en_master_toc e)) < 2 ^ 13"
    using b(4) by (simp add: Toc_serialize_def toc_entry_length entry_attrs_def Attrs_serialize_def Attrs_new_def)
  then have "length tail < 2 ^ 14" using b(3) checkpoint_block_length [of "en_master_toc e" tail] by auto
  moreover have "length body \<le> 8368" using b(2) by (simp add: batch_bytes_def example_batch_def)
  ultimately show ?thesis using b(1) e0(2) by simp
qed

theorem put_batch_equals_puts_witness:
  "\<exists>e0 e e1 e2. engine_create example_clock None False (Some 2) = Inr e0 \<and>
     engine_put_batch example_env example_clock example_batch e0 = Some (Inr (), e) \<and>
     engine_get example_env [1] e = Some (Inr (Some (OwnedTensor_new UInt8 [2] [7, 8])), e1) \<and>
     engine_get example_env [3] e = Some (Inr (Some (OwnedTensor_new Int8 [2] [7, 8])), e2)"
proof -
  let ?E = "example_env" and ?K = "{[1], [3]} :: bytes set" and ?ops = "batch_ops example_clock example_batch"
  obtain e0 where e0: "engine_create example_clock None False (Some 2) = Inr e0" "length (contents (en_io e0)) < 2 ^ 13"
    using example_created by blast
  note b = put_batch_equals_puts [OF example_env_ok e0(1) [unfolded engine_create_def] example_batch_ok]
  obtain P A where pa: "history_class ?ops P A" "\<forall>x \<in> set ?ops. op_admissible ?E {[7, 8]} ?K A (snd x)"
    using history_ok_class [OF example_batch_ok] by auto
  have inv: "engine_inv ?E {[7, 8]} ?K P A e0"
    by (rule engine_create_spec(1) [OF e0(1) [unfolded engine_create_def] example_env_ok])
  have inj: "inj_on (ev_hash128 ?E) {[7, 8]}" by simp
  obtain e where e: "engine_put_batch ?E example_clock example_batch e0 = Some (Inr (), e)"
    "put_batch_outcome ?E {[7, 8]} ?K P A example_clock example_batch e0 e"
    using put_batch_class [OF pa(1) inv inj pa(2)] by blast
  have "length (contents (en_io e)) < 2 ^ 64" using example_batch_size [OF e0 e(2)] by simp
  then have "\<forall>key \<in> ?K. \<exists>e'. engine_get ?E key e =
      Some (Inr (map_option fst (last_write (history ?ops) key None)), e')"
    using b e(1) by (simp add: bindS_def okS_def example_batch_def)
  then show ?thesis using e0(1) e(1) by (auto simp: history_def example_batch_def)
qed

end
