(* ===== verification/Engine_Compact.thy ===== *)
theory Engine_Compact
  imports Engine_History
begin

text \<open>
  Compaction. It cuts the archive down to its header and stores the live tensors again, but
  the content store still has their segments on record: nothing is written, and the new
  entries refer to chunks that are gone.
\<close>

section \<open>Cutting the archive\<close>

lemma live_tensors_single:
  assumes "readable env K e" and "toc_entries (en_master_toc e) = [entry]" "te_tombstone entry = 0"
  shows "\<exists>t e'. engine_abs env e (te_key entry) = Some (t, te_attrs entry) \<and> reads_only e e' \<and>
    live_tensors env [entry] e = Some (Inr [(te_key entry, t, attrs_map (te_attrs entry))], e')"
proof -
  have live: "live (toc_entries (en_master_toc e)) (te_key entry) = Some entry"
    using assms(2,3) by (simp add: live_def latest_def)
  obtain segs where "list_all2 (holds env (contents (en_io e))) (te_chunk_refs entry) segs"
    using live_segments [OF assms(1) live] by blast
  from engine_abs_entry [OF live this] obtain t where t: "engine_abs env e (te_key entry) = Some (t, te_attrs entry)" by blast
  have "te_key entry \<in> K" using assms(1,2) by (simp add: readable_def)
  then obtain e' where "engine_get env (te_key entry) e = Some (Inr (Some t), e')" "reads_only e e'"
    using engine_get_readable [OF assms(1), of "te_key entry"] t by auto
  then show ?thesis using t assms(3) by (auto simp: bindS_def okS_def)
qed

lemma write_at_flushed: "mb_mode b \<noteq> ReadOnly \<Longrightarrow> mb_write_buffer (snd (io_write_at offset data b)) = []"
  by (simp add: io_write_at_def Let_def flush_buffer_internal_def)

text \<open>The state when the tensors are stored again: the header is all that is left of the file.\<close>

definition cut_down :: "engine \<Rightarrow> engine \<Rightarrow> bool" where
  "cut_down e e' \<longleftrightarrow> contents (en_io e') = header_block (en_header e) \<and> io_inv (en_io e') \<and>
     en_is_closed e' = en_is_closed e \<and> mb_mode (en_io e') = mb_mode (en_io e) \<and> en_mode e' = en_mode e \<and> en_header e' = en_header e \<and>
     map sh_art (en_shards e') = map sh_art (en_shards e) \<and> en_content_store e' = en_content_store e \<and>
     en_master_toc e' = Toc_new"

lemma compact_cut:
  assumes w: "writable env e" and hb: "header_block (en_header e) \<noteq> []"
    and items: "live_tensors env (toc_entries (en_master_toc e)) e = Some (Inr items, e1)" and r: "reads_only e e1"
  shows "\<exists>e2. cut_down e e2 \<and>
    engine_compact env ck e = bindS (mapS (put_item env ck) items) (\<lambda>_. engine_flush env ck) e2"
proof -
  let ?h = "header_block (en_header e)"
  note k = reads_onlyD [OF r]
  have io: "io_inv (en_io e1)" "mb_mode (en_io e1) \<noteq> ReadOnly" "?h \<noteq> [] \<or> 0 \<le> length (contents (en_io e1))"
    using w k hb by (simp_all add: writable_def)
  obtain r1 io1 where w1: "io_write_at 0 ?h (en_io e1) = (r1, io1)" by fastforce
  note s1 = write_at_spec [OF io, unfolded w1 fst_conv snd_conv]
  have m1: "mb_mode io1 \<noteq> ReadOnly" using s1(4) io(2) by simp
  obtain r2 io2 where w2: "io_truncate (length ?h) io1 = (r2, io2)" by fastforce
  note s2 = truncate_spec [OF s1(3) m1, of "length ?h", unfolded w2 fst_conv snd_conv]
  let ?e2 = "reset_archive (of_nat (length ?h)) (e1\<lparr>en_io := io2\<rparr>)"
  have "engine_compact env ck e = bindS (mapS (put_item env ck) items) (\<lambda>_. engine_flush env ck) ?e2"
    using w by (simp add: engine_compact_def writable_def Let_def bindS_def items ioS_def w1 s1(1) w2 s2(1) updS_def)
  moreover have "contents io2 = ?h"
  proof -
    have "mb_write_buffer io1 = []" using write_at_flushed [OF io(2), of 0 ?h] by (simp add: w1)
    then have "mb_file io1 = file_write (contents (en_io e1)) 0 ?h" using s1(2) by (simp add: contents_def)
    then show ?thesis using hb by (simp add: s2(2) file_set_len_def file_write_def)
  qed
  then have "cut_down e ?e2"
    using k s1 s2 by (simp add: cut_down_def reset_archive_def comp_def)
  ultimately show ?thesis by blast
qed

section \<open>Storing the tensors again\<close>

text \<open>Data that is stored already appends nothing, and its entry refers to the old place.\<close>

lemma put_stored_again:
  assumes out: "put_outcome env U P A ck key data dtype shape attrs retention e e'"
    and data: "U = {data}" "data \<noteq> []" and old: "location (en_content_store e) (ev_hash128 env data) = Some l"
    and cut: "cut_into env U data" and one: "length data \<le> 32767"
  shows "\<exists>tail. contents (en_io e') = contents (en_io e) @ tail \<and> (tail = [] \<or> is_checkpoint_of (en_master_toc e') tail) \<and>
    en_master_toc e' = Toc_add_entry (en_master_toc e) (TocEntry_new (ev_xxh64 env) key dtype shape attrs [place l])"
proof -
  note o = out [unfolded put_outcome_def]
  obtain refs segs where refs: "concat segs = data" "length refs \<le> length data div 32768 + 1"
    "list_all2 (\<lambda>raw. placed env e e' (ev_hash128 env raw) raw) segs refs"
    "en_master_toc e' = Toc_add_entry (en_master_toc e) (TocEntry_new (ev_xxh64 env) key dtype shape attrs refs)"
    using o by blast
  have "length segs \<le> 1" using refs(2) list_all2_lengthD [OF refs(3)] one by simp
  then have segs: "segs = [data]" using refs(1) data(2) by (cases segs) auto
  then obtain r where r: "refs = [r]" "placed env e e' (ev_hash128 env data) data r"
    using refs(3) by (auto simp: list_all2_Cons1)
  have "keeps_places e e'" using o by blast
  then have "r = place l" using r(2) old by (cases l) (auto simp: placed_def keeps_places_def)
  moreover obtain body tail ss where b: "cdc_chunk (ev_hash128 env) data CdcConfig_default = Some ss"
    "contents (en_io e') = contents (en_io e) @ body @ tail" "tail = [] \<or> is_checkpoint_of (en_master_toc e') tail"
    "(\<forall>seg \<in> set ss. stored (en_content_store e) (sg_content_hash seg)) \<longrightarrow> body = []"
    using o unfolding put_appends_def by blast
  moreover have "stored (en_content_store e) (sg_content_hash seg)" if "seg \<in> set ss" for seg
    using cut_segments [OF cut] b(1) that data(1) old by (auto simp: segment_of_def stored_def)
  ultimately show ?thesis using refs(4) r(1) by auto
qed

text \<open>A read beyond the end of the archive.\<close>

lemma get_beyond_end:
  assumes "io_inv (en_io e)" and toc: "en_master_toc e = Toc_add_entry Toc_new (TocEntry_new (ev_xxh64 env) key dtype shape attrs [r])"
    and far: "length (contents (en_io e)) < unat (cr_chunk_len r)"
  shows "\<exists>e'. engine_get env key e = Some (Inl (Io UnexpectedEof), e')"
proof -
  let ?t = "TocEntry_new (ev_xxh64 env) key dtype shape attrs [r]"
  have "Toc_lookup (ev_xxh64 env) (en_master_toc e) key = live [?t] key"
    using Toc_lookup_live [of "Toc_add_entry Toc_new ?t" "ev_xxh64 env" key]
    by (simp add: toc index_ok_add hashed_def no_collision_def TocEntry_new_def)
  also have "\<dots> = Some ?t" by (simp add: live_def latest_def TocEntry_new_def)
  finally have look: "Toc_lookup (ev_xxh64 env) (en_master_toc e) key = Some ?t" .
  have "chunk_at (contents (en_io e)) r = Inl (Io UnexpectedEof)" using far by (simp add: chunk_at_def Let_def)
  then have "entry_tensor env (contents (en_io e)) ?t = Inl (Io UnexpectedEof)"
    by (simp add: entry_tensor_def entry_data_def chunk_data_def TocEntry_new_def bindR_def)
  then show ?thesis using engine_get_eq [OF assms(1), of env key] by (auto simp: look bindR_def)
qed

section \<open>What compaction loses\<close>

lemma single_toc_size:
  assumes "toc_entries t = [TocEntry_new x key dtype shape [] [r]]"
  shows "length (Toc_serialize t) = 37 + length key + 4 * length shape"
    and "tail = [] \<or> is_checkpoint_of t tail \<Longrightarrow> length tail \<le> 4157 + length key + 4 * length shape"
proof -
  show t: "length (Toc_serialize t) = 37 + length key + 4 * length shape"
    using assms by (simp add: Toc_serialize_def toc_entry_length entry_attrs_def Attrs_serialize_def Attrs_new_def TocEntry_new_def)
  show "length tail \<le> 4157 + length key + 4 * length shape" if "tail = [] \<or> is_checkpoint_of t tail"
    using that checkpoint_block_length [of t tail] t by auto
qed

text \<open>A new archive with one tensor, which is one segment.\<close>

lemma first_put:
  assumes env: "env_ok env" and create: "engine_create ck None False sc = Inr e0"
    and data: "data \<noteq> []" "length data \<le> 32767" and small: "length key + 4 * length shape < 2 ^ 32"
  shows "\<exists>e1 l. engine_put env ck key data dtype shape [] e0 = Some (Inr (), e1) \<and>
    engine_inv env {data} {key} (node_shape True) UNIV e1 \<and> in_bounds e1 \<and>
    engine_abs env e1 key = Some (OwnedTensor_new dtype shape data, []) \<and>
    toc_entries (en_master_toc e1) = [TocEntry_new (ev_xxh64 env) key dtype shape [] [place l]] \<and>
    location (en_content_store e1) (ev_hash128 env data) = Some l \<and>
    cr_chunk_len (place l) = of_nat (length (segment_chunk env 4096 data)) \<and> fh_chunk_align (en_header e1) = 4096 \<and>
    length (header_block (en_header e1)) \<le> 4144 \<and> header_block (en_header e1) \<noteq> []"
proof -
  note c = engine_create_spec [OF create [unfolded engine_create_def] env]
  have inv: "engine_inv env {data} {key} (node_shape True) UNIV e0" by (rule c(1))
  have w: "writable env e0" "shards_ok (node_shape True) UNIV (en_shards e0)" and inj: "inj_on (ev_hash128 env) {data}"
    using inv by (simp_all add: engine_inv_def)
  have cut: "cut_into env {data} data" using data(2) by (intro cut_into_small) simp_all
  obtain e1 where e1: "engine_put env ck key data dtype shape [] e0 = Some (Inr (), e1)"
    and o: "put_outcome env {data} (node_shape True) UNIV ck key data dtype shape [] (parse_retention (str ''keep_latest'')) e0 e1"
    using any_keys.put_spec [OF w inj cut subset_UNIV] unfolding engine_put_def by blast
  have h: "fh_chunk_align (en_header e0) = 4096" "fh_magic (en_header e0) = MAGIC"
    using c(5) by (auto simp: FileHeader_new_def DEFAULT_CHUNK_ALIGN_def)
  have g: "grows e0 e1" using o by (simp add: put_outcome_def)
  have hd: "en_header e1 = en_header e0" using g by (simp add: grows_def)
  have hb: "length (header_block (en_header e0)) \<le> 4144" "header_block (en_header e0) \<noteq> []"
    using header_block_bound c(5) length_header_block [OF h(2)] by auto
  obtain refs segs where refs: "concat segs = data" "length refs \<le> length data div 32768 + 1"
    "list_all2 (\<lambda>raw. placed env e0 e1 (ev_hash128 env raw) raw) segs refs"
    "en_master_toc e1 = Toc_add_entry (en_master_toc e0) (TocEntry_new (ev_xxh64 env) key dtype shape [] refs)"
    using o unfolding put_outcome_def by blast
  have "length segs \<le> 1" using refs(2) list_all2_lengthD [OF refs(3)] data(2) by simp
  then have "segs = [data]" using refs(1) data(1) by (cases segs) auto
  then obtain r where r: "refs = [r]" "placed env e0 e1 (ev_hash128 env data) data r"
    using refs(3) by (auto simp: list_all2_Cons1)
  have "\<not> stored (en_content_store e0) (ev_hash128 env data)"
    by (simp add: c(8) stored_def ContentStore_new_def location_def)
  then obtain l where l: "location (en_content_store e1) (ev_hash128 env data) = Some l" "r = place l"
    "cr_chunk_len (place l) = of_nat (length (segment_chunk env 4096 data))"
    using r(2) by (auto simp: placed_def h(1))
  have toc: "toc_entries (en_master_toc e1) = [TocEntry_new (ev_xxh64 env) key dtype shape [] [place l]]"
    by (simp add: refs(4) c(3) r(1) l(2))
  obtain body tail where b: "contents (en_io e1) = contents (en_io e0) @ body @ tail"
    "length body \<le> 2 * length data + 4180 * (length data div 32768 + 1)" "tail = [] \<or> is_checkpoint_of (en_master_toc e1) tail"
    using o h(1) unfolding put_outcome_def put_appends_def by auto
  have "length (contents (en_io e0)) \<le> 4144" using hb(1) by (simp add: c(4) file_write_def)
  moreover have "length tail \<le> 4157 + length key + 4 * length shape" by (rule single_toc_size(2) [OF toc b(3)])
  ultimately have len: "length (contents (en_io e1)) < 2 ^ 64" using b(1,2) data(2) small by simp
  note inv1 = put_outcome_inv [OF inv _ o]
  show ?thesis
    using e1 inv1(1) inv1(2) [OF _ len] len toc l(1,3) hb h(1)
    by (intro exI [of _ e1] exI [of _ l]) (simp add: hd in_bounds_def)
qed

text \<open>Compacting the archive of one stored tensor leaves only the header and checkpoints.\<close>

lemma compact_stored:
  assumes inv: "engine_inv env {data} {key} (node_shape True) UNIV e1" and ib: "in_bounds e1"
    and ab: "engine_abs env e1 key = Some (OwnedTensor_new dtype shape data, [])"
    and toc: "toc_entries (en_master_toc e1) = [TocEntry_new (ev_xxh64 env) key dtype shape [] [place l]]"
    and l: "location (en_content_store e1) (ev_hash128 env data) = Some l"
    and hb: "length (header_block (en_header e1)) \<le> 4144" "header_block (en_header e1) \<noteq> []"
    and data: "data \<noteq> []" "length data \<le> 32767"
  shows "\<exists>e4. engine_compact env ck e1 = Some (Inr (), e4) \<and> io_inv (en_io e4) \<and>
    en_master_toc e4 = Toc_add_entry Toc_new (TocEntry_new (ev_xxh64 env) key dtype shape [] [place l]) \<and>
    length (contents (en_io e4)) \<le> 12458 + 2 * (length key + 4 * length shape)"
proof -
  let ?P = "node_shape True :: chunk_ref art_node \<Rightarrow> bool" and ?k = "length key + 4 * length shape"
  have w: "writable env e1" "shards_ok ?P UNIV (en_shards e1)" and inj: "inj_on (ev_hash128 env) {data}"
    using inv by (simp_all add: engine_inv_def)
  have rd: "readable env {key} e1" by (rule engine_inv_readable [OF inv ib]) simp
  obtain e1a where live: "live_tensors env (toc_entries (en_master_toc e1)) e1 =
      Some (Inr [(key, OwnedTensor_new dtype shape data, [])], e1a)" "reads_only e1 e1a"
    using live_tensors_single [OF rd toc] ab unfolding toc by (auto simp: TocEntry_new_def attrs_map_def)
  obtain e2 where e2: "cut_down e1 e2" and comp: "engine_compact env ck e1 =
      bindS (mapS (put_item env ck) [(key, OwnedTensor_new dtype shape data, [])]) (\<lambda>_. engine_flush env ck) e2"
    using compact_cut [OF w(1) hb(2) live] by blast
  note cd = e2 [unfolded cut_down_def]
  have w2: "writable env e2" "shards_ok ?P UNIV (en_shards e2)"
    using w cd shards_ok_arts [of "en_shards e2" "en_shards e1"] by (simp_all add: writable_def)
  have cut: "cut_into env {data} data" using data(2) by (intro cut_into_small) simp_all
  obtain e3 where e3: "engine_put env ck key data dtype shape [] e2 = Some (Inr (), e3)"
    and o: "put_outcome env {data} ?P UNIV ck key data dtype shape [] (parse_retention (str ''keep_latest'')) e2 e3"
    using any_keys.put_spec [OF w2 inj cut subset_UNIV] unfolding engine_put_def by blast
  obtain tail where t3: "contents (en_io e3) = contents (en_io e2) @ tail" "tail = [] \<or> is_checkpoint_of (en_master_toc e3) tail"
    "en_master_toc e3 = Toc_add_entry Toc_new (TocEntry_new (ev_xxh64 env) key dtype shape [] [place l])"
    using put_stored_again [OF o refl data(1) _ cut data(2), of l] l cd by auto
  have w3: "writable env e3" using writable_grows [OF w2(1)] o by (simp add: put_outcome_def)
  obtain e4 r where e4: "engine_flush env ck e3 = Some (Inr (), e4)" "grows e3 e4" "same_index e3 e4"
    "contents (en_io e4) = contents (en_io e3) @ checkpoint_block (Toc_serialize (en_master_toc e3)) (Footer_serialize r)"
    "footer_ok r"
    using flush_effect [OF w3, of ck] footer_ok_checkpoint by blast
  have "toc_entries (en_master_toc e3) = [TocEntry_new (ev_xxh64 env) key dtype shape [] [place l]]"
    by (simp add: t3(3) Toc_new_def)
  note size = single_toc_size(2) [OF this]
  have "length tail \<le> 4157 + length key + 4 * length shape" by (rule size [OF t3(2)])
  moreover have "length (checkpoint_block (Toc_serialize (en_master_toc e3)) (Footer_serialize r)) \<le> 4157 + length key + 4 * length shape"
    using e4(5) by (intro size) (auto simp: is_checkpoint_of_def)
  ultimately have "length (contents (en_io e4)) \<le> 12458 + 2 * ?k" using hb(1) cd by (simp add: e4(4) t3(1))
  moreover have "en_master_toc e4 = en_master_toc e3" using e4(3) by (simp add: same_index_def)
  moreover have "engine_compact env ck e1 = Some (Inr (), e4)"
    using e3 e4(1) by (simp add: comp bindS_def okS_def put_item_def entry_attrs_def Attrs_new_def OwnedTensor_new_def)
  ultimately show ?thesis using t3(3) e4(2) by (auto simp: grows_def)
qed

text \<open>
  C39: compaction loses tensors. After the only tensor of a new archive was stored and read
  back, \<open>compact\<close> succeeds, but the tensor cannot be read any more: the put inside
  \<open>compact\<close> finds the segment in the content store, which is not cleared, and refers to the
  chunk that the truncation removed. Stated for a tensor of one segment whose chunk is longer
  than what the compacted file holds, its header and two checkpoints; the read then fails with
  an unexpected end of the file.
\<close>

theorem compact_loses_tensor:
  assumes env: "env_ok env" and create: "engine_create ck None False sc = Inr e0"
    and data: "data \<noteq> []" "length data \<le> 32767" and small: "length key + 4 * length shape < 2 ^ 32"
    and big: "12458 + 2 * (length key + 4 * length shape) < length (segment_chunk env 4096 data)"
  shows "\<exists>e1 e1' e2 e2'. engine_put env ck key data dtype shape [] e0 = Some (Inr (), e1) \<and>
    engine_get env key e1 = Some (Inr (Some (OwnedTensor_new dtype shape data)), e1') \<and>
    engine_compact env ck e1 = Some (Inr (), e2) \<and>
    engine_get env key e2 = Some (Inl (Io UnexpectedEof), e2')"
proof -
  obtain e1 l where e1: "engine_put env ck key data dtype shape [] e0 = Some (Inr (), e1)"
    and inv: "engine_inv env {data} {key} (node_shape True) UNIV e1" and ib: "in_bounds e1"
    and ab: "engine_abs env e1 key = Some (OwnedTensor_new dtype shape data, [])"
    and toc: "toc_entries (en_master_toc e1) = [TocEntry_new (ev_xxh64 env) key dtype shape [] [place l]]"
    and l: "location (en_content_store e1) (ev_hash128 env data) = Some l"
      "cr_chunk_len (place l) = of_nat (length (segment_chunk env 4096 data))"
    and hb: "length (header_block (en_header e1)) \<le> 4144" "header_block (en_header e1) \<noteq> []"
    using first_put [OF env create data small, of dtype] by blast
  have rd: "readable env {key} e1" by (rule engine_inv_readable [OF inv ib]) simp
  obtain e1' where get1: "engine_get env key e1 = Some (Inr (Some (OwnedTensor_new dtype shape data)), e1')"
    using engine_get_readable [OF rd, of key] ab by auto
  obtain e4 where e4: "engine_compact env ck e1 = Some (Inr (), e4)" "io_inv (en_io e4)"
    "en_master_toc e4 = Toc_add_entry Toc_new (TocEntry_new (ev_xxh64 env) key dtype shape [] [place l])"
    "length (contents (en_io e4)) \<le> 12458 + 2 * (length key + 4 * length shape)"
    using compact_stored [OF inv ib ab toc l(1) hb data] by blast
  have "unat (cr_chunk_len (place l)) = length (segment_chunk env 4096 data)"
    using length_segment_chunk(2) [OF env, of data 4096] data(2) by (simp add: l(2) unat_of_nat)
  then have "length (contents (en_io e4)) < unat (cr_chunk_len (place l))" using big e4(4) by simp
  then obtain e4' where "engine_get env key e4 = Some (Inl (Io UnexpectedEof), e4')"
    using get_beyond_end [OF e4(2,3)] by blast
  then show ?thesis using e1 get1 e4(1) by blast
qed

theorem compact_loses_tensor_witness:
  "\<exists>e0 e1 e1' e2 e2'. engine_create example_clock None False None = Inr e0 \<and>
     engine_put example_env example_clock [1] (replicate 20000 0) UInt8 [20000] [] e0 = Some (Inr (), e1) \<and>
     engine_get example_env [1] e1 = Some (Inr (Some (OwnedTensor_new UInt8 [20000] (replicate 20000 0))), e1') \<and>
     engine_compact example_env example_clock e1 = Some (Inr (), e2) \<and>
     engine_get example_env [1] e2 = Some (Inl (Io UnexpectedEof), e2')"
proof -
  let ?d = "replicate 20000 (0 :: u8)"
  obtain e0 where e0: "engine_create example_clock None False None = Inr e0" using example_created by blast
  obtain n where "segment_chunk example_env 4096 ?d =
     ChunkHeader_serialize (ChunkHeader_new Lz4 NoFilter 1 (of_nat (length ?d)) (of_nat (length ?d))
       (ev_crc32 example_env (cl_lz4_compress (ev_lib example_env) ?d)))
       [of_nat (length (cl_lz4_compress (ev_lib example_env) ?d))]
     @ cl_lz4_compress (ev_lib example_env) ?d @ replicate n 0" using segment_chunk_eq by blast
  then have "20000 \<le> length (segment_chunk example_env 4096 ?d)"
    by (simp add: example_env_def identity_lib_def)
  then show ?thesis
    using compact_loses_tensor [OF example_env_ok e0, of ?d "[1]" "[20000]" UInt8] e0 by auto
qed

end
