(* ===== verification/Engine_Reopen.thy ===== *)
theory Engine_Reopen
  imports Engine_History
begin

text \<open>
  Opening an archive: what a checkpoint leaves on disk is enough to rebuild the engine, also
  when a later write was torn.
\<close>

section \<open>The archive on disk\<close>

text \<open>
  The file starts with the header and consists of whole units of 4096 bytes, so that every
  checkpoint ends on a boundary that the scan for the footer visits.
\<close>

definition archive_ok :: "engine \<Rightarrow> bool" where
  "archive_ok e \<longleftrightarrow> FileHeader_validate (en_header e) = Inr () \<and> fh_chunk_align (en_header e) = 4096 \<and>
     (\<exists>rest. contents (en_io e) = FileHeader_serialize (en_header e) @ rest) \<and> 4096 dvd length (contents (en_io e))"

lemma archive_ok_grows:
  assumes "archive_ok e" "grows e e'"
  shows "archive_ok e'"
proof -
  obtain d where d: "contents (en_io e') = contents (en_io e) @ d" "4096 dvd length d"
    using assms unfolding archive_ok_def grows_def by blast
  then have "4096 dvd length (contents (en_io e) @ d)" using assms(1) by (simp add: archive_ok_def)
  then show ?thesis using assms d(1) unfolding archive_ok_def grows_def by (metis append.assoc)
qed

text \<open>Torn bytes after a checkpoint hold no footer where the scan looks before it finds the checkpoint.\<close>

definition torn_ok :: "bytes \<Rightarrow> bytes \<Rightarrow> bool" where
  "torn_ok file torn \<longleftrightarrow> torn = [] \<or>
     (probe_footer (file @ torn) (length (file @ torn) - 24) = None \<and>
      (\<forall>j. length file < j * 4096 \<and> j * 4096 \<le> length (file @ torn) \<longrightarrow>
         probe_footer (file @ torn) (j * 4096 - 24) = None))"

lemma read_whole: "io_inv io \<Longrightarrow> io_read_at 0 (length (contents io)) io = (r, io') \<Longrightarrow> r = Inr (contents io) \<and> io_inv io' \<and>
    contents io' = contents io \<and> mb_mode io' = mb_mode io"
  using read_spec [of io 0 "length (contents io)"] by (auto split: if_splits)

lemma read_part:
  assumes "io_inv io" "io_read_at off n io = (r, io')" "contents io = pre @ mid @ post" "off = length pre" "n = length mid"
  shows "r = Inr mid \<and> io_inv io' \<and> contents io' = contents io \<and> mb_mode io' = mb_mode io"
  using read_spec [OF assms(1), of off n] assms(2-) by (auto split: if_splits)

text \<open>Opening finds the header, the table and the footer of the last checkpoint.\<close>

lemma read_archive_spec:
  assumes io: "io_inv io" and hd: "FileHeader_validate h = Inr ()" "fh_chunk_align h = 4096" "before = FileHeader_serialize h @ rest"
    and al: "4096 dvd length before" and len: "length before < 2 ^ 64"
    and f: "footer_ok f" "unat (ft_toc_offset f) = length before"
    and toc: "toc_encodable t"
    and fl: "file = before @ checkpoint_block (Toc_serialize t) (Footer_serialize f)"
    and c: "contents io = file @ torn" and torn: "torn_ok file torn"
  shows "\<exists>io'. read_archive io = (Inr (h, Toc_build (map stored_entry (toc_entries t)), length file - 24), io') \<and>
    io_inv io' \<and> contents io' = contents io \<and> mb_mode io' = mb_mode io"
proof -
  obtain n where n: "checkpoint_block (Toc_serialize t) (Footer_serialize f) = Toc_serialize t @ replicate n 0 @ Footer_serialize f"
    "4096 dvd length (checkpoint_block (Toc_serialize t) (Footer_serialize f))"
    using checkpoint_block_shape by blast
  define pre where "pre = before @ Toc_serialize t @ replicate n 0"
  have fl': "file = pre @ Footer_serialize f" by (simp add: fl n(1) pre_def)
  have lf: "length file = length pre + 24" using f(1) by (simp add: fl' FOOTER_SIZE_def)
  have magic: "length (fh_magic h) = 4" using hd(1) by (simp add: FileHeader_validate_Inr)
  have l48: "length (FileHeader_serialize h) = 48" using magic by (simp add: HEADER_SIZE_def)
  obtain r1 io1 where r1: "io_read_at 0 48 io = (r1, io1)" by fastforce
  have s1: "r1 = Inr (FileHeader_serialize h) \<and> io_inv io1 \<and> contents io1 = contents io \<and> mb_mode io1 = mb_mode io"
    by (rule read_part [OF io r1, of "[]" _ "rest @ checkpoint_block (Toc_serialize t) (Footer_serialize f) @ torn"])
      (simp_all add: c fl hd(3) l48)
  have h: "FileHeader_deserialize (FileHeader_serialize h) = Inr h"
    by (rule FileHeader_roundtrip [OF hd(1)])
  obtain r2 io2 where r2: "io_read_at 0 (length (contents io)) io1 = (r2, io2)" by fastforce
  have s2: "r2 = Inr (contents io) \<and> io_inv io2 \<and> contents io2 = contents io \<and> mb_mode io2 = mb_mode io"
    using read_whole [of io1 r2 io2] s1 r2 by simp
  have scan: "scan_for_footer (contents io) (length (contents io)) (fh_chunk_align h) = Inr (Some (f, length pre))"
  proof -
    have "4096 dvd length file" using al n(2) by (simp add: fl)
    then obtain m where m: "length file = 4096 * m" by blast
    then obtain k where "m = Suc k" using lf by (cases m) simp_all
    then have bnd: "length (pre @ Footer_serialize f) = Suc k * 4096" using m by (simp add: fl')
    have "unat (ft_toc_offset f) < length pre" by (simp add: f(2) pre_def Toc_serialize_def)
    moreover have "4096 = unat (max (fh_chunk_align h) 512)" by (simp add: hd(2))
    moreover have "torn = [] \<or> probe_footer (contents io) (length (contents io) - 24) = None"
      using torn by (auto simp: torn_ok_def c)
    moreover have "\<forall>j. Suc k < j \<and> j * 4096 \<le> length (contents io) \<longrightarrow> probe_footer (contents io) (j * 4096 - 24) = None"
      using torn bnd unfolding torn_ok_def c fl' by fastforce
    ultimately show ?thesis using scan_recovers [OF f(1) _ _ bnd, of "fh_chunk_align h" "contents io" torn] by (simp add: c fl')
  qed
  obtain r3 io3 where r3: "io_read_at (length before) (length pre - length before) io2 = (r3, io3)" by fastforce
  have s3: "r3 = Inr (Toc_serialize t @ replicate n 0) \<and> io_inv io3 \<and> contents io3 = contents io2 \<and> mb_mode io3 = mb_mode io2"
    by (rule read_part [OF _ r3, of before _ "Footer_serialize f @ torn"]) (simp_all add: s2 c fl' pre_def)
  have "48 \<le> length (contents io)" by (simp add: c fl hd(3) l48)
  then show ?thesis
    using r1 s1 h r2 s2 scan r3 s3 f(2) Toc_deserialize_serialize [OF toc]
    by (simp add: read_archive_def Let_def io_len_contents [OF io] HEADER_SIZE_def lf)
qed

text \<open>Reading does not touch a backend without buffered bytes.\<close>

lemma read_clean: "mb_write_buffer io = [] \<Longrightarrow> snd (io_read_at off n io) = io"
  by (simp add: io_read_at_def Let_def flush_buffer_internal_def)

lemma read_archive_clean:
  assumes "mb_write_buffer io = []"
  shows "snd (read_archive io) = io"
proof -
  define f where "f off n = fst (io_read_at off n io)" for off n
  have "io_read_at off n io = (f off n, io)" for off n
    by (simp add: f_def prod_eq_iff read_clean [OF assms])
  then show ?thesis by (auto simp: read_archive_def Let_def split: sum.split option.split)
qed

section \<open>Replaying the table\<close>

lemma load_entries_ok:
  assumes "\<And>entry s. entry \<in> set es \<Longrightarrow> tree_wf P A (sh_art s) \<Longrightarrow>
      \<exists>s'. load_shard ck entry s = Some s' \<and> tree_wf P A (sh_art s')"
    and "shards_ok P A shards"
  shows "\<exists>shards'. load_entries env ck sc es shards = Some shards' \<and> shards_ok P A shards'"
  using assms
proof (induction es arbitrary: shards)
  case (Cons entry es)
  have "\<exists>shards1. load_entry env ck sc entry shards = Some shards1 \<and> shards_ok P A shards1"
  proof (cases "unat (shard_for_key (ev_xxh64 env) (te_key entry) sc) < length shards")
    case True
    then obtain s' where "load_shard ck entry (shards ! unat (shard_for_key (ev_xxh64 env) (te_key entry) sc)) = Some s'"
      "tree_wf P A (sh_art s')"
      using Cons.prems(1) [of entry] shards_ok_nth [OF Cons.prems(2)] by auto
    then show ?thesis using True shards_ok_update [OF Cons.prems(2)] by (simp add: load_entry_def Let_def)
  qed (use Cons.prems(2) in \<open>simp add: load_entry_def\<close>)
  then obtain shards1 where s1: "load_entry env ck sc entry shards = Some shards1" "shards_ok P A shards1" by blast
  then show ?case using Cons.IH [OF _ s1(2)] Cons.prems(1) by simp
qed simp

context engine_index
begin

lemma art_insert_refs_ok:
  "tree_wf P A t \<Longrightarrow> set key \<subseteq> A \<Longrightarrow> \<exists>t'. art_insert_refs key refs t = Some t' \<and> tree_wf P A t'"
proof (induction refs arbitrary: t)
  case (Cons r refs)
  obtain t1 where "Art_insert key r t = Some (Art_get t key, t1)" "tree_wf P A t1"
    using Art_insert_spec [OF Cons.prems, of r] by blast
  then show ?case using Cons.IH [of t1] Cons.prems(2) by simp
qed simp

lemma load_live_ok:
  assumes "te_tombstone entry = 0" "set (te_key entry) \<subseteq> A" "tree_wf P A (sh_art s)"
  shows "\<exists>s'. load_shard ck entry s = Some s' \<and> tree_wf P A (sh_art s')"
proof -
  obtain t where "art_insert_refs (te_key entry) (te_chunk_refs entry) (sh_art s) = Some t" "tree_wf P A t"
    using art_insert_refs_ok [OF assms(3,2)] by blast
  then show ?thesis using assms(1) by (auto simp: load_shard_def Let_def split: prod.split)
qed

end

context engine_index_del
begin

lemma load_any_ok:
  assumes "set (te_key entry) \<subseteq> A" "tree_wf P A (sh_art s)"
  shows "\<exists>s'. load_shard ck entry s = Some s' \<and> tree_wf P A (sh_art s')"
proof (cases "te_tombstone entry = 0")
  case True
  then show ?thesis using load_live_ok assms by blast
next
  case False
  obtain t where "Art_remove (te_key entry) (sh_art s) = (Art_get (sh_art s) (te_key entry), t)" "tree_wf P A t"
    using del.Art_remove_spec [OF assms(2)] by blast
  then show ?thesis using False by (simp add: load_shard_def)
qed

end

text \<open>Tables whose replay cannot panic: live entries only, or keys over few bytes.\<close>

definition table_class :: "toc_entry list \<Rightarrow> (chunk_ref art_node \<Rightarrow> bool) \<Rightarrow> u8 set \<Rightarrow> bool" where
  "table_class es P A \<longleftrightarrow> (\<forall>e \<in> set es. set (te_key e) \<subseteq> A) \<and>
     ((P = node_shape True \<and> A = UNIV \<and> (\<forall>e \<in> set es. te_tombstone e = 0)) \<or> (\<exists>S. P = narrow S \<and> A = alphabet S))"

lemma load_table:
  assumes "table_class es P A" "shards_ok P A shards"
  shows "\<exists>shards'. load_entries env ck sc es shards = Some shards' \<and> shards_ok P A shards'"
proof (rule load_entries_ok [OF _ assms(2)])
  fix entry and s :: shard
  assume "entry \<in> set es" "tree_wf P A (sh_art s)"
  then show "\<exists>s'. load_shard ck entry s = Some s' \<and> tree_wf P A (sh_art s')"
    using assms(1) any_keys.load_live_ok [of entry s ck] narrow_keys.load_any_ok [of entry _ s ck]
    unfolding table_class_def by blast
qed

section \<open>Opening\<close>

lemma engine_open_spec:
  assumes hd: "FileHeader_validate h = Inr ()" "fh_chunk_align h = 4096" "before = FileHeader_serialize h @ rest"
    and al: "4096 dvd length before" and len: "length before < 2 ^ 64"
    and f: "footer_ok f" "unat (ft_toc_offset f) = length before"
    and toc: "toc_encodable t" "table_class (toc_entries t) P A"
    and fl: "arch = before @ checkpoint_block (Toc_serialize t) (Footer_serialize f)" and torn: "torn_ok arch torn"
  shows "\<exists>e. engine_open env ck (Some (arch @ torn)) False mode = Some (Inr e) \<and>
    contents (en_io e) = (if mode = ReadOnly then arch @ torn else arch) \<and> io_inv (en_io e) \<and> mb_mode (en_io e) = mode \<and> en_mode e = mode \<and> en_header e = h \<and>
    en_master_toc e = Toc_build (map stored_entry (toc_entries t)) \<and> en_content_store e = [] \<and> shards_ok P A (en_shards e) \<and>
    \<not> en_is_closed e"
proof -
  obtain io where io: "mmap_open_or_create (Some (arch @ torn)) False mode = Inr io"
    by (cases mode) (simp_all add: mmap_open_or_create_def)
  have o: "io_inv io" "contents io = arch @ torn" "mb_mode io = mode" using open_spec [OF io] by simp_all
  have clean: "mb_write_buffer io = []" using io by (cases mode) (auto simp: mmap_open_or_create_def)
  have r: "read_archive io = (Inr (h, Toc_build (map stored_entry (toc_entries t)), length arch - 24), io)"
    using read_archive_spec [OF o(1) hd al len f toc(1) fl o(2) torn] read_archive_clean [OF clean] by auto
  have la: "24 \<le> length arch"
    using f(1) checkpoint_block_shape [of "Toc_serialize t" "Footer_serialize f"] by (auto simp: fl FOOTER_SIZE_def)
  define sc where "sc = max (fh_shard_count h) 1"
  define sh where "sh = map (\<lambda>i. Shard_new (of_nat i) (of_nat (io_len io))) [0..<unat sc]"
  have "(1 :: u16) \<le> sc" by (simp add: sc_def)
  then have sc: "0 < unat sc" "unat sc < 2 ^ 16"
    using unsigned_less [of sc] by (auto simp: word_le_nat_alt)
  have "table_class (map stored_entry (toc_entries t)) P A" using toc(2) by (auto simp: table_class_def)
  moreover have "shards_ok P A sh" using sc by (auto simp: sh_def shards_ok_def Shard_new_def Art_new_def)
  ultimately obtain sh' where sh': "load_entries env ck sc (map stored_entry (toc_entries t)) sh = Some sh'" "shards_ok P A sh'"
    using load_table by blast
  define io2 where "io2 = (if length arch < io_len io \<and> (mode = ReadWrite \<or> mode = Append) then snd (io_truncate (length arch) io) else io)"
  have l: "io_len io = length arch + length torn" by (simp add: io_len_contents [OF o(1)] o(2))
  have rw: "mode = ReadWrite \<or> mode = Append" if "mode \<noteq> ReadOnly" using that by (cases mode) simp_all
  have tr: "io_inv io2 \<and> contents io2 = (if mode = ReadOnly then arch @ torn else arch) \<and> mb_mode io2 = mode"
  proof (cases "torn = [] \<or> mode = ReadOnly")
    case True
    then show ?thesis using o l by (auto simp: io2_def)
  next
    case False
    have "mb_file io = arch @ torn" using o(2) clean by (simp add: contents_def)
    then show ?thesis using False truncate_spec [OF o(1), of "length arch"] o(3) rw l
      by (simp add: io2_def file_set_len_def)
  qed
  define e where "e = \<lparr>en_mode = mode, en_shards = sh', en_io = io2, en_header = h,
    en_master_toc = Toc_build (map stored_entry (toc_entries t)), en_content_store = ContentStore_new,
    en_coordinator = Coordinator_default (ck_now ck), en_is_closed = False\<rparr>"
  have "length arch - 24 + 24 = length arch" using la by simp
  then have "engine_open env ck (Some (arch @ torn)) False mode = Some (Inr e)"
    using r sh'(1)
    by (auto simp add: engine_open_def detect_best_tier_def io Let_def sc_def [symmetric] sh_def [symmetric] io2_def e_def)
  then show ?thesis using tr sh'(2) by (simp add: e_def ContentStore_new_def)
qed

section \<open>The table after a history\<close>

lemma history_run_entries:
  assumes "history_run env U P A ops e e'" and "\<forall>entry \<in> set (toc_entries (en_master_toc e)). E entry"
    and "\<And>ck key data dtype shape attrs retain refs. (ck, PutOp key data dtype shape attrs retain) \<in> set ops \<Longrightarrow>
      length refs \<le> length data div 32768 + 1 \<Longrightarrow> E (TocEntry_new (ev_xxh64 env) key dtype shape attrs refs)"
    and "\<And>ck key entry. (ck, DeleteOp key) \<in> set ops \<Longrightarrow> E entry \<Longrightarrow> E (mark key entry)"
  shows "\<forall>entry \<in> set (toc_entries (en_master_toc e')). E entry"
  using assms
proof (induction rule: history_run.induct)
  case (run_step x e e1 xs e2)
  obtain ck op where x: "x = (ck, op)" by (cases x)
  have "\<forall>entry \<in> set (toc_entries (en_master_toc e1)). E entry"
  proof (cases op)
    case (PutOp key data dtype shape attrs retain)
    then obtain refs where "length refs \<le> length data div 32768 + 1"
      "en_master_toc e1 = Toc_add_entry (en_master_toc e) (TocEntry_new (ev_xxh64 env) key dtype shape attrs refs)"
      using run_step.hyps(1) by (auto simp: x step_effect_def put_outcome_def)
    then show ?thesis using run_step.prems(1) run_step.prems(2) [of ck key data dtype shape attrs retain refs] x PutOp
      by auto
  next
    case (DeleteOp key)
    then show ?thesis using run_step.hyps(1) run_step.prems(1) run_step.prems(3) [of ck key] x
      by (auto simp: step_effect_def delete_outcome_def)
  qed (use run_step.hyps(1) run_step.prems(1) x in \<open>simp_all add: step_effect_def same_index_def\<close>)
  then show ?case
  proof (rule run_step.IH)
    show "E (TocEntry_new (ev_xxh64 env) key dtype shape attrs refs)"
      if "(ck, PutOp key data dtype shape attrs retain) \<in> set xs" "length refs \<le> length data div 32768 + 1"
      for ck key data dtype shape attrs retain refs
      using that by (intro run_step.prems(2) [of ck key data dtype shape attrs retain]) simp_all
    show "E (mark key entry)" if "(ck, DeleteOp key) \<in> set xs" "E entry" for ck key entry
      using that by (intro run_step.prems(3) [of ck key]) simp_all
  qed
qed simp

text \<open>What the format can store of a put.\<close>

definition op_storable :: "engine_op \<Rightarrow> bool" where
  "op_storable op = (case op of
     PutOp key data dtype shape attrs retain \<Rightarrow> utf8_valid key \<and> length key < 2 ^ 16 \<and> length shape < 2 ^ 8 \<and>
       attrs_encodable attrs \<and> length (Attrs_serialize attrs) < 2 ^ 32 \<and> length data div 32768 + 1 < 2 ^ 16
   | _ \<Rightarrow> True)"

lemma mark_encodable: "entry_encodable entry \<Longrightarrow> entry_encodable (mark key entry)"
  by (simp add: entry_encodable_def)

lemma history_encodable:
  assumes "history_run env U P A ops e e'" "toc_entries (en_master_toc e) = []"
    and "\<forall>x \<in> set ops. op_storable (snd x)" "length ops < 2 ^ 32"
  shows "toc_encodable (en_master_toc e')"
proof -
  have "\<forall>entry \<in> set (toc_entries (en_master_toc e')). entry_encodable entry"
    by (rule history_run_entries [OF assms(1)])
      (use assms(2,3) mark_encodable in \<open>fastforce simp: op_storable_def entry_encodable_def\<close>)+
  then show ?thesis using history_run_table_length [OF assms(1)] assms(2,4)
    by (simp add: toc_encodable_def list_all_iff)
qed

lemma history_table_class:
  assumes "history_run env U P A ops e e'" "toc_entries (en_master_toc e) = []"
    and "history_class ops P A" "\<forall>x \<in> set ops. op_admissible env U K A (snd x)"
  shows "table_class (toc_entries (en_master_toc e')) P A"
proof -
  have keys: "\<forall>entry \<in> set (toc_entries (en_master_toc e')). set (te_key entry) \<subseteq> A"
    by (rule history_run_entries [OF assms(1)]) (use assms(2,4) in \<open>fastforce simp: op_admissible_def\<close>)+
  moreover have "\<forall>entry \<in> set (toc_entries (en_master_toc e')). te_tombstone entry = 0"
    if "\<forall>x \<in> set ops. \<not> is_delete (snd x)"
    by (rule history_run_entries [OF assms(1)]) (use assms(2) that in \<open>fastforce simp: is_delete_def\<close>)+
  ultimately show ?thesis using assms(3) unfolding table_class_def history_class_def by blast
qed

section \<open>What is visible after reopening\<close>

text \<open>Stores that agree up to the order of the attributes.\<close>

definition same_tensor :: "(owned_tensor \<times> attrs) option \<Rightarrow> (owned_tensor \<times> attrs) option \<Rightarrow> bool" where
  "same_tensor = rel_option (\<lambda>(t, a) (t', a'). t = t' \<and> map_of (attrs_map a) = map_of (attrs_map a'))"

lemma same_tensor_refl [simp]: "same_tensor r r"
  by (cases r) (auto simp: same_tensor_def)

lemma same_tensor_last_write:
  "same_tensor r r' \<Longrightarrow> same_tensor (last_write ops key r) (last_write ops key r')"
  by (induction ops key r arbitrary: r' rule: last_write.induct) auto

lemma same_tensor_fst: "same_tensor r r' \<Longrightarrow> map_option fst r = map_option fst r'"
  by (cases r; cases r') (auto simp: same_tensor_def)

lemma attrs_map_id: "distinct (map fst kvs) \<Longrightarrow> attrs_map kvs = kvs"
proof -
  have "distinct (map fst (m @ kvs)) \<Longrightarrow> fold (\<lambda>(k, v) m. AList.update k v m) kvs m = m @ kvs" for m
  proof (induction kvs arbitrary: m)
    case (Cons kv kvs)
    obtain k v where kv: "kv = (k, v)" by (cases kv)
    have "k \<notin> fst ` set m" using Cons.prems kv by auto
    then show ?case using Cons.IH [of "m @ [(k, v)]"] Cons.prems kv by (simp add: update_new)
  qed simp
  from this [of "[]"] show "distinct (map fst kvs) \<Longrightarrow> attrs_map kvs = kvs" by (simp add: attrs_map_def)
qed

lemma attrs_map_sorted:
  assumes "attrs_encodable a"
  shows "map_of (attrs_map (attrs_sorted a)) = map_of (attrs_map a)"
proof -
  have d: "distinct (map fst a)" using assms by (simp add: attrs_encodable_def attrs_inv_def)
  then have "distinct (map fst (attrs_sorted a))" by (simp add: attrs_sorted_def comp_def)
  then show ?thesis using d by (simp add: attrs_map_id map_of_attrs_sorted)
qed

lemma entry_stored [simp]: "entry_ok env c (stored_entry entry) = entry_ok env c entry"
  "entry_tensor env c (stored_entry entry) = entry_tensor env c entry"
  by (simp_all add: entry_ok_def entry_tensor_def entry_data_def)

lemma reopened_abs:
  assumes "toc_encodable (en_master_toc e)" "en_master_toc e' = Toc_build (map stored_entry (toc_entries (en_master_toc e)))"
    and "contents (en_io e') = contents (en_io e) @ d"
    and "\<forall>entry \<in> set (toc_entries (en_master_toc e)). entry_ok env (contents (en_io e)) entry"
  shows "same_tensor (engine_abs env e' key) (engine_abs env e key)"
proof (cases "live (toc_entries (en_master_toc e)) key")
  case None
  then show ?thesis by (simp add: engine_abs_def assms(2) live_stored)
next
  case (Some entry)
  then have "entry \<in> set (toc_entries (en_master_toc e))" using live_key by blast
  then have "entry_ok env (contents (en_io e)) entry" "attrs_encodable (te_attrs entry)"
    using assms(1,4) by (simp_all add: toc_encodable_def list_all_iff entry_encodable_def)
  then show ?thesis using Some
    by (cases "entry_tensor env (contents (en_io e)) entry")
      (simp_all add: engine_abs_def assms(2,3) live_stored entry_tensor_append same_tensor_def attrs_map_sorted)
qed

lemma created_archive:
  assumes "engine_create_with_retention ck existing locked sc retention = Inr e" "env_ok env"
    and "4096 dvd length (case existing of None \<Rightarrow> [] | Some f \<Rightarrow> f)"
  shows "archive_ok e"
proof -
  obtain n where n: "en_header e = FileHeader_new n DEFAULT_CHUNK_ALIGN 2"
    using engine_create_spec(5) [OF assms(1,2)] by blast
  let ?f = "case existing of None \<Rightarrow> [] | Some f \<Rightarrow> f" and ?h = "header_block (en_header e)"
  have c: "contents (en_io e) = ?h @ drop (length ?h) ?f"
    using engine_create_spec(4) [OF assms(1,2)] by (simp add: file_write_def)
  obtain z where z: "?h = FileHeader_serialize (en_header e) @ z"
    using pad_to_align_prefix unfolding header_block_def by blast
  have "unat (fh_chunk_align (en_header e)) dvd length ?h"
    unfolding header_block_def by (rule pad_to_align_dvd) (simp add: n FileHeader_new_def DEFAULT_CHUNK_ALIGN_def)
  then have "4096 dvd length ?h" by (simp add: n FileHeader_new_def DEFAULT_CHUNK_ALIGN_def)
  then have "4096 dvd length (contents (en_io e))"
    using assms(3) by (cases "length ?h \<le> length ?f") (simp_all add: c)
  moreover have "\<exists>rest. contents (en_io e) = FileHeader_serialize (en_header e) @ rest"
    using c z by (metis append.assoc)
  ultimately show ?thesis unfolding archive_ok_def by (simp add: n) (simp add: FileHeader_new_def DEFAULT_CHUNK_ALIGN_def)
qed

text \<open>
  What opening yields for an archive that ends in a checkpoint of the engine's table: the
  same tensors, up to the order of their attributes.
\<close>

definition reopened ::
  "engine_env \<Rightarrow> (chunk_ref art_node \<Rightarrow> bool) \<Rightarrow> u8 set \<Rightarrow> OpenMode \<Rightarrow> bytes \<Rightarrow> engine \<Rightarrow> engine \<Rightarrow> bool" where
  "reopened env P A mode c e e2 \<longleftrightarrow> en_mode e2 = mode \<and> mb_mode (en_io e2) = mode \<and> io_inv (en_io e2) \<and>
     contents (en_io e2) = c \<and> en_header e2 = en_header e \<and> en_content_store e2 = [] \<and> \<not> en_is_closed e2 \<and>
     en_master_toc e2 = Toc_build (map stored_entry (toc_entries (en_master_toc e))) \<and> shards_ok P A (en_shards e2) \<and>
     (\<forall>entry \<in> set (toc_entries (en_master_toc e2)). entry_ok env c entry) \<and>
     (\<forall>key. same_tensor (engine_abs env e2 key) (engine_abs env e key))"

text \<open>The block may follow the engine's archive, or be its end already.\<close>

lemma reopen_at:
  assumes inv: "engine_inv env U K P A e" and len: "length (contents (en_io e)) < 2 ^ 64"
    and toc: "toc_encodable (en_master_toc e)" "table_class (toc_entries (en_master_toc e)) P A"
    and ar: "archive_ok em" "en_header em = en_header e" and lm: "length (contents (en_io em)) < 2 ^ 64"
    and f: "footer_ok f" "unat (ft_toc_offset f) = length (contents (en_io em))"
    and fl: "file = contents (en_io em) @ checkpoint_block (Toc_serialize (en_master_toc e)) (Footer_serialize f)"
    and more: "file = contents (en_io e) @ d" and torn: "torn_ok file torn"
  shows "\<exists>e2. engine_open env ck2 (Some (file @ torn)) False mode = Some (Inr e2) \<and>
    reopened env P A mode (if mode = ReadOnly then file @ torn else file) e e2"
proof -
  let ?c = "if mode = ReadOnly then file @ torn else file"
  obtain rest where hd: "contents (en_io em) = FileHeader_serialize (en_header e) @ rest"
    "FileHeader_validate (en_header e) = Inr ()" "fh_chunk_align (en_header e) = 4096" "4096 dvd length (contents (en_io em))"
    using ar by (auto simp: archive_ok_def)
  obtain e2 where e2: "engine_open env ck2 (Some (file @ torn)) False mode = Some (Inr e2)"
    "contents (en_io e2) = ?c" "io_inv (en_io e2)" "mb_mode (en_io e2) = mode" "en_mode e2 = mode"
    "en_header e2 = en_header e" "en_master_toc e2 = Toc_build (map stored_entry (toc_entries (en_master_toc e)))"
    "en_content_store e2 = []" "shards_ok P A (en_shards e2)" "\<not> en_is_closed e2"
    using engine_open_spec [OF hd(2,3,1,4) lm f toc fl torn, of env ck2 mode] by blast
  have ok: "\<forall>entry \<in> set (toc_entries (en_master_toc e)). entry_ok env (contents (en_io e)) entry"
    using inv len by (simp add: engine_inv_def)
  have "\<exists>d. ?c = contents (en_io e) @ d" by (cases "mode = ReadOnly") (auto simp: more)
  then obtain d where d: "?c = contents (en_io e) @ d" by blast
  have "\<forall>entry \<in> set (toc_entries (en_master_toc e2)). entry_ok env ?c entry"
    unfolding d using ok by (auto simp: e2(7) entry_ok_append)
  moreover have "same_tensor (engine_abs env e2 key) (engine_abs env e key)" for key
    using reopened_abs [OF toc(1) e2(7) _ ok] e2(2) d by auto
  ultimately show ?thesis using e2 by (simp add: reopened_def)
qed

lemma reopen_checkpoint:
  assumes inv: "engine_inv env U K P A e" and ar: "archive_ok e"
    and toc: "toc_encodable (en_master_toc e)" "table_class (toc_entries (en_master_toc e)) P A"
    and len: "length (contents (en_io e)) < 2 ^ 64"
    and f: "footer_ok f" "unat (ft_toc_offset f) = length (contents (en_io e))"
    and fl: "file = contents (en_io e) @ checkpoint_block (Toc_serialize (en_master_toc e)) (Footer_serialize f)"
    and torn: "torn_ok file torn"
  shows "\<exists>e2. engine_open env ck2 (Some (file @ torn)) False mode = Some (Inr e2) \<and>
    reopened env P A mode (if mode = ReadOnly then file @ torn else file) e e2"
  by (rule reopen_at [OF inv len toc ar refl len f fl fl torn])

lemma reopen_checkpointed:
  assumes inv: "engine_inv env U K P A e" and len: "length (contents (en_io e)) < 2 ^ 64"
    and toc: "toc_encodable (en_master_toc e)" "table_class (toc_entries (en_master_toc e)) P A"
    and ar: "archive_ok e1" "en_header e1 = en_header e" and cp: "checkpointed e1 e"
    and torn: "torn_ok (contents (en_io e)) torn"
  shows "\<exists>e2. engine_open env ck2 (Some (contents (en_io e) @ torn)) False mode = Some (Inr e2) \<and>
    reopened env P A mode (if mode = ReadOnly then contents (en_io e) @ torn else contents (en_io e)) e e2"
proof -
  obtain em f where g: "grows e1 em" and si: "same_index em e"
    and f: "footer_ok f" "ft_toc_offset f = of_nat (length (contents (en_io em)))"
    and c: "contents (en_io e) = contents (en_io em) @ checkpoint_block (Toc_serialize (en_master_toc em)) (Footer_serialize f)"
    using cp unfolding checkpointed_def by blast
  have lm: "length (contents (en_io em)) < 2 ^ 64" using len by (simp add: c)
  then have off: "unat (ft_toc_offset f) = length (contents (en_io em))" by (simp add: f(2) unat_of_nat)
  have "en_master_toc em = en_master_toc e" using si by (simp add: same_index_def)
  note c = c [unfolded this]
  have hd: "en_header em = en_header e" using g ar(2) by (simp add: grows_def)
  show ?thesis
    by (rule reopen_at [OF inv len toc archive_ok_grows [OF ar(1) g] hd lm f(1) off c _ torn, of "[]"]) simp
qed

text \<open>An archive that was opened for writing is as good as the one that was closed; every opened one is readable.\<close>

lemma reopened_inv:
  assumes "reopened env P A mode c e e2" and "mode \<noteq> ReadOnly"
    and "engine_inv env U K P A e" "archive_ok e" "grows e e1" "contents (en_io e1) = c"
  shows "engine_inv env U K P A e2" "archive_ok e2"
proof -
  note r = assms(1) [unfolded reopened_def]
  have "fh_chunk_align (en_header e) = 4096" using assms(4) by (simp add: archive_ok_def)
  then show "engine_inv env U K P A e2"
    using r assms(2,3) by (auto simp: engine_inv_def writable_def index_ok_build hashed_def store_ok_def location_def)
  show "archive_ok e2"
    using archive_ok_grows [OF assms(4,5)] assms(5,6) r by (simp add: archive_ok_def grows_def)
qed

lemma reopened_readable:
  assumes "reopened env P A mode c e e2" and "engine_inv env U K P A e" "in_bounds e" "inj_on (\<lambda>k. ev_xxh64 env k 0) K"
  shows "readable env K e2"
  using assms unfolding reopened_def
  by (auto simp: readable_def engine_inv_def in_bounds_def index_ok_build hashed_def)

text \<open>Opening after a flush, with torn bytes behind the checkpoint.\<close>

lemma reopen_after_flush:
  assumes inv: "engine_inv env U K P A e" and ar: "archive_ok e"
    and toc: "toc_encodable (en_master_toc e)" "table_class (toc_entries (en_master_toc e)) P A"
    and flush: "engine_flush env ck e = Some (Inr (), e1)" and len: "length (contents (en_io e1)) < 2 ^ 64"
    and torn: "torn_ok (mb_file (en_io e1)) torn"
  shows "\<exists>e2. engine_open env ck2 (Some (mb_file (en_io e1) @ torn)) False mode = Some (Inr e2) \<and>
    reopened env P A mode (if mode = ReadOnly then mb_file (en_io e1) @ torn else mb_file (en_io e1)) e e2 \<and>
    (mode \<noteq> ReadOnly \<longrightarrow> engine_inv env U K P A e2 \<and> archive_ok e2)"
proof -
  have w: "writable env e" using inv by (simp add: engine_inv_def)
  obtain r where g: "grows e e1" "mb_file (en_io e1) = contents (en_io e1)"
    and r: "r = checkpoint_footer (ev_xxh64 env) (en_shards e) (Toc_serialize (en_master_toc e)) (length (contents (en_io e))) False"
    and c: "contents (en_io e1) = contents (en_io e) @ checkpoint_block (Toc_serialize (en_master_toc e)) (Footer_serialize r)"
    using flush_effect [OF w, of ck] flush by auto
  have len0: "length (contents (en_io e)) < 2 ^ 64" using g(1) len by (rule engine_inv_grows_length)
  have ft: "footer_ok r" "unat (ft_toc_offset r) = length (contents (en_io e))"
    using len0 footer_ok_checkpoint by (simp_all add: r) (simp add: checkpoint_footer_def Footer_new_def unat_of_nat)
  obtain e2 where e2: "engine_open env ck2 (Some (mb_file (en_io e1) @ torn)) False mode = Some (Inr e2)"
    "reopened env P A mode (if mode = ReadOnly then mb_file (en_io e1) @ torn else mb_file (en_io e1)) e e2"
    using reopen_checkpoint [OF inv ar toc len0 ft c [folded g(2)] torn] by blast
  have "engine_inv env U K P A e2 \<and> archive_ok e2" if "mode \<noteq> ReadOnly"
    using reopened_inv [OF e2(2) that inv ar g(1)] that g(2) by simp
  then show ?thesis using e2 by blast
qed

lemma same_tensor_trans: "same_tensor a b \<Longrightarrow> same_tensor b c \<Longrightarrow> same_tensor a c"
  by (cases a; cases b; cases c) (auto simp: same_tensor_def)

text \<open>Reads answer a tensor that is known up to the order of its attributes.\<close>

lemma readable_answers:
  assumes "readable env K e" "key \<in> K" "same_tensor (engine_abs env e key) r"
  shows "\<exists>e'. engine_get env key e = Some (Inr (map_option fst r), e') \<and>
    (case r of
       None \<Rightarrow> engine_get_attrs env key e = Inl (KeyNotFound key)
     | Some (_, attrs) \<Rightarrow> \<exists>m. engine_get_attrs env key e = Inr m \<and> map_of m = map_of (attrs_map attrs))"
  using engine_get_readable [OF assms(1,2)] engine_get_attrs_readable [OF assms(1,2)] same_tensor_fst [OF assms(3)] assms(3)
  by (cases "engine_abs env e key"; cases r) (auto simp: same_tensor_def)

text \<open>A new archive after a history and a flush: what opening it needs.\<close>

lemma flushed_history:
  assumes "env_ok env" and "engine_create_with_retention ck0 existing locked sc retention = Inr e0"
    and "4096 dvd length (case existing of None \<Rightarrow> [] | Some f \<Rightarrow> f)"
    and "history_class ops P A" "\<forall>x \<in> set ops. op_admissible env U K A (snd x)" "inj_on (ev_hash128 env) U"
    and "\<forall>x \<in> set ops. op_storable (snd x)" and "length ops < 2 ^ 32"
  shows "\<exists>e e1. run_ops env ops e0 = Some (Inr (), e) \<and> engine_inv env U K P A e \<and> archive_ok e \<and> \<not> en_is_closed e \<and>
    engine_flush env ck1 e = Some (Inr (), e1) \<and> grows e e1 \<and>
    run_ops env (ops @ [(ck1, FlushOp)]) e0 = Some (Inr (), e1) \<and>
    toc_encodable (en_master_toc e) \<and> table_class (toc_entries (en_master_toc e)) P A \<and>
    length (toc_entries (en_master_toc e)) \<le> length ops \<and>
    (length (contents (en_io e)) < 2 ^ 64 \<longrightarrow> (\<forall>key. engine_abs env e key = last_write (history ops) key None))"
proof -
  note c = engine_create_spec [OF assms(2,1)]
  have inv0: "engine_inv env U K P A e0" by (rule c(1))
  obtain e where e: "run_ops env ops e0 = Some (Inr (), e)" "history_run env U P A ops e0 e"
    using run_history [OF assms(4-6)] inv0 unfolding engine_inv_def by blast
  have inv: "engine_inv env U K P A e" and abs: "length (contents (en_io e)) < 2 ^ 64 \<Longrightarrow>
      \<forall>key. engine_abs env e key = last_write (history ops) key None"
    using history_refines [OF e(2) inv0 assms(5)] by (simp_all add: c(2))
  have w: "writable env e" using inv by (simp add: engine_inv_def)
  obtain e1 where e1: "engine_flush env ck1 e = Some (Inr (), e1)" "grows e e1" using flush_effect [OF w] by blast
  have g: "grows e0 e" using history_run_grows [OF e(2)] inv0 by (simp add: engine_inv_def writable_def)
  have "archive_ok e" using created_archive [OF assms(2,1,3)] archive_ok_grows g by blast
  moreover have "toc_encodable (en_master_toc e)" "table_class (toc_entries (en_master_toc e)) P A"
    using history_encodable [OF e(2) c(3) assms(7,8)] history_table_class [OF e(2) c(3) assms(4,5)] by simp_all
  moreover have "run_ops env (ops @ [(ck1, FlushOp)]) e0 = Some (Inr (), e1)"
    by (simp add: run_ops_append bindS_def e(1) e1(1) okS_def)
  moreover have "length (toc_entries (en_master_toc e)) \<le> length ops"
    using history_run_table_length [OF e(2)] by (simp add: c(3))
  moreover have "\<not> en_is_closed e" using c(7) g by (simp add: grows_def)
  ultimately show ?thesis using e(1) e1 inv abs by blast
qed

text \<open>A history that continues on an opened file is answered on top of what the file held.\<close>

lemma continued_history:
  assumes r: "reopened env P A mode arch e e2" and inv: "engine_inv env U K P A e2"
    and cl: "history_class ops P A" and adm: "\<forall>x \<in> set ops. op_admissible env U K A (snd x)"
    and inj: "inj_on (ev_hash128 env) U" "inj_on (\<lambda>k. ev_xxh64 env k 0) K"
    and few: "length (toc_entries (en_master_toc e)) + length ops < 2 ^ 32"
  shows "\<exists>e3. run_ops env ops e2 = Some (Inr (), e3) \<and> (length (contents (en_io e3)) < 2 ^ 64 \<longrightarrow>
    readable env K e3 \<and> (\<forall>key. same_tensor (engine_abs env e3 key) (last_write (history ops) key (engine_abs env e key))))"
proof -
  note r2 = r [unfolded reopened_def]
  obtain e3 where e3: "run_ops env ops e2 = Some (Inr (), e3)" "history_run env U P A ops e2 e3"
    using run_history [OF cl adm inj(1)] inv unfolding engine_inv_def by blast
  note ref = history_refines [OF e3(2) inv adm]
  have "readable env K e3 \<and> (\<forall>key. same_tensor (engine_abs env e3 key) (last_write (history ops) key (engine_abs env e key)))"
    if len: "length (contents (en_io e3)) < 2 ^ 64"
  proof -
    have "in_bounds e3" using len history_run_table_length [OF e3(2)] r2 few by (simp add: in_bounds_def)
    then have "readable env K e3" using engine_inv_readable ref inj(2) by blast
    moreover have "same_tensor (engine_abs env e3 key) (last_write (history ops) key (engine_abs env e key))" for key
      using ref len r2 same_tensor_last_write by metis
    ultimately show ?thesis by blast
  qed
  then show ?thesis using e3(1) by blast
qed

text \<open>
  C2: durability and crash recovery, end to end. Run any history on a new archive and flush;
  then let the process die with any bytes of an unfinished write behind the checkpoint, which
  hold no footer at the end of the file or at a later multiple of 4096. Opening the file
  again succeeds, cuts the torn bytes off, and any further history runs on it; afterwards a
  get answers the key's last put of the whole history, and its attributes are those of that
  put. The hypotheses are those of the refinement, and that keys, shapes, attributes and chunk
  counts fit the fields of the format, and that a file the archive was created over had a
  length that is a multiple of 4096.
\<close>

theorem crash_recovery:
  assumes "env_ok env" and "engine_create_with_retention ck0 existing locked sc retention = Inr e0"
    and "4096 dvd length (case existing of None \<Rightarrow> [] | Some f \<Rightarrow> f)"
    and "history_ok env U K (ops1 @ ops2)" and "\<forall>x \<in> set ops1. op_storable (snd x)" and "length (ops1 @ ops2) < 2 ^ 32"
    and "mode \<noteq> ReadOnly"
  shows "\<exists>e1. run_ops env (ops1 @ [(ck1, FlushOp)]) e0 = Some (Inr (), e1) \<and>
    (length (contents (en_io e1)) < 2 ^ 64 \<and> torn_ok (mb_file (en_io e1)) torn \<longrightarrow>
      (\<exists>e2 e3. engine_open env ck2 (Some (mb_file (en_io e1) @ torn)) False mode = Some (Inr e2) \<and>
         contents (en_io e2) = mb_file (en_io e1) \<and> run_ops env ops2 e2 = Some (Inr (), e3) \<and>
         (length (contents (en_io e3)) < 2 ^ 64 \<longrightarrow> (\<forall>key \<in> K. \<exists>e4.
            engine_get env key e3 = Some (Inr (map_option fst (last_write (history (ops1 @ ops2)) key None)), e4) \<and>
            (case last_write (history (ops1 @ ops2)) key None of
               None \<Rightarrow> engine_get_attrs env key e3 = Inl (KeyNotFound key)
             | Some (_, attrs) \<Rightarrow> \<exists>m. engine_get_attrs env key e3 = Inr m \<and> map_of m = map_of (attrs_map attrs))))))"
proof -
  obtain P A where pa: "history_class (ops1 @ ops2) P A" "\<forall>x \<in> set (ops1 @ ops2). op_admissible env U K A (snd x)"
    using history_ok_class [OF assms(4)] by blast
  have cl: "history_class ops1 P A" "history_class ops2 P A"
    and adm: "\<forall>x \<in> set ops1. op_admissible env U K A (snd x)" "\<forall>x \<in> set ops2. op_admissible env U K A (snd x)"
    using pa by (auto intro: history_class_subset)
  have inj: "inj_on (ev_hash128 env) U" "inj_on (\<lambda>k. ev_xxh64 env k 0) K" using assms(4) by (simp_all add: history_ok_def)
  have few: "length ops1 < 2 ^ 32" using assms(6) by simp
  obtain e e1 where inv: "engine_inv env U K P A e" and ar: "archive_ok e" and e1: "engine_flush env ck1 e = Some (Inr (), e1)" "grows e e1"
    and run1: "run_ops env (ops1 @ [(ck1, FlushOp)]) e0 = Some (Inr (), e1)"
    and toc: "toc_encodable (en_master_toc e)" "table_class (toc_entries (en_master_toc e)) P A"
      "length (toc_entries (en_master_toc e)) \<le> length ops1"
    and abs: "length (contents (en_io e)) < 2 ^ 64 \<longrightarrow> (\<forall>key. engine_abs env e key = last_write (history ops1) key None)"
    using flushed_history [OF assms(1-3) cl(1) adm(1) inj(1) assms(5) few] by blast
  show ?thesis
  proof (rule exI [of _ e1], intro conjI impI run1)
    assume lt: "length (contents (en_io e1)) < 2 ^ 64 \<and> torn_ok (mb_file (en_io e1)) torn"
    have abs: "\<forall>key. engine_abs env e key = last_write (history ops1) key None"
      using abs engine_inv_grows_length [OF e1(2)] lt by blast
    obtain e2 where e2: "engine_open env ck2 (Some (mb_file (en_io e1) @ torn)) False mode = Some (Inr e2)"
      "reopened env P A mode (mb_file (en_io e1)) e e2" "engine_inv env U K P A e2"
      using reopen_after_flush [OF inv ar toc(1,2) e1(1), of torn ck2 mode] lt assms(7) by auto
    have few2: "length (toc_entries (en_master_toc e)) + length ops2 < 2 ^ 32" using toc(3) assms(6) by simp
    obtain e3 where e3: "run_ops env ops2 e2 = Some (Inr (), e3)"
      and rd: "length (contents (en_io e3)) < 2 ^ 64 \<longrightarrow> readable env K e3 \<and>
        (\<forall>key. same_tensor (engine_abs env e3 key) (last_write (history ops2) key (engine_abs env e key)))"
      using continued_history [OF e2(2,3) cl(2) adm(2) inj few2] by blast
    have same: "same_tensor (engine_abs env e3 key) (last_write (history (ops1 @ ops2)) key None)"
      if "length (contents (en_io e3)) < 2 ^ 64" for key
      using rd that abs by (simp add: history_def last_write_append)
    show "\<exists>e2 e3. engine_open env ck2 (Some (mb_file (en_io e1) @ torn)) False mode = Some (Inr e2) \<and>
         contents (en_io e2) = mb_file (en_io e1) \<and> run_ops env ops2 e2 = Some (Inr (), e3) \<and>
         (length (contents (en_io e3)) < 2 ^ 64 \<longrightarrow> (\<forall>key \<in> K. \<exists>e4.
            engine_get env key e3 = Some (Inr (map_option fst (last_write (history (ops1 @ ops2)) key None)), e4) \<and>
            (case last_write (history (ops1 @ ops2)) key None of
               None \<Rightarrow> engine_get_attrs env key e3 = Inl (KeyNotFound key)
             | Some (_, attrs) \<Rightarrow> \<exists>m. engine_get_attrs env key e3 = Inr m \<and> map_of m = map_of (attrs_map attrs))))"
    proof (rule exI [of _ e2], rule exI [of _ e3], intro conjI impI ballI e2(1) e3)
      show "contents (en_io e2) = mb_file (en_io e1)" using e2(2) by (simp add: reopened_def)
    qed (rule readable_answers, use rd in blast, assumption, rule same)
  qed
qed

lemma torn_zero:
  assumes "4096 dvd length arch" "24 \<le> length arch"
  shows "torn_ok arch [0]"
proof -
  let ?data = "arch @ [0]"
  have "probe_footer ?data (length ?data - 24) \<noteq> Some r" for r
  proof
    assume "probe_footer ?data (length ?data - 24) = Some r"
    then obtain f post where f: "footer_ok f" "drop (length ?data - 24) ?data = Footer_serialize f @ post"
      by (cases r) (auto simp: probe_footer_Some)
    have "post = []" using arg_cong [OF f(2), of length] f(1) assms(2) by (simp add: FOOTER_SIZE_def)
    then have "last (Footer_serialize f) = last (drop (length ?data - 24) ?data)" using f(2) by simp
    then have "last (Footer_serialize f) = 0" using assms(2) by (simp del: drop_append)
    then show False using f(1)
      by (auto simp: Footer_serialize_def footer_ok_iff MAGIC_END_FINAL_def MAGIC_END_CHECKPOINT_def)
  qed
  moreover have "\<not> (length arch < j * 4096 \<and> j * 4096 \<le> length ?data)" for j
  proof -
    obtain k where "length arch = 4096 * k" using assms(1) by blast
    then show ?thesis by auto
  qed
  ultimately show ?thesis unfolding torn_ok_def by (metis not_None_eq)
qed

theorem crash_recovery_witness:
  "\<exists>e0 e1 e2 e4. engine_create example_clock None False (Some 2) = Inr e0 \<and>
     run_ops example_env [(example_clock, PutOp [1] [7, 8] UInt8 [2] [] []), (example_clock, FlushOp)] e0 = Some (Inr (), e1) \<and>
     engine_open example_env example_clock (Some (mb_file (en_io e1) @ [0])) False ReadWrite = Some (Inr e2) \<and>
     engine_get example_env [1] e2 = Some (Inr (Some (OwnedTensor_new UInt8 [2] [7, 8])), e4)"
proof -
  let ?op = "PutOp [1] [7, 8] UInt8 [2] [] []" and ?E = "example_env"
  obtain e0 e where e: "engine_create example_clock None False (Some 2) = Inr e0"
    "engine_put_with_retention ?E example_clock [1] [7, 8] UInt8 [2] [] [] e0 = Some (Inr (), e)"
    "engine_inv ?E {[7, 8]} {[1]} (node_shape True) UNIV e" "grows e0 e"
    "length (contents (en_io e)) < 2 ^ 15" "length (Toc_serialize (en_master_toc e)) < 2 ^ 13"
    using example_put [of "{[1]}"] by blast
  note c = e(1) [unfolded engine_create_def]
  have w: "writable ?E e" using e(3) by (simp add: engine_inv_def)
  obtain e1 r where e1: "engine_flush ?E example_clock e = Some (Inr (), e1)" "grows e e1" "footer_ok r"
    "contents (en_io e1) = contents (en_io e) @ checkpoint_block (Toc_serialize (en_master_toc e)) (Footer_serialize r)"
    "mb_file (en_io e1) = contents (en_io e1)"
    using flush_effect [OF w, of example_clock] footer_ok_checkpoint by metis
  have "archive_ok e1" using created_archive [OF c example_env_ok] e(4) e1(2) archive_ok_grows by (metis dvd_0_right list.size(3) option.case(1))
  then have dvd: "4096 dvd length (contents (en_io e1))" by (simp add: archive_ok_def)
  have l: "24 \<le> length (contents (en_io e1))" "length (contents (en_io e1)) < 2 ^ 64"
  proof -
    let ?b = "checkpoint_block (Toc_serialize (en_master_toc e)) (Footer_serialize r)"
    have "length ?b \<le> length (Toc_serialize (en_master_toc e)) + 24 + 4096"
      using e1(3) by (intro checkpoint_block_length) (auto simp: is_checkpoint_of_def)
    then show "length (contents (en_io e1)) < 2 ^ 64" using e(5,6) by (simp add: e1(4))
    have "24 \<le> length ?b" using checkpoint_block_shape [of "Toc_serialize (en_master_toc e)" "Footer_serialize r"] e1(3)
      by (auto simp: FOOTER_SIZE_def)
    then show "24 \<le> length (contents (en_io e1))" by (simp add: e1(4))
  qed
  have cut: "cut_into ?E {[7, 8]} [7, 8]" by (rule cut_into_small) simp_all
  have "history_ok ?E {[7, 8]} {[1]} ([(example_clock, ?op)] @ [])"
    using cut by (simp add: history_ok_def is_delete_def op_admissible_def)
  moreover have run: "run_ops ?E [(example_clock, ?op), (example_clock, FlushOp)] e0 = Some (Inr (), e1)"
    using e(2) e1(1) by (simp add: bindS_def okS_def)
  moreover have "op_storable ?op"
    by (simp add: op_storable_def attrs_encodable_def attrs_inv_def Attrs_serialize_def utf8_valid_ascii)
  ultimately have "\<exists>e2 e3. engine_open ?E example_clock (Some (mb_file (en_io e1) @ [0])) False ReadWrite = Some (Inr e2) \<and>
      contents (en_io e2) = mb_file (en_io e1) \<and> run_ops ?E [] e2 = Some (Inr (), e3) \<and>
      (length (contents (en_io e3)) < 2 ^ 64 \<longrightarrow>
        (\<exists>e4. engine_get ?E [1] e3 = Some (Inr (Some (OwnedTensor_new UInt8 [2] [7, 8])), e4)))"
    using crash_recovery [OF example_env_ok c, of "{[7, 8]}" "{[1]}" "[(example_clock, ?op)]" "[]" ReadWrite example_clock "[0]" example_clock]
      torn_zero [OF dvd l(1)] l(2) by (simp add: e1(5) history_def) blast
  then show ?thesis using e(1) run l(2) e1(5) by (auto simp: okS_def)
qed

end
