(* ===== verification/Engine_Durable.thy ===== *)
theory Engine_Durable
  imports Engine_Reopen
begin

text \<open>
  What survives a crash: every checkpoint a history takes, by a flush or when one is due, is a
  point that opening the file recovers, and the coordinator lets less than 64 MiB of chunk
  bytes accumulate behind the last one.
\<close>

section \<open>The last checkpoint of a history\<close>

text \<open>
  The state after the first \<open>k\<close> calls, which is the start or ends with a checkpoint; behind it
  lie the bytes the coordinator counts.
\<close>

definition durable_to ::
  "engine_env \<Rightarrow> bytes set \<Rightarrow> (chunk_ref art_node \<Rightarrow> bool) \<Rightarrow> u8 set \<Rightarrow> (clock \<times> engine_op) list \<Rightarrow> engine
     \<Rightarrow> nat \<Rightarrow> engine \<Rightarrow> engine \<Rightarrow> bool" where
  "durable_to env U P A ops e0 k ek e \<longleftrightarrow> k \<le> length ops \<and> run_ops env (take k ops) e0 = Some (Inr (), ek) \<and>
     history_run env U P A (take k ops) e0 ek \<and>
     (\<exists>rest. contents (en_io e) = contents (en_io ek) @ rest \<and>
        length rest = unat (co_bytes_written_since_last (en_coordinator e))) \<and>
     (k = 0 \<or> (\<exists>ej. grows e0 ej \<and> checkpointed ej ek))"

lemma history_run_shards: "history_run env U P A ops e e' \<Longrightarrow> shards_ok P A (en_shards e) \<Longrightarrow> shards_ok P A (en_shards e')"
  by (induction rule: history_run.induct) (simp_all add: step_effect_shards)

lemma durable_to_append:
  assumes "durable_to env U P A ops e0 k ek e" and "contents (en_io e') = contents (en_io e) @ d"
    and "unat (co_bytes_written_since_last (en_coordinator e')) =
      unat (co_bytes_written_since_last (en_coordinator e)) + length d"
  shows "durable_to env U P A (ops @ [x]) e0 k ek e'"
proof -
  obtain rest where "contents (en_io e) = contents (en_io ek) @ rest"
    "length rest = unat (co_bytes_written_since_last (en_coordinator e))"
    using assms(1) unfolding durable_to_def by blast
  then have "contents (en_io e') = contents (en_io ek) @ rest @ d \<and>
      length (rest @ d) = unat (co_bytes_written_since_last (en_coordinator e'))" using assms(2,3) by simp
  then show ?thesis using assms(1) unfolding durable_to_def by (intro conjI) auto
qed

lemma durable_step:
  assumes last: "length (contents (en_io e)) < 2 ^ 64 \<Longrightarrow> \<exists>k ek. durable_to env U P A ops e0 k ek e"
    and step: "paced ck e e'" and g: "grows e0 e" and len: "length (contents (en_io e')) < 2 ^ 64"
    and run: "run_ops env (ops @ [x]) e0 = Some (Inr (), e')" "history_run env U P A (ops @ [x]) e0 e'"
  shows "\<exists>k ek. durable_to env U P A (ops @ [x]) e0 k ek e'"
proof -
  let ?c = "en_coordinator e" and ?c' = "en_coordinator e'"
  from step consider (same) "contents (en_io e') = contents (en_io e)" "?c' = ?c"
    | (more) d where "contents (en_io e') = contents (en_io e) @ d" "?c' = record_bytes_written (of_nat (length d)) ?c"
    | (ckpt) "co_bytes_written_since_last ?c' = 0" "checkpointed e e'"
    unfolding paced_def settled_def accounted_def by blast
  then show ?thesis
  proof cases
    case same
    then obtain k ek where "durable_to env U P A ops e0 k ek e" using last len by auto
    from durable_to_append [OF this, of e' "[]" x] show ?thesis using same by (intro exI) simp
  next
    case more
    have len0: "length (contents (en_io e)) < 2 ^ 64" using len more(1) by simp
    then obtain k ek where d: "durable_to env U P A ops e0 k ek e" using last by blast
    then have "unat (co_bytes_written_since_last ?c) \<le> length (contents (en_io e))" by (auto simp: durable_to_def)
    then have "unat (co_bytes_written_since_last ?c') = unat (co_bytes_written_since_last ?c) + length d"
      using len by (simp add: more record_bytes_written_def unat_word_ariths unat_of_nat)
    then show ?thesis using durable_to_append [OF d more(1)] by blast
  next
    case ckpt
    have "durable_to env U P A (ops @ [x]) e0 (Suc (length ops)) e' e'"
      using ckpt g run unfolding durable_to_def by auto
    then show ?thesis by blast
  qed
qed

lemma run_history_durable:
  assumes "history_class ops P A" "\<forall>x \<in> set ops. op_admissible env U K A (snd x)" and inj: "inj_on (ev_hash128 env) U"
    and w: "writable env e0" and sh: "shards_ok P A (en_shards e0)"
    and start: "co_bytes_written_since_last (en_coordinator e0) = 0" "0 < co_interval_bytes (en_coordinator e0)"
  shows "\<exists>e. run_ops env ops e0 = Some (Inr (), e) \<and> history_run env U P A ops e0 e \<and>
    co_interval_bytes (en_coordinator e) = co_interval_bytes (en_coordinator e0) \<and>
    co_bytes_written_since_last (en_coordinator e) < co_interval_bytes (en_coordinator e0) \<and>
    (length (contents (en_io e)) < 2 ^ 64 \<longrightarrow> (\<exists>k ek. durable_to env U P A ops e0 k ek e))"
  using assms(1,2)
proof (induction ops rule: rev_induct)
  case Nil
  have "durable_to env U P A [] e0 0 e0 e0" by (auto simp: durable_to_def okS_def start intro: run_done)
  then show ?case using start by (auto simp: okS_def intro: run_done)
next
  case (snoc x ops)
  have "history_class ops P A" using snoc.prems(1) by (rule history_class_subset) auto
  then obtain e where e: "run_ops env ops e0 = Some (Inr (), e)" "history_run env U P A ops e0 e"
    and i: "co_interval_bytes (en_coordinator e) = co_interval_bytes (en_coordinator e0)"
      "co_bytes_written_since_last (en_coordinator e) < co_interval_bytes (en_coordinator e0)"
    and d: "length (contents (en_io e)) < 2 ^ 64 \<longrightarrow> (\<exists>k ek. durable_to env U P A ops e0 k ek e)"
    using snoc.IH snoc.prems(2) by auto
  have g: "grows e0 e" using history_run_grows [OF e(2)] w by (simp add: writable_def)
  obtain e' where e': "engine_step env x e = Some (Inr (), e')" "step_effect env U P A x e e'"
    using history_step [OF snoc.prems(1), of x env U K e] snoc.prems(2) inj writable_grows [OF w g]
      history_run_shards [OF e(2) sh] by auto
  obtain ck where p: "paced ck e e'" using e'(2) by (cases x) (auto simp: step_effect_def)
  have "history_run env U P A [x] e e'" using e'(2) by (blast intro: run_step run_done)
  then have h: "history_run env U P A (ops @ [x]) e0 e'" by (rule history_run_append [OF e(2)])
  have r: "run_ops env (ops @ [x]) e0 = Some (Inr (), e')" using e(1) e'(1) by (simp add: run_ops_append bindS_def okS_def)
  have ib: "co_interval_bytes (en_coordinator e') = co_interval_bytes (en_coordinator e0) \<and>
      co_bytes_written_since_last (en_coordinator e') < co_interval_bytes (en_coordinator e0)"
    using p i start(2) by (auto simp: paced_def settled_def should_checkpoint_def Let_def not_le split: if_splits)
  have "\<exists>k ek. durable_to env U P A (ops @ [x]) e0 k ek e'" if "length (contents (en_io e')) < 2 ^ 64"
    using durable_step [OF _ p g that r h] d by blast
  then show ?case using r h ib by blast
qed

section \<open>Recovery\<close>

text \<open>
  A file from which opening, in any mode and with any torn bytes behind it, brings back the
  tensors of a history.
\<close>

definition recovers :: "engine_env \<Rightarrow> bytes set \<Rightarrow> bytes \<Rightarrow> (clock \<times> engine_op) list \<Rightarrow> bool" where
  "recovers env K file ops \<longleftrightarrow> (\<forall>ck mode torn. torn_ok file torn \<longrightarrow>
     (\<exists>e. engine_open env ck (Some (file @ torn)) False mode = Some (Inr e) \<and> (\<forall>key \<in> K. \<exists>e'.
        engine_get env key e = Some (Inr (map_option fst (last_write (history ops) key None)), e') \<and>
        (case last_write (history ops) key None of
           None \<Rightarrow> engine_get_attrs env key e = Inl (KeyNotFound key)
         | Some (_, attrs) \<Rightarrow> \<exists>m. engine_get_attrs env key e = Inr m \<and> map_of m = map_of (attrs_map attrs)))))"

lemma checkpoint_recovers:
  assumes inv: "engine_inv env U K P A e" "in_bounds e" and inj: "inj_on (\<lambda>k. ev_xxh64 env k 0) K"
    and toc: "toc_encodable (en_master_toc e)" "table_class (toc_entries (en_master_toc e)) P A"
    and ar: "archive_ok e1" "en_header e1 = en_header e" and cp: "checkpointed e1 e"
    and abs: "\<And>key. engine_abs env e key = last_write (history ops) key None"
  shows "recovers env K (contents (en_io e)) ops"
  unfolding recovers_def
proof (intro allI impI)
  fix ck mode torn assume torn: "torn_ok (contents (en_io e)) torn"
  have len: "length (contents (en_io e)) < 2 ^ 64" using inv(2) by (simp add: in_bounds_def)
  obtain e2 where e2: "engine_open env ck (Some (contents (en_io e) @ torn)) False mode = Some (Inr e2)"
    and r: "reopened env P A mode (if mode = ReadOnly then contents (en_io e) @ torn else contents (en_io e)) e e2"
    using reopen_checkpointed [OF inv(1) len toc ar cp torn] by blast
  have rd: "readable env K e2" by (rule reopened_readable [OF r inv inj])
  have same: "same_tensor (engine_abs env e2 key) (last_write (history ops) key None)" for key
    using r by (simp add: reopened_def abs)
  show "\<exists>e3. engine_open env ck (Some (contents (en_io e) @ torn)) False mode = Some (Inr e3) \<and> (\<forall>key \<in> K. \<exists>e'.
      engine_get env key e3 = Some (Inr (map_option fst (last_write (history ops) key None)), e') \<and>
      (case last_write (history ops) key None of
         None \<Rightarrow> engine_get_attrs env key e3 = Inl (KeyNotFound key)
       | Some (_, attrs) \<Rightarrow> \<exists>m. engine_get_attrs env key e3 = Inr m \<and> map_of m = map_of (attrs_map attrs)))"
    by (rule exI [of _ e2], rule conjI [OF e2], rule ballI, rule readable_answers [OF rd _ same])
qed

lemma durable_recovers:
  assumes env: "env_ok env" and create: "engine_create_with_retention ck0 existing locked sc retention = Inr e0"
    and al: "4096 dvd length (case existing of None \<Rightarrow> [] | Some f \<Rightarrow> f)"
    and pa: "history_class ops P A" "\<forall>x \<in> set ops. op_admissible env U K A (snd x)" and inj: "inj_on (\<lambda>k. ev_xxh64 env k 0) K"
    and sto: "\<forall>x \<in> set ops. op_storable (snd x)" "length ops < 2 ^ 32"
    and d: "durable_to env U P A ops e0 k ek e" and k: "0 < k" and len: "length (contents (en_io ek)) < 2 ^ 64"
  shows "mb_file (en_io ek) = contents (en_io ek) \<and> recovers env K (contents (en_io ek)) (take k ops)"
proof -
  note c = engine_create_spec [OF create env]
  obtain ej where h: "history_run env U P A (take k ops) e0 ek" and ej: "grows e0 ej" "checkpointed ej ek"
    using d k unfolding durable_to_def by blast
  have sub: "set (take k ops) \<subseteq> set ops" by (rule set_take_subset)
  have cl: "history_class (take k ops) P A" by (rule history_class_subset [OF pa(1) sub])
  have adm: "\<forall>x \<in> set (take k ops). op_admissible env U K A (snd x)" "\<forall>x \<in> set (take k ops). op_storable (snd x)"
    using sub pa(2) sto(1) by blast+
  have inv0: "engine_inv env U K P A e0" by (rule c(1))
  have inv: "engine_inv env U K P A ek" and abs: "\<And>key. engine_abs env ek key = last_write (history (take k ops)) key None"
    using history_refines [OF h inv0 adm(1)] len by (simp_all add: c(2))
  have few: "length (take k ops) < 2 ^ 32" using sto(2) by simp
  have toc: "toc_encodable (en_master_toc ek)" "table_class (toc_entries (en_master_toc ek)) P A"
    using history_encodable [OF h c(3) adm(2) few] history_table_class [OF h c(3) cl adm(1)] by simp_all
  have b: "in_bounds ek" using len toc(1) by (simp add: in_bounds_def toc_encodable_def)
  have ar: "archive_ok ej" by (rule archive_ok_grows [OF created_archive [OF create env al] ej(1)])
  have "grows e0 ek" using history_run_grows [OF h] inv0 by (simp add: engine_inv_def writable_def)
  then have hd: "en_header ej = en_header ek" using ej(1) by (simp add: grows_def)
  have "mb_file (en_io ek) = contents (en_io ek)" using ej(2) by (simp add: checkpointed_def)
  moreover have "recovers env K (contents (en_io ek)) (take k ops)"
    by (rule checkpoint_recovers [OF inv b inj toc ar hd ej(2) abs])
  ultimately show ?thesis by blast
qed

lemma created_durable:
  assumes "env_ok env" and "engine_create_with_retention ck0 existing locked sc retention = Inr e0"
    and "4096 dvd length (case existing of None \<Rightarrow> [] | Some f \<Rightarrow> f)"
    and "history_ok env U K ops" and "\<forall>x \<in> set ops. op_storable (snd x)" and "length ops < 2 ^ 32"
  shows "\<exists>e. run_ops env ops e0 = Some (Inr (), e) \<and> (length (contents (en_io e)) < 2 ^ 64 \<longrightarrow>
    (\<exists>k ek rest. k \<le> length ops \<and> run_ops env (take k ops) e0 = Some (Inr (), ek) \<and>
       contents (en_io e) = contents (en_io ek) @ rest \<and> length rest < 64 * 1024 * 1024 \<and>
       (0 < k \<longrightarrow> mb_file (en_io ek) = contents (en_io ek) \<and> recovers env K (contents (en_io ek)) (take k ops))))"
proof -
  note c = engine_create_spec [OF assms(2,1)]
  have co: "co_bytes_written_since_last (en_coordinator e0) = 0"
    "co_interval_bytes (en_coordinator e0) = DEFAULT_CHECKPOINT_INTERVAL_BYTES" "0 < DEFAULT_CHECKPOINT_INTERVAL_BYTES"
    by (simp_all add: c(9) Coordinator_default_def Coordinator_new_def DEFAULT_CHECKPOINT_INTERVAL_BYTES_def)
  obtain P A where pa: "history_class ops P A" "\<forall>x \<in> set ops. op_admissible env U K A (snd x)"
    using history_ok_class [OF assms(4)] by blast
  have inj: "inj_on (ev_hash128 env) U" "inj_on (\<lambda>k. ev_xxh64 env k 0) K" using assms(4) by (simp_all add: history_ok_def)
  have w: "writable env e0" "shards_ok P A (en_shards e0)" using c(1) [of U K P A] by (simp_all add: engine_inv_def)
  obtain e where e: "run_ops env ops e0 = Some (Inr (), e)"
    and less: "co_bytes_written_since_last (en_coordinator e) < DEFAULT_CHECKPOINT_INTERVAL_BYTES"
    and d: "length (contents (en_io e)) < 2 ^ 64 \<longrightarrow> (\<exists>k ek. durable_to env U P A ops e0 k ek e)"
    using run_history_durable [OF pa inj(1) w co(1)] co(2,3) by auto
  have "\<exists>k ek rest. k \<le> length ops \<and> run_ops env (take k ops) e0 = Some (Inr (), ek) \<and>
       contents (en_io e) = contents (en_io ek) @ rest \<and> length rest < 64 * 1024 * 1024 \<and>
       (0 < k \<longrightarrow> mb_file (en_io ek) = contents (en_io ek) \<and> recovers env K (contents (en_io ek)) (take k ops))"
    if len: "length (contents (en_io e)) < 2 ^ 64"
  proof -
    obtain k ek rest where k: "durable_to env U P A ops e0 k ek e"
      and rest: "contents (en_io e) = contents (en_io ek) @ rest" "length rest = unat (co_bytes_written_since_last (en_coordinator e))"
      using d len unfolding durable_to_def by blast
    have "length rest < 64 * 1024 * 1024"
      using less by (simp add: rest(2) DEFAULT_CHECKPOINT_INTERVAL_BYTES_def word_less_nat_alt)
    moreover have "length (contents (en_io ek)) < 2 ^ 64" using len by (simp add: rest)
    ultimately show ?thesis
      using k rest(1) durable_recovers [OF assms(1-3) pa inj(2) assms(5,6) k] unfolding durable_to_def by blast
  qed
  then show ?thesis using e by blast
qed

lemma run_ops_prefix_length:
  assumes "env_ok env" and "engine_create_with_retention ck0 existing locked sc retention = Inr e0"
    and "history_ok env U K ops" "k \<le> length ops"
    and "run_ops env (take k ops) e0 = Some (Inr (), ek)" "run_ops env ops e0 = Some (Inr (), e)"
  shows "length (contents (en_io ek)) \<le> length (contents (en_io e))"
proof -
  obtain P A where pa: "history_class ops P A" "\<forall>x \<in> set ops. op_admissible env U K A (snd x)"
    using history_ok_class [OF assms(3)] by blast
  have inj: "inj_on (ev_hash128 env) U" using assms(3) by (simp add: history_ok_def)
  have w: "writable env e0" "shards_ok P A (en_shards e0)"
    using engine_create_spec(1) [OF assms(2,1), of U K P A] by (simp_all add: engine_inv_def)
  have part: "set (take k ops) \<subseteq> set ops" "set (drop k ops) \<subseteq> set ops" by (rule set_take_subset, rule set_drop_subset)
  obtain e' where e': "run_ops env (take k ops) e0 = Some (Inr (), e')" "history_run env U P A (take k ops) e0 e'"
    using run_history [OF history_class_subset [OF pa(1) part(1)] _ inj w] pa(2) part(1) by blast
  have ek: "e' = ek" using e'(1) assms(5) by simp
  have g: "grows e0 ek" using history_run_grows [OF e'(2)] w(1) by (simp add: writable_def ek)
  obtain e'' where e'': "run_ops env (drop k ops) ek = Some (Inr (), e'')" "history_run env U P A (drop k ops) ek e''"
    using run_history [OF history_class_subset [OF pa(1) part(2)] _ inj writable_grows [OF w(1) g]
        history_run_shards [OF e'(2) [unfolded ek] w(2)]] pa(2) part(2) by blast
  have "run_ops env (take k ops @ drop k ops) e0 = Some (Inr (), e'')"
    unfolding run_ops_append using assms(5) e''(1) by (simp add: bindS_def)
  then have "e'' = e" using assms(6) by simp
  then have "grows ek e" using history_run_grows [OF e''(2)] g by (simp add: grows_def)
  then show ?thesis by (auto simp: grows_def)
qed

text \<open>
  C9: a bound on what a crash can lose. After any history on a new archive there is a number
  of calls that are safe: the archive after them is in the file, and opening it, with any torn
  bytes behind, brings back their tensors; the later calls have appended fewer than 64 MiB.
  It can be 0 only while the archive has grown by less than that.
\<close>

theorem bounded_loss:
  assumes "env_ok env" and "engine_create_with_retention ck0 existing locked sc retention = Inr e0"
    and "4096 dvd length (case existing of None \<Rightarrow> [] | Some f \<Rightarrow> f)"
    and "history_ok env U K ops" and "\<forall>x \<in> set ops. op_storable (snd x)" and "length ops < 2 ^ 32"
  shows "\<exists>e. run_ops env ops e0 = Some (Inr (), e) \<and> (length (contents (en_io e)) < 2 ^ 64 \<longrightarrow>
    (\<exists>k ek. k \<le> length ops \<and> run_ops env (take k ops) e0 = Some (Inr (), ek) \<and>
       length (contents (en_io e)) < length (contents (en_io ek)) + 64 * 1024 * 1024 \<and>
       (0 < k \<longrightarrow> mb_file (en_io ek) = contents (en_io ek) \<and> recovers env K (contents (en_io ek)) (take k ops))))"
proof -
  obtain e where e: "run_ops env ops e0 = Some (Inr (), e)"
    and d: "length (contents (en_io e)) < 2 ^ 64 \<longrightarrow>
      (\<exists>k ek rest. k \<le> length ops \<and> run_ops env (take k ops) e0 = Some (Inr (), ek) \<and>
       contents (en_io e) = contents (en_io ek) @ rest \<and> length rest < 64 * 1024 * 1024 \<and>
       (0 < k \<longrightarrow> mb_file (en_io ek) = contents (en_io ek) \<and> recovers env K (contents (en_io ek)) (take k ops)))"
    using created_durable [OF assms] by blast
  have "length (contents (en_io e)) < length (contents (en_io ek)) + 64 * 1024 * 1024"
    if "contents (en_io e) = contents (en_io ek) @ rest" "length rest < 64 * 1024 * 1024" for ek :: engine and rest
    using that by simp
  then show ?thesis using e d by blast
qed

lemma example_storable: "op_storable (PutOp [1] [7, 8] UInt8 [2] [] [])"
  by (simp add: op_storable_def attrs_encodable_def attrs_inv_def Attrs_serialize_def utf8_valid_ascii)

lemma example_flushed:
  "\<exists>e0 e1. engine_create example_clock None False (Some 2) = Inr e0 \<and> length (contents (en_io e1)) < 2 ^ 64 \<and>
     run_ops example_env [(example_clock, PutOp [1] [7, 8] UInt8 [2] [] []), (example_clock, FlushOp)] e0 = Some (Inr (), e1)"
proof -
  let ?E = example_env
  obtain e0 e where e: "engine_create example_clock None False (Some 2) = Inr e0"
    "engine_put_with_retention ?E example_clock [1] [7, 8] UInt8 [2] [] [] e0 = Some (Inr (), e)"
    "engine_inv ?E {[7, 8]} {[1]} (node_shape True) UNIV e"
    "length (contents (en_io e)) < 2 ^ 15" "length (Toc_serialize (en_master_toc e)) < 2 ^ 13"
    using example_put [of "{[1]}"] by blast
  have w: "writable ?E e" using e(3) by (simp add: engine_inv_def)
  obtain e1 r where e1: "engine_flush ?E example_clock e = Some (Inr (), e1)" "footer_ok r"
    "contents (en_io e1) = contents (en_io e) @ checkpoint_block (Toc_serialize (en_master_toc e)) (Footer_serialize r)"
    using flush_effect [OF w, of example_clock] footer_ok_checkpoint by metis
  have "length (checkpoint_block (Toc_serialize (en_master_toc e)) (Footer_serialize r)) \<le> length (Toc_serialize (en_master_toc e)) + 24 + 4096"
    using e1(2) by (intro checkpoint_block_length) (auto simp: is_checkpoint_of_def)
  then have "length (contents (en_io e1)) < 2 ^ 64" using e(4,5) by (simp add: e1(3))
  then show ?thesis using e(1,2) e1(1) by (auto simp: bindS_def okS_def)
qed

theorem bounded_loss_witness:
  "\<exists>e0 e k file. engine_create example_clock None False (Some 2) = Inr e0 \<and>
     run_ops example_env [(example_clock, PutOp [1] [7, 8] UInt8 [2] [] []), (example_clock, FlushOp)] e0 = Some (Inr (), e) \<and>
     length (contents (en_io e)) < length file + 64 * 1024 * 1024 \<and>
     (0 < k \<longrightarrow> recovers example_env {[1]} file
        (take k [(example_clock, PutOp [1] [7, 8] UInt8 [2] [] []), (example_clock, FlushOp)]))"
proof -
  let ?ops = "[(example_clock, PutOp [1] [7, 8] UInt8 [2] [] []), (example_clock, FlushOp)]"
  obtain e0 e where e: "engine_create example_clock None False (Some 2) = Inr e0" "length (contents (en_io e)) < 2 ^ 64"
    "run_ops example_env ?ops e0 = Some (Inr (), e)"
    using example_flushed by blast
  have ok: "history_ok example_env {[7, 8]} {[1]} ?ops"
    using cut_into_small [of "[7, 8]" "{[7, 8]}" example_env] by (simp add: history_ok_def is_delete_def op_admissible_def)
  have sto: "\<forall>x \<in> set ?ops. op_storable (snd x)" using example_storable by (simp add: op_storable_def)
  have al: "4096 dvd length (case None :: bytes option of None \<Rightarrow> [] | Some f \<Rightarrow> f)" by simp
  obtain e' where r: "run_ops example_env ?ops e0 = Some (Inr (), e')"
    and safe: "length (contents (en_io e')) < 2 ^ 64 \<longrightarrow>
      (\<exists>k ek. k \<le> length ?ops \<and> run_ops example_env (take k ?ops) e0 = Some (Inr (), ek) \<and>
       length (contents (en_io e')) < length (contents (en_io ek)) + 64 * 1024 * 1024 \<and>
       (0 < k \<longrightarrow> mb_file (en_io ek) = contents (en_io ek) \<and> recovers example_env {[1]} (contents (en_io ek)) (take k ?ops)))"
    using bounded_loss [OF example_env_ok e(1) [unfolded engine_create_def] al ok sto] by auto
  have "e' = e" using r e(3) by simp
  then show ?thesis using safe e by blast
qed

text \<open>
  C10: every write becomes durable. Whatever was stored by a first part of a history, once the
  calls after it have grown the archive by 64 MiB, a checkpoint has been taken at or after the
  end of that part: the archive as it was then, which is in the file, opens with all tensors
  stored until then, whatever torn bytes a crash leaves behind it.
\<close>

theorem eventually_durable:
  assumes "env_ok env" and "engine_create_with_retention ck0 existing locked sc retention = Inr e0"
    and "4096 dvd length (case existing of None \<Rightarrow> [] | Some f \<Rightarrow> f)"
    and "history_ok env U K (ops1 @ ops2)" and "\<forall>x \<in> set (ops1 @ ops2). op_storable (snd x)"
    and "length (ops1 @ ops2) < 2 ^ 32"
  shows "\<exists>e1 e2. run_ops env ops1 e0 = Some (Inr (), e1) \<and> run_ops env ops2 e1 = Some (Inr (), e2) \<and>
    (length (contents (en_io e2)) < 2 ^ 64 \<and> length (contents (en_io e1)) + 64 * 1024 * 1024 \<le> length (contents (en_io e2)) \<longrightarrow>
      (\<exists>k ek rest. length ops1 \<le> k \<and> run_ops env (take k (ops1 @ ops2)) e0 = Some (Inr (), ek) \<and>
         mb_file (en_io ek) = contents (en_io ek) \<and> contents (en_io e2) = contents (en_io ek) @ rest \<and>
         recovers env K (contents (en_io ek)) (take k (ops1 @ ops2))))"
proof -
  obtain e2 where e2: "run_ops env (ops1 @ ops2) e0 = Some (Inr (), e2)"
    and d: "length (contents (en_io e2)) < 2 ^ 64 \<longrightarrow>
      (\<exists>k ek rest. k \<le> length (ops1 @ ops2) \<and> run_ops env (take k (ops1 @ ops2)) e0 = Some (Inr (), ek) \<and>
       contents (en_io e2) = contents (en_io ek) @ rest \<and> length rest < 64 * 1024 * 1024 \<and>
       (0 < k \<longrightarrow> mb_file (en_io ek) = contents (en_io ek) \<and> recovers env K (contents (en_io ek)) (take k (ops1 @ ops2))))"
    using created_durable [OF assms] by blast
  have ok: "history_ok env U K ops1" using history_ok_split [OF assms(4)] by blast
  obtain e1 where e1: "run_ops env ops1 e0 = Some (Inr (), e1)"
    using created_history [OF assms(1,2) ok] by blast
  have "\<exists>k ek rest. length ops1 \<le> k \<and> run_ops env (take k (ops1 @ ops2)) e0 = Some (Inr (), ek) \<and>
         mb_file (en_io ek) = contents (en_io ek) \<and> contents (en_io e2) = contents (en_io ek) @ rest \<and>
         recovers env K (contents (en_io ek)) (take k (ops1 @ ops2))"
    if len: "length (contents (en_io e2)) < 2 ^ 64" and grown: "length (contents (en_io e1)) + 64 * 1024 * 1024 \<le> length (contents (en_io e2))"
  proof -
    obtain k ek rest where k: "k \<le> length (ops1 @ ops2)" "run_ops env (take k (ops1 @ ops2)) e0 = Some (Inr (), ek)"
      "contents (en_io e2) = contents (en_io ek) @ rest" "length rest < 64 * 1024 * 1024"
      and r: "0 < k \<longrightarrow> mb_file (en_io ek) = contents (en_io ek) \<and> recovers env K (contents (en_io ek)) (take k (ops1 @ ops2))"
      using d len by blast
    have later: "length (contents (en_io ek)) \<le> length (contents (en_io e1))" if "k \<le> length ops1"
      using run_ops_prefix_length [OF assms(1,2) ok that] k(2) e1 that by simp
    have "length ops1 \<le> k \<and> 0 < k"
    proof (rule ccontr)
      assume "\<not> (length ops1 \<le> k \<and> 0 < k)"
      then have "length (contents (en_io ek)) \<le> length (contents (en_io e1))" by (intro later) auto
      then show False using k(3,4) grown by simp
    qed
    then show ?thesis using k r by blast
  qed
  moreover have "run_ops env ops2 e1 = Some (Inr (), e2)" using e2 e1 by (simp add: run_ops_append bindS_def)
  ultimately show ?thesis using e1 by blast
qed

lemma flushes_grow:
  assumes "writable env e"
  shows "\<exists>e'. run_ops env (replicate n (ck, FlushOp)) e = Some (Inr (), e') \<and>
    length (contents (en_io e)) + n * 4096 \<le> length (contents (en_io e')) \<and>
    length (contents (en_io e')) \<le> length (contents (en_io e)) + n * (length (Toc_serialize (en_master_toc e)) + 4120)"
  using assms
proof (induction n arbitrary: e)
  case (Suc n)
  let ?t = "Toc_serialize (en_master_toc e)"
  obtain e1 r where e1: "engine_flush env ck e = Some (Inr (), e1)" "grows e e1" "same_index e e1" "footer_ok r"
    "contents (en_io e1) = contents (en_io e) @ checkpoint_block ?t (Footer_serialize r)"
    using flush_effect [OF Suc.prems, of ck] footer_ok_checkpoint by metis
  let ?b = "checkpoint_block ?t (Footer_serialize r)"
  have "4096 dvd length ?b" "?b \<noteq> []"
    using checkpoint_block_shape [of ?t "Footer_serialize r"] e1(4) by (auto simp: FOOTER_SIZE_def)
  then have low: "4096 \<le> length ?b" by (intro dvd_imp_le) simp_all
  have "is_checkpoint_of (en_master_toc e) ?b" unfolding is_checkpoint_of_def using e1(4) by blast
  from checkpoint_block_length [OF this] have high: "length ?b \<le> length ?t + 4120" by simp
  have toc: "en_master_toc e1 = en_master_toc e" using e1(3) by (simp add: same_index_def)
  obtain e2 where "run_ops env (replicate n (ck, FlushOp)) e1 = Some (Inr (), e2)"
    "length (contents (en_io e1)) + n * 4096 \<le> length (contents (en_io e2))"
    "length (contents (en_io e2)) \<le> length (contents (en_io e1)) + n * (length ?t + 4120)"
    using Suc.IH [OF writable_grows [OF Suc.prems e1(2)]] unfolding toc by blast
  then show ?case using e1(1,5) low high by (simp add: bindS_def)
qed (simp add: okS_def)

theorem eventually_durable_witness:
  "\<exists>n e0 e1 e2 k file. engine_create example_clock None False (Some 2) = Inr e0 \<and>
     run_ops example_env [(example_clock, PutOp [1] [7, 8] UInt8 [2] [] [])] e0 = Some (Inr (), e1) \<and>
     run_ops example_env (replicate n (example_clock, FlushOp)) e1 = Some (Inr (), e2) \<and>
     length (contents (en_io e1)) + 64 * 1024 * 1024 \<le> length (contents (en_io e2)) \<and> 1 \<le> k \<and>
     recovers example_env {[1]} file
       (take k ([(example_clock, PutOp [1] [7, 8] UInt8 [2] [] [])] @ replicate n (example_clock, FlushOp)))"
proof -
  let ?E = "example_env" and ?op = "(example_clock, PutOp [1] [7, 8] UInt8 [2] [] [])"
  obtain n :: nat where n: "n = 16384" by blast
  obtain e0 e1 where e: "engine_create example_clock None False (Some 2) = Inr e0"
    "engine_put_with_retention ?E example_clock [1] [7, 8] UInt8 [2] [] [] e0 = Some (Inr (), e1)"
    "engine_inv ?E {[7, 8]} {[1]} (node_shape True) UNIV e1"
    "length (contents (en_io e1)) < 2 ^ 15" "length (Toc_serialize (en_master_toc e1)) < 2 ^ 13"
    using example_put [of "{[1]}"] by blast
  have run: "run_ops ?E [?op] e0 = Some (Inr (), e1)" using e(2) by (simp add: bindS_def okS_def)
  have w: "writable ?E e1" using e(3) by (simp add: engine_inv_def)
  obtain e2 where e2: "run_ops ?E (replicate n (example_clock, FlushOp)) e1 = Some (Inr (), e2)"
    and low: "length (contents (en_io e1)) + n * 4096 \<le> length (contents (en_io e2))"
    and high: "length (contents (en_io e2)) \<le> length (contents (en_io e1)) + n * (length (Toc_serialize (en_master_toc e1)) + 4120)"
    using flushes_grow [OF w, of n example_clock] by blast
  have grown: "length (contents (en_io e1)) + 64 * 1024 * 1024 \<le> length (contents (en_io e2))" using low by (simp add: n)
  have "n * (length (Toc_serialize (en_master_toc e1)) + 4120) \<le> n * (2 ^ 13 + 4120)" using e(5) by (intro mult_le_mono2) simp
  then have len: "length (contents (en_io e2)) < 2 ^ 64" using high e(4) by (simp add: n)
  let ?fl = "replicate n (example_clock, FlushOp)"
  have ok: "history_ok ?E {[7, 8]} {[1]} ([?op] @ ?fl)"
    using cut_into_small [of "[7, 8]" "{[7, 8]}" ?E] by (auto simp: history_ok_def is_delete_def op_admissible_def)
  have sto: "\<forall>x \<in> set ([?op] @ ?fl). op_storable (snd x)" using example_storable by (auto simp: op_storable_def)
  have few: "length ([?op] @ ?fl) < 2 ^ 32" by (simp add: n)
  have al: "4096 dvd length (case None :: bytes option of None \<Rightarrow> [] | Some f \<Rightarrow> f)" by simp
  obtain e1' e2' where r: "run_ops ?E [?op] e0 = Some (Inr (), e1')" "run_ops ?E ?fl e1' = Some (Inr (), e2')"
    and safe: "length (contents (en_io e2')) < 2 ^ 64 \<and> length (contents (en_io e1')) + 64 * 1024 * 1024 \<le> length (contents (en_io e2')) \<longrightarrow>
      (\<exists>k ek rest. length [?op] \<le> k \<and> run_ops ?E (take k ([?op] @ ?fl)) e0 = Some (Inr (), ek) \<and>
         mb_file (en_io ek) = contents (en_io ek) \<and> contents (en_io e2') = contents (en_io ek) @ rest \<and>
         recovers ?E {[1]} (contents (en_io ek)) (take k ([?op] @ ?fl)))"
    using eventually_durable [OF example_env_ok e(1) [unfolded engine_create_def] al ok sto few] by blast
  have same: "e1' = e1" using r(1) run by simp
  then have "e2' = e2" using r(2) e2 by simp
  with same safe len grown obtain k f where "length [?op] \<le> k" "recovers ?E {[1]} f (take k ([?op] @ ?fl))"
    by blast
  then have "1 \<le> k" "recovers ?E {[1]} f (take k ([?op] @ ?fl))" by simp_all
  then show ?thesis using e(1) run e2 grown by blast
qed

end
