(* ===== verification/Engine_Versions.thy ===== *)
theory Engine_Versions
  imports Engine_Reopen
begin

text \<open>
  Versions: what the version chain of a key and the entries of the table say about the puts
  of the key, and where the two part.
\<close>

section \<open>The puts of a key\<close>

fun put_of :: "bytes \<Rightarrow> engine_op \<Rightarrow> (owned_tensor \<times> RetentionPolicy) list" where
  "put_of key (PutOp k data dtype shape attrs retain) =
     (if k = key then [(OwnedTensor_new dtype shape data, parse_retention retain)] else [])"
| "put_of key _ = []"

definition puts_of :: "bytes \<Rightarrow> (clock \<times> engine_op) list \<Rightarrow> (owned_tensor \<times> RetentionPolicy) list" where
  "puts_of key ops = concat (map (put_of key \<circ> snd) ops)"

text \<open>How many versions are kept: each put adds one and applies its own policy.\<close>

definition kept_versions :: "RetentionPolicy list \<Rightarrow> nat" where
  "kept_versions ps = fold (\<lambda>p m. retained p (m + 1)) ps 0"

lemma kept_versions_snoc [simp]: "kept_versions (ps @ [p]) = retained p (kept_versions ps + 1)"
  by (simp add: kept_versions_def)

lemma kept_versions_le: "kept_versions ps \<le> length ps"
proof (induction ps rule: rev_induct)
  case (snoc p ps)
  then show ?case using retained_le [of p "kept_versions ps + 1"] by simp
qed (simp add: kept_versions_def)

lemma kept_versions_pos: "ps \<noteq> [] \<Longrightarrow> 0 < kept_versions ps"
  by (cases ps rule: rev_cases) (simp_all add: retained_pos)

section \<open>The invariant of a chain\<close>

text \<open>
  The table has one live entry for every put of the key, in order, and the chain lists the
  last versions, numbered from zero. \<open>ps\<close> are the puts so far.
\<close>

definition versions_ok :: "engine_env \<Rightarrow> bytes \<Rightarrow> (owned_tensor \<times> RetentionPolicy) list \<Rightarrow> engine \<Rightarrow> bool" where
  "versions_ok env key ps e \<longleftrightarrow>
     length (key_entries key e) = length ps \<and> (\<forall>entry \<in> set (key_entries key e). te_tombstone entry = 0) \<and>
     (length (contents (en_io e)) < 2 ^ 64 \<longrightarrow>
        list_all2 (\<lambda>entry t. entry_ok env (contents (en_io e)) entry \<and> entry_tensor env (contents (en_io e)) entry = Inr (fst t))
          (key_entries key e) ps) \<and>
     (case chain_at env e key of
        None \<Rightarrow> ps = []
      | Some vc \<Rightarrow> ps \<noteq> [] \<and> VersionChain_list_versions vc =
          map of_nat [length ps - kept_versions (map snd ps)..<length ps])"

lemma drop_versions:
  assumes "VersionChain_list_versions c = map of_nat [n - m..<n]" "m \<le> n" "n = 0 \<Longrightarrow> vc_versions c = []" "0 < n \<Longrightarrow> 0 < m"
  shows "VersionChain_list_versions (snd (VersionChain_append c now dt sh atts hs)) =
    map of_nat [Suc n - retained (vc_retention c) (m + 1)..<Suc n]"
proof -
  have l: "length (vc_versions c) = m"
    using arg_cong [OF assms(1), of length] assms(2) by (simp add: VersionChain_list_versions_def)
  have next': "next_version_id c = of_nat n"
  proof (cases "n = 0")
    case True
    then show ?thesis using assms(3) by (simp add: next_version_id_def VersionChain_latest_def)
  next
    case False
    then have ne: "vc_versions c \<noteq> []" using assms(4) l by auto
    have "ve_version_id (last (vc_versions c)) = last (map of_nat [n - m..<n])"
      unfolding assms(1) [symmetric] VersionChain_list_versions_def by (simp add: last_map ne)
    also have "\<dots> = of_nat (n - 1)" using assms(4) False by (simp add: last_map)
    finally have "ve_version_id (last (vc_versions c)) + 1 = of_nat (n - 1) + 1" by simp
    also have "\<dots> = of_nat n" using False by (metis Suc_pred' gr0I of_nat_Suc add.commute)
    finally show ?thesis using ne by (simp add: next_version_id_def VersionChain_latest_def)
  qed
  let ?k = "Suc m - retained (vc_retention c) (m + 1)"
  have "VersionChain_list_versions (snd (VersionChain_append c now dt sh atts hs)) =
      drop ?k (map of_nat [n - m..<n] @ [of_nat n])"
    by (simp add: VersionChain_append_eq VersionChain_list_versions_def l drop_map [symmetric] next'
        VersionEntry_new_def assms(1) [unfolded VersionChain_list_versions_def] del: drop_append)
  also have "map of_nat [n - m..<n] @ [of_nat n :: u32] = map of_nat [n - m..<Suc n]" using assms(2) by simp
  finally show ?thesis using retained_le [of "vc_retention c" "m + 1"] assms(2)
    by (simp add: drop_map del: upt_Suc)
qed

lemma versions_ok_put:
  assumes v: "versions_ok env key ps e" and inv: "engine_inv env U K P A e"
    and put: "put_outcome env U P A ck k data dtype shape attrs retention e e'"
  shows "versions_ok env key (ps @ (if k = key then [(OwnedTensor_new dtype shape data, retention)] else [])) e'"
proof -
  obtain refs segs hs where g: "grows e e'" and data: "concat segs = data"
    and toc: "en_master_toc e' = Toc_add_entry (en_master_toc e) (TocEntry_new (ev_xxh64 env) k dtype shape attrs refs)"
    and ch: "\<And>j. chain_at env e' j = (if j = k then Some (snd (VersionChain_append
           ((case chain_at env e k of Some vc \<Rightarrow> vc | None \<Rightarrow> VersionChain_new k retention)\<lparr>vc_retention := retention\<rparr>)
           (ck_secs ck) dtype shape attrs hs)) else chain_at env e j)"
    and ok: "length (contents (en_io e')) < 2 ^ 64 \<Longrightarrow> store_ok env U (contents (en_io e)) (en_content_store e) \<Longrightarrow>
        list_all2 (holds env (contents (en_io e'))) refs segs"
    using put unfolding put_outcome_def by blast
  let ?new = "TocEntry_new (ev_xxh64 env) k dtype shape attrs refs"
  have ke: "key_entries key e' = key_entries key e @ (if k = key then [?new] else [])"
    by (simp add: key_entries_def toc)
  obtain d where d: "contents (en_io e') = contents (en_io e) @ d" using g by (auto simp: grows_def)
  have old: "list_all2 (\<lambda>entry t. entry_ok env (contents (en_io e')) entry \<and> entry_tensor env (contents (en_io e')) entry = Inr (fst t))
      (key_entries key e) ps" if len: "length (contents (en_io e')) < 2 ^ 64"
  proof -
    have "list_all2 (\<lambda>entry t. entry_ok env (contents (en_io e)) entry \<and> entry_tensor env (contents (en_io e)) entry = Inr (fst t))
      (key_entries key e) ps" using v engine_inv_grows_length [OF g len] by (simp add: versions_ok_def)
    then show ?thesis unfolding d by (rule list_all2_mono) (auto simp: entry_ok_append entry_tensor_append)
  qed
  have new: "entry_ok env (contents (en_io e')) ?new \<and>
      entry_tensor env (contents (en_io e')) ?new = Inr (OwnedTensor_new dtype shape data)"
    if len: "length (contents (en_io e')) < 2 ^ 64"
  proof -
    have "list_all2 (holds env (contents (en_io e'))) (te_chunk_refs ?new) segs"
      using ok [OF len] inv engine_inv_grows_length [OF g len] by (simp add: engine_inv_def)
    then show ?thesis using entry_tensor_holds [of env _ ?new segs] data by (auto simp: entry_ok_def)
  qed
  show ?thesis
  proof (cases "k = key")
    case False
    then show ?thesis using v old unfolding versions_ok_def by (simp add: ke ch split: option.splits)
  next
    case True
    let ?c = "(case chain_at env e k of Some vc \<Rightarrow> vc | None \<Rightarrow> VersionChain_new k retention)\<lparr>vc_retention := retention\<rparr>"
    let ?m = "kept_versions (map snd ps)"
    have "VersionChain_list_versions ?c = map of_nat [length ps - ?m..<length ps]" "ps = [] \<Longrightarrow> vc_versions ?c = []"
      using v True unfolding versions_ok_def
      by (auto simp: VersionChain_list_versions_def VersionChain_new_def kept_versions_def split: option.splits)
    moreover have "?m \<le> length ps" "0 < length ps \<Longrightarrow> 0 < ?m"
      using kept_versions_le [of "map snd ps"] kept_versions_pos [of "map snd ps"] by auto
    ultimately have "VersionChain_list_versions (snd (VersionChain_append ?c (ck_secs ck) dtype shape attrs hs)) =
        map of_nat [Suc (length ps) - retained retention (?m + 1)..<Suc (length ps)]"
      using drop_versions [of ?c "length ps" ?m "ck_secs ck" dtype shape attrs hs] by simp
    then show ?thesis using v old new True unfolding versions_ok_def
      by (auto simp: ke ch list_all2_append simp del: upt_Suc)
  qed
qed

lemma versions_ok_same:
  assumes v: "versions_ok env key ps e" and sh: "shards_ok P A (en_shards e)" and g: "grows e e'" "same_index e e'"
  shows "versions_ok env key ps e'"
proof -
  have ke: "key_entries key e' = key_entries key e" using g(2) by (simp add: key_entries_def same_index_def)
  obtain d where d: "contents (en_io e') = contents (en_io e) @ d" using g(1) by (auto simp: grows_def)
  have "list_all2 (\<lambda>entry t. entry_ok env (contents (en_io e')) entry \<and> entry_tensor env (contents (en_io e')) entry = Inr (fst t))
      (key_entries key e) ps" if len: "length (contents (en_io e')) < 2 ^ 64"
  proof -
    have "list_all2 (\<lambda>entry t. entry_ok env (contents (en_io e)) entry \<and> entry_tensor env (contents (en_io e)) entry = Inr (fst t))
      (key_entries key e) ps" using v engine_inv_grows_length [OF g(1) len] by (simp add: versions_ok_def)
    then show ?thesis unfolding d by (rule list_all2_mono) (auto simp: entry_ok_append entry_tensor_append)
  qed
  then show ?thesis using v unfolding versions_ok_def by (simp add: ke chain_at_same [OF g(2) sh])
qed

lemma versions_ok_delete_other:
  assumes v: "versions_ok env key ps e" and del: "delete_outcome env P A k e e'" and "k \<noteq> key"
  shows "versions_ok env key ps e'"
proof -
  have "filter (\<lambda>t. te_key t = key) (map (mark k) es) = filter (\<lambda>t. te_key t = key) es" for es
    by (induction es) (use assms(3) in \<open>auto simp: mark_def\<close>)
  then have "key_entries key e' = key_entries key e" using del by (simp add: key_entries_def delete_outcome_def)
  then show ?thesis using v del assms(3) by (simp add: versions_ok_def delete_outcome_def)
qed

lemma history_versions:
  assumes "history_run env U P A ops e e'" and "engine_inv env U K P A e" "versions_ok env key ps e"
    and "\<forall>x \<in> set ops. op_admissible env U K A (snd x)" "\<forall>ck. (ck, DeleteOp key) \<notin> set ops"
  shows "versions_ok env key (ps @ puts_of key ops) e'"
  using assms
proof (induction arbitrary: ps rule: history_run.induct)
  case (run_step x e e1 xs e2)
  obtain ck op where x: "x = (ck, op)" by (cases x)
  have inv1: "engine_inv env U K P A e1"
    using step_effect_refines(1) [OF run_step.prems(1) _ run_step.hyps(1) [unfolded x]] run_step.prems(3) by (simp add: x)
  have "versions_ok env key (ps @ put_of key op) e1"
  proof (cases op)
    case (PutOp k data dtype shape attrs retain)
    then have "put_outcome env U P A ck k data dtype shape attrs (parse_retention retain) e e1"
      using run_step.hyps(1) by (simp add: x step_effect_def)
    then show ?thesis using versions_ok_put [OF run_step.prems(2,1)] PutOp by auto
  next
    case (DeleteOp k)
    then have "k \<noteq> key" using run_step.prems(4) x by auto
    then show ?thesis using versions_ok_delete_other [OF run_step.prems(2)] run_step.hyps(1) DeleteOp
      by (auto simp: x step_effect_def)
  qed (use versions_ok_same [OF run_step.prems(2)] run_step.prems(1) run_step.hyps(1) in
      \<open>auto simp: x step_effect_def engine_inv_def\<close>)
  then show ?case using run_step.IH [OF inv1, of "ps @ put_of key op"] run_step.prems(3,4) by (simp add: puts_of_def x)
qed (simp add: puts_of_def)

section \<open>Reading versions\<close>

lemma map_of_nat_mem:
  "n \<le> 2 ^ 32 \<Longrightarrow> (v :: u32) \<in> set (map of_nat [a..<n]) \<longleftrightarrow> a \<le> unat v \<and> unat v < n"
proof
  assume n: "n \<le> 2 ^ 32" and "v \<in> set (map of_nat [a..<n])"
  then obtain i where "v = of_nat i" "a \<le> i" "i < n" by auto
  then show "a \<le> unat v \<and> unat v < n" using n by (simp add: unat_of_nat)
next
  assume "a \<le> unat v \<and> unat v < n"
  then have "unat v \<in> set [a..<n]" "of_nat (unat v) = v" by simp_all
  then show "v \<in> set (map of_nat [a..<n])" by (metis image_eqI list.set_map)
qed

lemma live_key_entries:
  assumes "\<forall>entry \<in> set (key_entries key e). te_tombstone entry = 0"
  shows "live (toc_entries (en_master_toc e)) key = (if key_entries key e = [] then None else Some (last (key_entries key e)))"
proof -
  have "latest es key = (if filter (\<lambda>t. te_key t = key) es = [] then None else Some (last (filter (\<lambda>t. te_key t = key) es)))" for es
    by (induction es rule: rev_induct) (auto simp: filter_empty_conv)
  then have "latest (toc_entries (en_master_toc e)) key =
      (if key_entries key e = [] then None else Some (last (key_entries key e)))" by (simp add: key_entries_def)
  then show ?thesis using assms by (simp add: live_def)
qed

lemma chain_versions:
  assumes "versions_ok env key ps e" "chain_at env e key = Some vc"
  shows "ps \<noteq> [] \<and> VersionChain_list_versions vc = map of_nat [length ps - kept_versions (map snd ps)..<length ps]"
  using assms by (simp add: versions_ok_def)

lemma versions_lookup:
  assumes "versions_ok env key ps e" "engine_inv env U K P A e" "in_bounds e" "inj_on (\<lambda>k. ev_xxh64 env k 0) K" "key \<in> K"
  shows "Toc_lookup (ev_xxh64 env) (en_master_toc e) key = None \<longleftrightarrow> ps = []"
proof -
  have "\<forall>entry \<in> set (key_entries key e). te_tombstone entry = 0" "length (key_entries key e) = length ps"
    using assms(1) by (simp_all add: versions_ok_def)
  then show ?thesis using Toc_lookup_inv [OF assms(2-5)] live_key_entries by auto
qed

lemma list_versions_spec:
  assumes v: "versions_ok env key ps e" and inv: "engine_inv env U K P A e" and b: "in_bounds e"
    and inj: "inj_on (\<lambda>k. ev_xxh64 env k 0) K" and key: "key \<in> K"
  shows "engine_list_versions env key e = Some
    (if ps = [] then Inl (KeyNotFound key) else Inr (map of_nat [length ps - kept_versions (map snd ps)..<length ps]))"
proof -
  have "shards_ok P A (en_shards e)" using inv by (simp add: engine_inv_def)
  note fc = find_chain_eq [OF this, of env key]
  show ?thesis
  proof (cases "chain_at env e key")
    case None
    then show ?thesis using v versions_lookup [OF v inv b inj key] by (simp add: engine_list_versions_def fc versions_ok_def)
  next
    case (Some vc)
    note c = chain_versions [OF v this]
    have "0 < kept_versions (map snd ps)" "0 < length ps" using c kept_versions_pos [of "map snd ps"] by simp_all
    then have "length ps - kept_versions (map snd ps) < length ps" by (rule diff_less)
    then have "vc_versions vc \<noteq> []"
      using arg_cong [OF conjunct2 [OF c], of length] unfolding VersionChain_list_versions_def by auto
    then show ?thesis using c Some by (simp add: engine_list_versions_def fc)
  qed
qed

lemma get_version_spec:
  assumes v: "versions_ok env key ps e" and inv: "engine_inv env U K P A e" and b: "in_bounds e"
    and inj: "inj_on (\<lambda>k. ev_xxh64 env k 0) K" and key: "key \<in> K" and ps: "length ps < 2 ^ 32"
  defines "oldest \<equiv> length ps - kept_versions (map snd ps)"
  shows "\<exists>e'. engine_get_version env key ver e = Some
      (if ps = [] then Inl (KeyNotFound key)
       else if oldest \<le> unat ver \<and> unat ver < length ps then Inr (Some (fst (ps ! unat ver)))
       else Inl (VersionNotFound key ver), e')"
proof -
  have sh: "shards_ok P A (en_shards e)" and io: "io_inv (en_io e)" using inv by (simp_all add: engine_inv_def writable_def)
  note fc = find_chain_eq [OF sh, of env key] and lk = versions_lookup [OF v inv b inj key]
  have len: "length (key_entries key e) = length ps" using v by (simp add: versions_ok_def)
  have data: "entry_tensor env (contents (en_io e)) (key_entries key e ! i) = Inr (fst (ps ! i))" if "i < length ps" for i
    using v b that by (simp add: versions_ok_def in_bounds_def list_all2_conv_all_nth)
  show ?thesis
  proof (cases "chain_at env e key")
    case None
    then show ?thesis using v lk
      by (simp add: engine_get_version_def fc versions_ok_def check_versions_def resS_def bindS_def errS_def)
  next
    case (Some vc)
    then have c: "ps \<noteq> []" "VersionChain_list_versions vc = map of_nat [oldest..<length ps]"
      using chain_versions [OF v] by (simp_all add: oldest_def)
    have mem: "ver \<in> set (VersionChain_list_versions vc) \<longleftrightarrow> oldest \<le> unat ver \<and> unat ver < length ps"
      unfolding c(2) using ps by (intro map_of_nat_mem) simp
    show ?thesis
    proof (cases "oldest \<le> unat ver \<and> unat ver < length ps")
      case True
      obtain e' where "engine_read_tensor_from_entry env (key_entries key e ! unat ver) e = Some (Inr (fst (ps ! unat ver)), e')"
        using read_tensor_spec [OF io] data True by metis
      moreover obtain entry where "Toc_lookup (ev_xxh64 env) (en_master_toc e) key = Some entry" using lk c(1) by auto
      ultimately show ?thesis using True c(1) mem len Some
        by (simp add: engine_get_version_def fc check_versions_def resS_def bindS_def okS_def)
    next
      case False
      then show ?thesis using c(1) mem Some
        by (simp add: engine_get_version_def fc check_versions_def resS_def bindS_def)
    qed
  qed
qed

text \<open>
  C3: version history. After any history that does not delete a key, the versions of the key
  are numbered by its puts in order, from zero; each put keeps as many of the newest as its
  retention policy allows (one, the last n, or all). Listing answers exactly those numbers,
  fetching one of them answers the tensor of that very put, byte for byte, and fetching any
  other number is an error; a key that was never put is not found.
\<close>

theorem version_history:
  assumes "env_ok env" and "engine_create_with_retention ck existing locked sc retention = Inr e0"
    and "history_ok env U K ops" and "key \<in> K" and "\<forall>ck. (ck, DeleteOp key) \<notin> set ops" and "length ops < 2 ^ 32"
  defines "ps \<equiv> puts_of key ops"
  defines "oldest \<equiv> length ps - kept_versions (map snd ps)"
  shows "\<exists>e. run_ops env ops e0 = Some (Inr (), e) \<and>
    (length (contents (en_io e)) < 2 ^ 64 \<longrightarrow>
      engine_list_versions env key e = Some (if ps = [] then Inl (KeyNotFound key) else Inr (map of_nat [oldest..<length ps])) \<and>
      (\<forall>v. \<exists>e'. engine_get_version env key v e = Some
         (if ps = [] then Inl (KeyNotFound key)
          else if oldest \<le> unat v \<and> unat v < length ps then Inr (Some (fst (ps ! unat v)))
          else Inl (VersionNotFound key v), e')))"
proof -
  note c = engine_create_spec [OF assms(2,1)]
  obtain e P A where e: "run_ops env ops e0 = Some (Inr (), e)" "\<forall>x \<in> set ops. op_admissible env U K A (snd x)"
    "history_run env U P A ops e0 e" "engine_inv env U K P A e"
    using created_history [OF assms(1-3)] by blast
  have inj: "inj_on (\<lambda>k. ev_xxh64 env k 0) K" using assms(3) by (simp add: history_ok_def)
  have "versions_ok env key [] e0" by (simp add: versions_ok_def key_entries_def c(3,6))
  then have v: "versions_ok env key ps e"
    using history_versions [OF e(3) c(1) _ e(2) assms(5), of "[]"] by (simp add: ps_def)
  have tl: "length (toc_entries (en_master_toc e)) < 2 ^ 32"
    using history_run_table_length [OF e(3)] assms(6) by (simp add: c(3))
  moreover have "length ps \<le> length (toc_entries (en_master_toc e))"
    using v by (metis versions_ok_def key_entries_def length_filter_le)
  ultimately have l: "length ps < 2 ^ 32" by simp
  have "in_bounds e" if "length (contents (en_io e)) < 2 ^ 64" using that tl by (simp add: in_bounds_def)
  then show ?thesis using e(1) get_version_spec [OF v e(4) _ inj assms(4) l, folded oldest_def]
      list_versions_spec [OF v e(4) _ inj assms(4), folded oldest_def] by blast
qed

theorem version_history_witness:
  "\<exists>e0 e e'. engine_create example_clock None False (Some 2) = Inr e0 \<and>
     run_ops example_env [(example_clock, PutOp [1] [7, 8] UInt8 [2] [] [])] e0 = Some (Inr (), e) \<and>
     engine_list_versions example_env [1] e = Some (Inr [0]) \<and>
     engine_get_version example_env [1] 0 e = Some (Inr (Some (OwnedTensor_new UInt8 [2] [7, 8])), e')"
proof -
  let ?op = "PutOp [1] [7, 8] UInt8 [2] [] []"
  obtain e0 e where e: "engine_create example_clock None False (Some 2) = Inr e0"
    "engine_put_with_retention example_env example_clock [1] [7, 8] UInt8 [2] [] [] e0 = Some (Inr (), e)"
    "length (contents (en_io e)) < 2 ^ 15"
    using example_put [of "{[1]}"] by blast
  have "history_ok example_env {[7, 8]} {[1]} [(example_clock, ?op)]" by (rule example_history)
  moreover have r: "run_ops example_env [(example_clock, ?op)] e0 = Some (Inr (), e)" using e(2) by (simp add: bindS_def okS_def)
  moreover have ps: "puts_of [1] [(example_clock, ?op)] = [(OwnedTensor_new UInt8 [2] [7, 8], parse_retention [])]"
    by (simp add: puts_of_def)
  moreover have k: "kept_versions [parse_retention []] = 1"
    by (simp add: kept_versions_def parse_retention_def starts_with_def str_def)
  ultimately obtain e1 where e1: "run_ops example_env [(example_clock, ?op)] e0 = Some (Inr (), e1)"
    "length (contents (en_io e1)) < 2 ^ 64 \<Longrightarrow> engine_list_versions example_env [1] e1 = Some (Inr [0]) \<and>
      (\<forall>v. \<exists>e'. engine_get_version example_env [1] v e1 = Some (if 0 \<le> unat v \<and> unat v < 1
         then Inr (Some (fst ([(OwnedTensor_new UInt8 [2] [7, 8], parse_retention [])] ! unat v)))
         else Inl (VersionNotFound [1] v), e'))"
    using version_history [OF example_env_ok e(1) [unfolded engine_create_def], of "{[7, 8]}" "{[1]}" "[(example_clock, ?op)]" "[1]",
        unfolded ps] by (simp add: k)
  then have "e1 = e" using r by simp
  then have "engine_list_versions example_env [1] e = Some (Inr [0])"
    "\<exists>e'. engine_get_version example_env [1] 0 e = Some (Inr (Some (OwnedTensor_new UInt8 [2] [7, 8])), e')"
    using e1(2) e(3) by (simp, auto dest!: spec [of _ 0])
  then show ?thesis using e(1) r by blast
qed

section \<open>Versions after a deletion\<close>

lemma versions_ok_deleted:
  assumes v: "versions_ok env key ps e" and del: "delete_outcome env P A key e e'"
  shows "length (key_entries key e') = length ps" "chain_at env e' key = None"
    "length (contents (en_io e')) < 2 ^ 64 \<Longrightarrow> i < length ps \<Longrightarrow>
       entry_ok env (contents (en_io e')) (key_entries key e' ! i) \<and>
       entry_tensor env (contents (en_io e')) (key_entries key e' ! i) = Inr (fst (ps ! i))"
proof -
  have "filter (\<lambda>t. te_key t = key) (map (mark key) es) = map (mark key) (filter (\<lambda>t. te_key t = key) es)" for es
    by (induction es) auto
  then have ke: "key_entries key e' = map (mark key) (key_entries key e)"
    using del by (simp add: key_entries_def delete_outcome_def)
  then show "length (key_entries key e') = length ps" using v by (simp add: versions_ok_def)
  show "chain_at env e' key = None" using del by (simp add: delete_outcome_def)
  show "entry_ok env (contents (en_io e')) (key_entries key e' ! i) \<and>
       entry_tensor env (contents (en_io e')) (key_entries key e' ! i) = Inr (fst (ps ! i))"
    if "length (contents (en_io e')) < 2 ^ 64" "i < length ps"
    using v del that by (simp add: ke versions_ok_def delete_outcome_def list_all2_conv_all_nth)
qed

text \<open>A put, a deletion and another put of a key: one version, two entries.\<close>

lemma deleted_put_again:
  assumes inv: "engine_inv env U K P A e0" and e0: "versions_ok env key [] e0"
    and p1: "put_outcome env U P A c1 key d1 dt1 sh1 a1 r1 e0 e1" and del: "delete_outcome env P A key e1 e2"
    and p2: "put_outcome env U P A c3 key d2 dt2 sh2 a2 r2 e2 e"
  shows "\<exists>vc. chain_at env e key = Some vc \<and> VersionChain_list_versions vc = [0]"
    and "key_entries key e \<noteq> []"
    and "length (contents (en_io e)) < 2 ^ 64 \<Longrightarrow>
      entry_tensor env (contents (en_io e)) (key_entries key e ! 0) = Inr (OwnedTensor_new dt1 sh1 d1)"
proof -
  have v1: "versions_ok env key [(OwnedTensor_new dt1 sh1 d1, r1)] e1"
    using versions_ok_put [OF e0 inv p1] by simp
  note d = versions_ok_deleted [OF v1 del]
  let ?vc = "VersionChain_new key r2\<lparr>vc_retention := r2\<rparr>"
  obtain refs hs where toc: "en_master_toc e = Toc_add_entry (en_master_toc e2) (TocEntry_new (ev_xxh64 env) key dt2 sh2 a2 refs)"
    and ch: "chain_at env e key = Some (snd (VersionChain_append ?vc (ck_secs c3) dt2 sh2 a2 hs))" and g: "grows e2 e"
    using p2 d(2) unfolding put_outcome_def by auto
  have "VersionChain_list_versions (snd (VersionChain_append ?vc (ck_secs c3) dt2 sh2 a2 hs)) = [0]"
    using drop_versions [of ?vc 0 0 "ck_secs c3" dt2 sh2 a2 hs] retained_pos [of 1 r2] retained_le [of r2 1]
    by (simp add: VersionChain_new_def VersionChain_list_versions_def)
  then show "\<exists>vc. chain_at env e key = Some vc \<and> VersionChain_list_versions vc = [0]" using ch by blast
  have ke: "key_entries key e = key_entries key e2 @ [TocEntry_new (ev_xxh64 env) key dt2 sh2 a2 refs]"
    by (simp add: key_entries_def toc)
  then show "key_entries key e \<noteq> []" by simp
  assume len: "length (contents (en_io e)) < 2 ^ 64"
  obtain z where z: "contents (en_io e) = contents (en_io e2) @ z" using g by (auto simp: grows_def)
  have "length (contents (en_io e2)) < 2 ^ 64" using g len by (rule engine_inv_grows_length)
  then show "entry_tensor env (contents (en_io e)) (key_entries key e ! 0) = Inr (OwnedTensor_new dt1 sh1 d1)"
    using d(3) [of 0] d(1) by (simp add: ke z nth_append entry_tensor_append)
qed

text \<open>
  C40: a deleted version comes back. Deleting a key forgets its version chain but leaves its
  marked entries in the table, and fetching a version indexes all entries of the key. After
  a put, a deletion and another put of the same key, the engine lists version 0 only, a get
  answers the second tensor, but fetching version 0 answers the first, deleted one.
\<close>

theorem deleted_version_visible:
  assumes "env_ok env" and "engine_create_with_retention ck existing locked sc retention = Inr e0"
    and "history_ok env U K ops" and "key \<in> K"
    and ops: "ops = [(c1, PutOp key d1 dt1 sh1 a1 r1), (c2, DeleteOp key), (c3, PutOp key d2 dt2 sh2 a2 r2)]"
  shows "\<exists>e. run_ops env ops e0 = Some (Inr (), e) \<and> (length (contents (en_io e)) < 2 ^ 64 \<longrightarrow>
    engine_list_versions env key e = Some (Inr [0]) \<and>
    (\<exists>e'. engine_get env key e = Some (Inr (Some (OwnedTensor_new dt2 sh2 d2)), e')) \<and>
    (\<exists>e'. engine_get_version env key 0 e = Some (Inr (Some (OwnedTensor_new dt1 sh1 d1)), e')))"
proof -
  note c = engine_create_spec [OF assms(2,1)]
  obtain e P A where e: "run_ops env ops e0 = Some (Inr (), e)" "\<forall>x \<in> set ops. op_admissible env U K A (snd x)"
    "history_run env U P A ops e0 e" "engine_inv env U K P A e"
    "length (contents (en_io e)) < 2 ^ 64 \<longrightarrow> (\<forall>key. engine_abs env e key = last_write (history ops) key None)"
    using created_history [OF assms(1-3)] by blast
  have inj: "inj_on (\<lambda>k. ev_xxh64 env k 0) K" using assms(3) by (simp add: history_ok_def)
  obtain e1 e2 where p1: "put_outcome env U P A c1 key d1 dt1 sh1 a1 (parse_retention r1) e0 e1"
    and del: "delete_outcome env P A key e1 e2"
    and p2: "put_outcome env U P A c3 key d2 dt2 sh2 a2 (parse_retention r2) e2 e"
    using e(3) unfolding ops by (auto elim!: history_runE simp: step_effect_def)
  have "versions_ok env key [] e0" by (simp add: versions_ok_def key_entries_def c(3,6))
  note twice = deleted_put_again [OF c(1) this p1 del p2]
  obtain vc where vc: "chain_at env e key = Some vc" "VersionChain_list_versions vc = [0]" using twice(1) by blast
  have sh: "shards_ok P A (en_shards e)" and io: "io_inv (en_io e)" using e(4) by (simp_all add: engine_inv_def writable_def)
  note fc = find_chain_eq [OF sh, of env key]
  have list: "engine_list_versions env key e = Some (Inr [0])"
    using vc by (auto simp: engine_list_versions_def fc VersionChain_list_versions_def)
  have "(\<exists>e'. engine_get env key e = Some (Inr (Some (OwnedTensor_new dt2 sh2 d2)), e')) \<and>
    (\<exists>e'. engine_get_version env key 0 e = Some (Inr (Some (OwnedTensor_new dt1 sh1 d1)), e'))"
    if len: "length (contents (en_io e)) < 2 ^ 64"
  proof
    have abs: "engine_abs env e key = Some (OwnedTensor_new dt2 sh2 d2, a2)" using e(5) len by (simp add: history_def ops)
    have b: "in_bounds e" using len history_run_table_length [OF e(3)] by (simp add: in_bounds_def c(3) ops)
    show "\<exists>e'. engine_get env key e = Some (Inr (Some (OwnedTensor_new dt2 sh2 d2)), e')"
      using engine_get_abs [OF e(4) b inj assms(4)] abs len by auto
    obtain x where lk: "Toc_lookup (ev_xxh64 env) (en_master_toc e) key = Some x"
      using abs unfolding Toc_lookup_inv [OF e(4) b inj assms(4)] by (auto simp: engine_abs_def split: option.splits)
    obtain e' where "engine_read_tensor_from_entry env (key_entries key e ! 0) e = Some (Inr (OwnedTensor_new dt1 sh1 d1), e')"
      using read_tensor_spec [OF io] twice(3) [OF len] by metis
    then show "\<exists>e'. engine_get_version env key 0 e = Some (Inr (Some (OwnedTensor_new dt1 sh1 d1)), e')"
      using lk twice(2) by (simp add: engine_get_version_def fc vc check_versions_def resS_def bindS_def okS_def)
  qed
  then show ?thesis using e(1) list by blast
qed

text \<open>How much a put adds to the table and to the archive.\<close>

lemma toc_length_add: "length (Toc_serialize (Toc_add_entry t x)) = length (Toc_serialize t) + length (toc_entry_bytes x)"
  by (simp add: Toc_serialize_def)

lemma toc_length_tombstone: "length (Toc_serialize (Toc_tombstone t key)) = length (Toc_serialize t)"
proof -
  have "length (toc_entry_bytes (mark key x)) = length (toc_entry_bytes x)" for x by (simp add: toc_entry_length)
  then have "length (concat (map toc_entry_bytes (map (mark key) es))) = length (concat (map toc_entry_bytes es))" for es
    by (induction es) simp_all
  then show ?thesis by (simp add: Toc_serialize_def)
qed

lemma put_outcome_size:
  assumes put: "put_outcome env U P A ck key data dtype shape attrs retention e e'" and "fh_chunk_align (en_header e) = 4096"
  shows "length (Toc_serialize (en_master_toc e')) \<le> length (Toc_serialize (en_master_toc e)) + 19 + length key +
      4 * length shape + length (Attrs_serialize (entry_attrs attrs)) + 14 * (length data div 32768 + 1)"
    and "length (contents (en_io e')) \<le> length (contents (en_io e)) + 2 * length data + 4180 * (length data div 32768 + 1) +
      length (Toc_serialize (en_master_toc e')) + 4120"
    and "en_header e' = en_header e"
proof -
  obtain refs where "length refs \<le> length data div 32768 + 1"
    "en_master_toc e' = Toc_add_entry (en_master_toc e) (TocEntry_new (ev_xxh64 env) key dtype shape attrs refs)"
    using put unfolding put_outcome_def by blast
  then show "length (Toc_serialize (en_master_toc e')) \<le> length (Toc_serialize (en_master_toc e)) + 19 + length key +
      4 * length shape + length (Attrs_serialize (entry_attrs attrs)) + 14 * (length data div 32768 + 1)"
    by (simp add: toc_length_add toc_entry_length)
  obtain body tail where b: "contents (en_io e') = contents (en_io e) @ body @ tail"
    "length body \<le> 2 * length data + (84 + unat (fh_chunk_align (en_header e))) * (length data div 32768 + 1)"
    "tail = [] \<or> is_checkpoint_of (en_master_toc e') tail"
    using put unfolding put_outcome_def put_appends_def by blast
  then show "length (contents (en_io e')) \<le> length (contents (en_io e)) + 2 * length data + 4180 * (length data div 32768 + 1) +
      length (Toc_serialize (en_master_toc e')) + 4120"
    using checkpoint_block_length [of "en_master_toc e'" tail] assms(2) by auto
  show "en_header e' = en_header e" using put by (simp add: put_outcome_def grows_def)
qed

theorem deleted_version_visible_witness:
  "\<exists>e0 e e'. engine_create example_clock None False (Some 2) = Inr e0 \<and>
     run_ops example_env [(example_clock, PutOp [1] [7, 8] UInt8 [2] [] []), (example_clock, DeleteOp [1]),
       (example_clock, PutOp [1] [9] Int8 [1] [] [])] e0 = Some (Inr (), e) \<and>
     engine_get_version example_env [1] 0 e = Some (Inr (Some (OwnedTensor_new UInt8 [2] [7, 8])), e')"
proof -
  let ?E = "example_env" and ?ck = "example_clock" and ?U = "{[7, 8], [9 :: u8]}"
  let ?ops = "[(?ck, PutOp [1] [7, 8] UInt8 [2] [] []), (?ck, DeleteOp [1]), (?ck, PutOp [1] [9] Int8 [1] [] [])]"
  obtain e0 where e0: "engine_create ?ck None False (Some 2) = Inr e0" "length (contents (en_io e0)) < 2 ^ 13"
    using example_created by blast
  note c = engine_create_spec [OF e0(1) [unfolded engine_create_def] example_env_ok]
  have "inj_on (ev_hash128 ?E) ?U" by (simp add: example_env_def)
  moreover have "cut_into ?E ?U [7, 8]" "cut_into ?E ?U [9]" by (simp_all add: cut_into_small)
  moreover have "(1 :: u8) \<in> alphabet [1]" by (simp add: alphabet_def)
  ultimately have ok: "history_ok ?E ?U {[1]} ?ops"
    unfolding history_ok_def by (auto simp: op_admissible_def intro!: exI [of _ "[1]"])
  obtain e P A where e: "run_ops ?E ?ops e0 = Some (Inr (), e)" "history_run ?E ?U P A ?ops e0 e"
    using created_history [OF example_env_ok e0(1) [unfolded engine_create_def] ok] by blast
  obtain e1 e2 where s: "put_outcome ?E ?U P A ?ck [1] [7, 8] UInt8 [2] [] (parse_retention []) e0 e1"
    "delete_outcome ?E P A [1] e1 e2" "put_outcome ?E ?U P A ?ck [1] [9] Int8 [1] [] (parse_retention []) e2 e"
    using e(2) by (auto elim!: history_runE simp: step_effect_def)
  have h: "fh_chunk_align (en_header e0) = 4096"
    using c(5) by (auto simp: FileHeader_new_def DEFAULT_CHUNK_ALIGN_def)
  have a: "length (Attrs_serialize (entry_attrs [])) \<le> 8" by (simp add: entry_attrs_def Attrs_serialize_def Attrs_new_def)
  have t0: "length (Toc_serialize (en_master_toc e0)) = 4" by (simp add: Toc_serialize_def c(3))
  note p1 = put_outcome_size [OF s(1) h]
  have d: "en_io e2 = en_io e1" "en_header e2 = en_header e1" "length (Toc_serialize (en_master_toc e2)) = length (Toc_serialize (en_master_toc e1))"
    using s(2) by (simp_all add: delete_outcome_def toc_length_tombstone)
  have h2: "fh_chunk_align (en_header e2) = 4096" using h p1(3) d(2) by simp
  note p2 = put_outcome_size [OF s(3) h2]
  have "length (contents (en_io e)) < 2 ^ 64" using p1(1,2) p2(1,2) t0 a d e0(2) by simp
  then show ?thesis
    using deleted_version_visible [OF example_env_ok e0(1) [unfolded engine_create_def] ok _ refl] e(1) e0(1) by auto
qed

end
