(* ===== verification/Database.thy ===== *)
theory Database
  imports Engine_Versions Engine_Durable Engine_Listing
begin

text \<open>
  The public interface, \<open>crates/tpx-engine/src/{batch,database}.rs\<close>: the batch reader with its
  access history, and the database object, which owns an engine. A database value is its
  engine; the calls that only pass on to the engine are the bundle \<open>Db_passes\<close>. When a database
  goes out of scope, \<open>Drop\<close> closes the engine and ignores the outcome.
\<close>

section \<open>Access patterns\<close>

type_synonym predictor = "(u64 \<times> u64, u64 list) hash_map"

definition PatternPredictor_new :: predictor where
  "PatternPredictor_new = []"

fun record_sequence :: "u64 list \<Rightarrow> predictor \<Rightarrow> predictor" where
  "record_sequence (a # b # c # seq) p =
     record_sequence (b # c # seq)
       (AList.update (a, b) ((case map_of p (a, b) of Some xs \<Rightarrow> xs | None \<Rightarrow> []) @ [c]) p)"
| "record_sequence _ p = p"

definition predict_next :: "predictor \<Rightarrow> u64 \<Rightarrow> u64 \<Rightarrow> u64 option" where
  "predict_next p k1 k2 =
     (case map_of p (k1, k2) of
        None \<Rightarrow> None
      | Some candidates \<Rightarrow> if candidates = [] then None else Some (last candidates))"

record prefetch_history =
  ph_recent_sequences :: "u64 list list"
  ph_predictor :: predictor

definition PrefetchHistory_new :: prefetch_history where
  "PrefetchHistory_new = \<lparr>ph_recent_sequences = [], ph_predictor = PatternPredictor_new\<rparr>"

definition history_record :: "u64 list \<Rightarrow> prefetch_history \<Rightarrow> prefetch_history" where
  "history_record hashes h =
     (let recent = ph_recent_sequences h;
          recent = (if length recent \<ge> 32 then tl recent else recent) in
      \<lparr>ph_recent_sequences = recent @ [hashes],
       ph_predictor = record_sequence hashes (ph_predictor h)\<rparr>)"

record batch_reader =
  br_coalesce_threshold :: nat
  br_history :: prefetch_history

definition BatchReader_new :: batch_reader where
  "BatchReader_new = \<lparr>br_coalesce_threshold = 128 * 1024, br_history = PrefetchHistory_new\<rparr>"

definition BatchReader_get_batch ::
  "engine_env \<Rightarrow> bytes list \<Rightarrow> batch_reader \<Rightarrow> engine
     \<Rightarrow> ((bytes \<times> owned_tensor) list res \<times> batch_reader \<times> engine) option" where
  "BatchReader_get_batch env keys br e =
     (case engine_get_batch env keys e of
        None \<Rightarrow> None
      | Some (Inl err, e') \<Rightarrow> Some (Inl err, br, e')
      | Some (Inr results, e') \<Rightarrow>
          let key_hashes = map (\<lambda>k. ev_xxh64 env k 0) keys in
          Some (Inr results, br\<lparr>br_history := history_record key_hashes (br_history br)\<rparr>, e'))"

section \<open>The database\<close>

definition Db_create :: "clock \<Rightarrow> bytes option \<Rightarrow> bool \<Rightarrow> u16 option \<Rightarrow> engine res" where
  "Db_create ck existing locked shard_count = engine_create ck existing locked shard_count"

definition Db_open :: "engine_env \<Rightarrow> clock \<Rightarrow> bytes option \<Rightarrow> bool \<Rightarrow> OpenMode \<Rightarrow> engine res option" where
  "Db_open env ck existing locked mode =
     (case mode of
        ReadOnly \<Rightarrow> engine_open env ck existing locked ReadOnly
      | _ \<Rightarrow> if existing \<noteq> None then engine_open env ck existing locked mode
             else Some (engine_create ck existing locked None))"

fun set_attrs :: "(bytes \<times> AttrValue) list \<Rightarrow> attrs \<Rightarrow> attrs res" where
  "set_attrs [] a = Inr a"
| "set_attrs ((k, v) # kvs) a = bindR (Attrs_set a k v) (set_attrs kvs)"

definition Db_put ::
  "engine_env \<Rightarrow> clock \<Rightarrow> bytes \<Rightarrow> bytes \<Rightarrow> DTypeId \<Rightarrow> u32 list \<Rightarrow> (bytes \<times> AttrValue) list option \<Rightarrow> bytes option
     \<Rightarrow> unit op" where
  "Db_put env ck key data dtype shape attrs retain =
     bindS (resS (case attrs of None \<Rightarrow> Inr Attrs_new | Some kvs \<Rightarrow> set_attrs kvs Attrs_new)) (\<lambda>attrs_obj.
       engine_put_with_retention env ck key data dtype shape attrs_obj
         (case retain of None \<Rightarrow> str ''keep_latest'' | Some r \<Rightarrow> r))"

definition Db_put_batch :: "engine_env \<Rightarrow> clock \<Rightarrow> batch_item list \<Rightarrow> unit op" where
  "Db_put_batch env ck tensors = engine_put_batch env ck tensors"

definition Db_get :: "engine_env \<Rightarrow> bytes \<Rightarrow> owned_tensor option op" where
  "Db_get env key = engine_get env key"

definition Db_get_attrs :: "engine_env \<Rightarrow> bytes \<Rightarrow> attrs op" where
  "Db_get_attrs env key e = resS (engine_get_attrs env key e) e"

definition Db_get_prefix :: "engine_env \<Rightarrow> bytes \<Rightarrow> (bytes, owned_tensor) hash_map op" where
  "Db_get_prefix env pre = engine_get_prefix env pre"

definition Db_keys :: "bytes list op" where
  "Db_keys e = okS (engine_keys e) e"

definition Db_list_versions :: "engine_env \<Rightarrow> bytes \<Rightarrow> u32 list op" where
  "Db_list_versions env key e = map_option (\<lambda>r. (r, e)) (engine_list_versions env key e)"

definition Db_get_version :: "engine_env \<Rightarrow> bytes \<Rightarrow> u32 \<Rightarrow> owned_tensor option op" where
  "Db_get_version env key version = engine_get_version env key version"

definition Db_diff :: "engine_env \<Rightarrow> bytes \<Rightarrow> u32 \<Rightarrow> u32 \<Rightarrow> version_diff op" where
  "Db_diff env key v1 v2 e = map_option (\<lambda>r. (r, e)) (engine_diff env key v1 v2 e)"

definition Db_delete :: "engine_env \<Rightarrow> bytes \<Rightarrow> unit op" where
  "Db_delete env key = engine_delete env key"

definition Db_flush :: "engine_env \<Rightarrow> clock \<Rightarrow> unit op" where
  "Db_flush env ck = engine_flush env ck"

definition Db_compact :: "engine_env \<Rightarrow> clock \<Rightarrow> unit op" where
  "Db_compact env ck = engine_compact env ck"

definition Db_close :: "engine_env \<Rightarrow> clock \<Rightarrow> unit op" where
  "Db_close env ck = engine_close env ck"

lemmas Db_passes = Db_put_batch_def Db_get_def Db_get_attrs_def Db_get_prefix_def Db_keys_def Db_list_versions_def
  Db_get_version_def Db_diff_def Db_delete_def Db_flush_def Db_compact_def Db_close_def

definition Db_get_batch :: "engine_env \<Rightarrow> bytes list \<Rightarrow> (bytes \<times> owned_tensor) list op" where
  "Db_get_batch env keys e =
     map_option (\<lambda>(r, br, e'). (r, e')) (BatchReader_get_batch env keys BatchReader_new e)"

text \<open>\<open>Drop\<close>, and a database that lives for one call: its result and the file it leaves.\<close>

definition engine_drop :: "engine_env \<Rightarrow> clock \<Rightarrow> engine \<Rightarrow> engine option" where
  "engine_drop env ck e = map_option (\<lambda>(r, e'). e'\<lparr>en_io := io_drop (en_io e')\<rparr>) (engine_close env ck e)"

lemma engine_drop_closed:
  assumes "engine_close env ck e = Some (r, e')" "mb_write_buffer (en_io e') = []"
  shows "engine_drop env ck e = Some e'"
  using assms by (simp add: engine_drop_def)

definition scoped :: "engine_env \<Rightarrow> clock \<Rightarrow> 'a op \<Rightarrow> engine res \<Rightarrow> ('a res \<times> bytes option) option" where
  "scoped env ck body opened =
     (case opened of
        Inl err \<Rightarrow> Some (Inl err, None)
      | Inr e \<Rightarrow>
          (case body e of
             None \<Rightarrow> None
           | Some (r, e') \<Rightarrow> map_option (\<lambda>e''. (r, Some (mb_file (en_io e'')))) (engine_drop env ck e')))"

definition Db_save_tensor ::
  "engine_env \<Rightarrow> clock \<Rightarrow> bytes option \<Rightarrow> bool \<Rightarrow> bytes \<Rightarrow> bytes \<Rightarrow> DTypeId \<Rightarrow> u32 list
     \<Rightarrow> (unit res \<times> bytes option) option" where
  "Db_save_tensor env ck existing locked key data dtype shape =
     scoped env ck
       (bindS (Db_put env ck key data dtype shape None None) (\<lambda>_.
        bindS (Db_flush env ck) (\<lambda>_. Db_close env ck)))
       (Db_create ck existing locked None)"

definition Db_save_batch ::
  "engine_env \<Rightarrow> clock \<Rightarrow> bytes option \<Rightarrow> bool \<Rightarrow> batch_item list \<Rightarrow> (unit res \<times> bytes option) option" where
  "Db_save_batch env ck existing locked tensors =
     scoped env ck
       (bindS (Db_put_batch env ck tensors) (\<lambda>_.
        bindS (Db_flush env ck) (\<lambda>_. Db_close env ck)))
       (Db_create ck existing locked None)"

definition Db_load_tensor ::
  "engine_env \<Rightarrow> clock \<Rightarrow> bytes option \<Rightarrow> bool \<Rightarrow> bytes \<Rightarrow> (owned_tensor option res \<times> bytes option) option" where
  "Db_load_tensor env ck existing locked key =
     (case Db_open env ck existing locked ReadOnly of
        None \<Rightarrow> None
      | Some opened \<Rightarrow> scoped env ck (Db_get env key) opened)"

definition Db_list_keys ::
  "engine_env \<Rightarrow> clock \<Rightarrow> bytes option \<Rightarrow> bool \<Rightarrow> (bytes list res \<times> bytes option) option" where
  "Db_list_keys env ck existing locked =
     (case Db_open env ck existing locked ReadOnly of
        None \<Rightarrow> None
      | Some opened \<Rightarrow> scoped env ck Db_keys opened)"

section \<open>Prediction\<close>

text \<open>The successors of a pair of keys in a sequence, in order.\<close>

fun successors :: "u64 \<Rightarrow> u64 \<Rightarrow> u64 list \<Rightarrow> u64 list" where
  "successors k1 k2 (a # b # c # seq) = (if a = k1 \<and> b = k2 then [c] else []) @ successors k1 k2 (b # c # seq)"
| "successors k1 k2 _ = []"

lemma record_sequence_candidates:
  "(case map_of (record_sequence seq p) (k1, k2) of Some xs \<Rightarrow> xs | None \<Rightarrow> []) =
     (case map_of p (k1, k2) of Some xs \<Rightarrow> xs | None \<Rightarrow> []) @ successors k1 k2 seq"
  by (induction seq p rule: record_sequence.induct) (auto simp: update_conv')

lemma predict_next_eq:
  "predict_next p k1 k2 = (let xs = (case map_of p (k1, k2) of Some xs \<Rightarrow> xs | None \<Rightarrow> []) in
     if xs = [] then None else Some (last xs))"
  by (auto simp: predict_next_def split: option.split)

lemma recorded_predictor:
  "(case map_of (ph_predictor (fold history_record seqs h)) (k1, k2) of Some xs \<Rightarrow> xs | None \<Rightarrow> []) =
     (case map_of (ph_predictor h) (k1, k2) of Some xs \<Rightarrow> xs | None \<Rightarrow> []) @ concat (map (successors k1 k2) seqs)"
proof (induction seqs arbitrary: h)
  case (Cons seq seqs)
  then show ?case by (simp add: history_record_def Let_def record_sequence_candidates)
qed simp

lemma recent_sequences:
  "length xs \<le> 32 \<Longrightarrow> ph_recent_sequences h = xs \<Longrightarrow>
   ph_recent_sequences (fold history_record seqs h) = drop (length xs + length seqs - 32) (xs @ seqs)"
proof (induction seqs arbitrary: h xs)
  case (Cons seq seqs)
  have r: "ph_recent_sequences (history_record seq h) = (if length xs \<ge> 32 then tl xs else xs) @ [seq]"
    using Cons.prems(2) by (simp add: history_record_def Let_def)
  show ?case
  proof (cases "length xs \<ge> 32")
    case True
    then obtain x xs' where xs: "xs = x # xs'" "length xs' = 31" using Cons.prems(1) by (cases xs) auto
    then show ?thesis using Cons.IH [of "xs' @ [seq]" "history_record seq h"] r by simp
  next
    case False
    then show ?thesis using Cons.IH [of "xs @ [seq]" "history_record seq h"] r by simp
  qed
qed simp

text \<open>
  Access prediction. After any batches were read, the prediction for two keys in a row is
  the key that followed the pair most recently in some batch, or none if nothing ever
  followed it; and the history keeps exactly the last 32 batches, in order.
\<close>

lemma prefetch_prediction:
  fixes seqs k1 k2
  defines "h \<equiv> fold history_record seqs PrefetchHistory_new"
  defines "followers \<equiv> concat (map (successors k1 k2) seqs)"
  shows "predict_next (ph_predictor h) k1 k2 = (if followers = [] then None else Some (last followers)) \<and>
    ph_recent_sequences h = drop (length seqs - 32) seqs"
  using recorded_predictor [of seqs PrefetchHistory_new k1 k2] recent_sequences [of "[]" PrefetchHistory_new seqs]
  by (simp add: h_def followers_def predict_next_eq PrefetchHistory_new_def PatternPredictor_new_def)

section \<open>Saving and loading\<close>

lemma close_effect:
  assumes w: "writable env e" and "\<not> en_is_closed e"
  shows "\<exists>e' r. engine_close env ck e = Some (Inr (), e') \<and> en_is_closed e' \<and> mb_write_buffer (en_io e') = [] \<and>
    r = checkpoint_footer (ev_xxh64 env) (en_shards e) (Toc_serialize (en_master_toc e)) (length (contents (en_io e))) True \<and>
    mb_file (en_io e') = contents (en_io e) @ checkpoint_block (Toc_serialize (en_master_toc e)) (Footer_serialize r)"
proof -
  obtain r e1 where e1: "run_checkpoint env ck True e = Some (Inr r, e1)" "grows e e1"
    "r = checkpoint_footer (ev_xxh64 env) (en_shards e) (Toc_serialize (en_master_toc e)) (length (contents (en_io e))) True"
    "contents (en_io e1) = contents (en_io e) @ checkpoint_block (Toc_serialize (en_master_toc e)) (Footer_serialize r)"
    using run_checkpoint_spec [OF w, of ck True] by blast
  obtain rs io where s: "io_close (en_io e1) = (rs, io)" by fastforce
  have "io_inv (en_io e1)" using e1(2) by (simp add: grows_def)
  note ss = close_spec [OF this, unfolded s fst_conv snd_conv]
  have "en_mode e \<noteq> ReadOnly" using w by (simp add: writable_def)
  then have "engine_close env ck e = Some (Inr (), e1\<lparr>en_io := io, en_is_closed := True\<rparr>)"
    using assms(2) by (simp add: engine_close_def bindS_def e1(1) okS_def ioS_def s ss(1) updS_def)
  then show ?thesis using e1(3,4) ss(2,3) by auto
qed

lemma close_closed: "en_is_closed e \<Longrightarrow> engine_close env ck e = Some (Inr (), e)"
  by (simp add: engine_close_def okS_def)

lemma close_read_only:
  assumes "en_mode e = ReadOnly" "io_inv (en_io e)" "mb_write_buffer (en_io e) = []"
  shows "\<exists>e'. engine_drop env ck e = Some e' \<and> mb_file (en_io e') = contents (en_io e)"
proof -
  obtain rs io where s: "io_close (en_io e) = (rs, io)" by fastforce
  note ss = close_spec [OF assms(2), unfolded s fst_conv snd_conv]
  show ?thesis using assms(1,3) by (simp add: engine_drop_def engine_close_def bindS_def okS_def ioS_def s ss updS_def contents_def)
qed

text \<open>Opening a file that was closed properly.\<close>

lemma reopen_after_close:
  assumes inv: "engine_inv env U K P A e" and ar: "archive_ok e" and op: "\<not> en_is_closed e"
    and toc: "toc_encodable (en_master_toc e)" "table_class (toc_entries (en_master_toc e)) P A"
  shows "\<exists>e1. engine_close env ck e = Some (Inr (), e1) \<and> mb_write_buffer (en_io e1) = [] \<and> length (contents (en_io e)) \<le> length (mb_file (en_io e1)) \<and>
    (length (contents (en_io e)) < 2 ^ 64 \<longrightarrow> (\<exists>e2. engine_open env ck2 (Some (mb_file (en_io e1))) False mode = Some (Inr e2) \<and>
       reopened env P A mode (mb_file (en_io e1)) e e2))"
proof -
  have w: "writable env e" using inv by (simp add: engine_inv_def)
  obtain e1 r where e1: "engine_close env ck e = Some (Inr (), e1)" and buf: "mb_write_buffer (en_io e1) = []"
    and r: "r = checkpoint_footer (ev_xxh64 env) (en_shards e) (Toc_serialize (en_master_toc e)) (length (contents (en_io e))) True"
    and fl: "mb_file (en_io e1) = contents (en_io e) @ checkpoint_block (Toc_serialize (en_master_toc e)) (Footer_serialize r)"
    using close_effect [OF w op] by blast
  have "\<exists>e2. engine_open env ck2 (Some (mb_file (en_io e1))) False mode = Some (Inr e2) \<and>
      reopened env P A mode (mb_file (en_io e1)) e e2" if len: "length (contents (en_io e)) < 2 ^ 64"
  proof -
    have ft: "footer_ok r" "unat (ft_toc_offset r) = length (contents (en_io e))"
      using len footer_ok_checkpoint by (simp_all add: r) (simp add: checkpoint_footer_def Footer_new_def unat_of_nat)
    show ?thesis using reopen_checkpoint [OF inv ar toc len ft fl, of "[]" ck2 mode] by (cases "mode = ReadOnly") (simp_all add: torn_ok_def)
  qed
  then show ?thesis using e1 buf fl by auto
qed

text \<open>Reading needs no lock.\<close>

lemma engine_open_read_only: "engine_open env ck existing locked ReadOnly = engine_open env ck existing False ReadOnly"
  by (simp add: engine_open_def detect_best_tier_def mmap_open_or_create_def)

text \<open>A database opened for reading, used once and dropped, leaves the file alone.\<close>

lemma scoped_read:
  assumes "en_mode e = ReadOnly" "io_inv (en_io e)" "mb_mode (en_io e) = ReadOnly"
    and "body e = Some (r, e')" "reads_only e e'"
  shows "scoped env ck body (Inr e) = Some (r, Some (contents (en_io e)))"
proof -
  note ro = reads_onlyD [OF assms(5)]
  obtain e'' where "engine_drop env ck e' = Some e''" "mb_file (en_io e'') = contents (en_io e)"
    using close_read_only [of e' env ck] ro assms(1,3) by (auto simp: io_inv_def)
  then show ?thesis using assms(4) by (simp add: scoped_def)
qed

lemma create_succeeds: "\<exists>e. engine_create ck existing False sc = Inr e"
  by (cases "engine_create ck existing False sc")
    (simp_all add: engine_create_def engine_create_with_retention_def detect_best_tier_def Let_def io_write_at_def
      mmap_open_or_create_def)

text \<open>A new archive with one tensor, flushed, closed and opened for reading.\<close>

lemma one_tensor_reopened:
  assumes env: "env_ok env" and create: "engine_create ck existing False None = Inr e0"
    and inj: "inj_on (ev_hash128 env) U" and cut: "cut_into env U data"
    and al: "4096 dvd length (case existing of None \<Rightarrow> [] | Some f \<Rightarrow> f)"
    and st: "op_storable (PutOp key data dtype shape [] [])"
  shows "\<exists>e e1 e2. engine_put_with_retention env ck key data dtype shape [] (str ''keep_latest'') e0 = Some (Inr (), e) \<and>
    engine_flush env ck e = Some (Inr (), e1) \<and> engine_close env ck e1 = Some (Inr (), e2) \<and> en_is_closed e2 \<and>
    mb_write_buffer (en_io e2) = [] \<and> (length (mb_file (en_io e2)) < 2 ^ 64 \<longrightarrow>
       (\<exists>e3. engine_open env ck' (Some (mb_file (en_io e2))) False ReadOnly = Some (Inr e3) \<and> readable env {key} e3 \<and>
          en_mode e3 = ReadOnly \<and> mb_mode (en_io e3) = ReadOnly \<and> contents (en_io e3) = mb_file (en_io e2) \<and>
          (\<forall>k. map_option fst (engine_abs env e3 k) = (if k = key then Some (OwnedTensor_new dtype shape data) else None))))"
proof -
  let ?P = "node_shape True :: chunk_ref art_node \<Rightarrow> bool" and ?op = "(ck, PutOp key data dtype shape [] (str ''keep_latest''))"
  have cl: "history_class [?op] ?P UNIV" by (simp add: history_class_def is_delete_def)
  have adm: "\<forall>x \<in> set [?op]. op_admissible env U {key} UNIV (snd x)" using cut by (simp add: op_admissible_def)
  have sto: "\<forall>x \<in> set [?op]. op_storable (snd x)" and few: "length [?op] < 2 ^ 32" using st by (simp_all add: op_storable_def)
  obtain e e1 where put: "run_ops env [?op] e0 = Some (Inr (), e)"
    and inv: "engine_inv env U {key} ?P UNIV e" "archive_ok e" and op: "\<not> en_is_closed e"
    and flush: "engine_flush env ck e = Some (Inr (), e1)"
    and toc: "toc_encodable (en_master_toc e)" "table_class (toc_entries (en_master_toc e)) ?P UNIV"
    and abs: "length (contents (en_io e)) < 2 ^ 64 \<longrightarrow> (\<forall>k. engine_abs env e k = last_write (history [?op]) k None)"
    using flushed_history [OF env create [unfolded engine_create_def] al cl adm inj sto few, of ck] by blast
  have w: "writable env e" using inv(1) by (simp add: engine_inv_def)
  have g: "grows e e1" "same_index e e1" using flush_effect [OF w, of ck] flush by auto
  note inv1 = engine_inv_same_index [OF inv(1) g]
  have toc1: "en_master_toc e1 = en_master_toc e" using g(2) by (simp add: same_index_def)
  have op1: "\<not> en_is_closed e1" using op g(1) by (simp add: grows_def)
  have w1: "writable env e1" using inv1(1) by (simp add: engine_inv_def)
  obtain e2 where e2: "engine_close env ck e1 = Some (Inr (), e2)" "en_is_closed e2"
    and ro: "length (contents (en_io e1)) \<le> length (mb_file (en_io e2))"
      "length (contents (en_io e1)) < 2 ^ 64 \<longrightarrow> (\<exists>e3. engine_open env ck' (Some (mb_file (en_io e2))) False ReadOnly = Some (Inr e3) \<and>
         reopened env ?P UNIV ReadOnly (mb_file (en_io e2)) e1 e3)"
      "mb_write_buffer (en_io e2) = []"
    using reopen_after_close [OF inv1(1) archive_ok_grows [OF inv(2) g(1)] op1, of ck ck' ReadOnly] toc
      close_effect [OF w1 op1, of ck] unfolding toc1 by auto
  have "\<exists>e3. engine_open env ck' (Some (mb_file (en_io e2))) False ReadOnly = Some (Inr e3) \<and> readable env {key} e3 \<and>
      en_mode e3 = ReadOnly \<and> mb_mode (en_io e3) = ReadOnly \<and> contents (en_io e3) = mb_file (en_io e2) \<and>
      (\<forall>k. map_option fst (engine_abs env e3 k) = (if k = key then Some (OwnedTensor_new dtype shape data) else None))"
    if "length (mb_file (en_io e2)) < 2 ^ 64"
  proof -
    have len1: "length (contents (en_io e1)) < 2 ^ 64" using that ro(1) by simp
    then obtain e3 where e3: "engine_open env ck' (Some (mb_file (en_io e2))) False ReadOnly = Some (Inr e3)"
      "reopened env ?P UNIV ReadOnly (mb_file (en_io e2)) e1 e3" using ro(2) by blast
    have "in_bounds e1" using len1 toc(1) by (simp add: in_bounds_def toc1 toc_encodable_def)
    then have rd: "readable env {key} e3" using reopened_readable [OF e3(2) inv1(1)] by simp
    have s: "same_tensor (engine_abs env e3 k) (last_write (history [?op]) k None)" for k
      using e3(2) inv1(2) [OF len1] abs engine_inv_grows_length [OF g(1) len1] unfolding reopened_def by metis
    then have "map_option fst (engine_abs env e3 k) = (if k = key then Some (OwnedTensor_new dtype shape data) else None)" for k
      using same_tensor_fst [OF s [of k]] by (simp add: history_def split: if_splits)
    then show ?thesis using e3 rd unfolding reopened_def by blast
  qed
  moreover have "engine_put_with_retention env ck key data dtype shape [] (str ''keep_latest'') e0 = Some (Inr (), e)"
    using put by (auto simp: bindS_def okS_def split: option.splits sum.splits prod.splits)
  ultimately show ?thesis using flush e2 ro(3) by blast
qed

text \<open>The example archive on disk.\<close>

text \<open>
  C5: one-line saving and loading. Saving a tensor under a key that the format can store
  always succeeds, over any existing file whose length is a multiple of 4096, and loading the
  key from the file it leaves answers the tensor unchanged, while the file lists exactly this
  key and is not modified by reading it.
\<close>

theorem save_load_tensor:
  assumes env: "env_ok env" and inj: "inj_on (ev_hash128 env) U" and cut: "cut_into env U data"
    and al: "4096 dvd length (case existing of None \<Rightarrow> [] | Some f \<Rightarrow> f)"
    and st: "op_storable (PutOp key data dtype shape [] [])"
  shows "\<exists>arch. Db_save_tensor env ck existing False key data dtype shape = Some (Inr (), Some arch) \<and>
    (length arch < 2 ^ 64 \<longrightarrow>
       Db_load_tensor env ck' (Some arch) locked key = Some (Inr (Some (OwnedTensor_new dtype shape data)), Some arch) \<and>
       (key \<noteq> [] \<longrightarrow> Db_list_keys env ck' (Some arch) locked = Some (Inr [key], Some arch)))"
proof -
  obtain e0 where e0: "engine_create ck existing False None = Inr e0" using create_succeeds by blast
  obtain e e1 e2 where e: "engine_put_with_retention env ck key data dtype shape [] (str ''keep_latest'') e0 = Some (Inr (), e)"
    "engine_flush env ck e = Some (Inr (), e1)" "engine_close env ck e1 = Some (Inr (), e2)" "en_is_closed e2" "mb_write_buffer (en_io e2) = []"
    and ro: "length (mb_file (en_io e2)) < 2 ^ 64 \<longrightarrow>
       (\<exists>e3. engine_open env ck' (Some (mb_file (en_io e2))) False ReadOnly = Some (Inr e3) \<and> readable env {key} e3 \<and>
          en_mode e3 = ReadOnly \<and> mb_mode (en_io e3) = ReadOnly \<and> contents (en_io e3) = mb_file (en_io e2) \<and>
          (\<forall>k. map_option fst (engine_abs env e3 k) = (if k = key then Some (OwnedTensor_new dtype shape data) else None)))"
    using one_tensor_reopened [OF env e0 inj cut al st] by blast
  let ?arch = "mb_file (en_io e2)"
  have save: "Db_save_tensor env ck existing False key data dtype shape = Some (Inr (), Some ?arch)"
    by (simp add: Db_save_tensor_def scoped_def Db_create_def e0 Db_put_def Db_passes resS_def bindS_def Attrs_new_def e(1-3)
        engine_drop_closed [OF close_closed [OF e(4)] e(5)])
  have load: "Db_load_tensor env ck' (Some ?arch) locked key = Some (Inr (Some (OwnedTensor_new dtype shape data)), Some ?arch) \<and>
       (key \<noteq> [] \<longrightarrow> Db_list_keys env ck' (Some ?arch) locked = Some (Inr [key], Some ?arch))"
    if len: "length ?arch < 2 ^ 64"
  proof -
    obtain e3 where e3: "engine_open env ck' (Some ?arch) locked ReadOnly = Some (Inr e3)" "readable env {key} e3"
      "en_mode e3 = ReadOnly" "mb_mode (en_io e3) = ReadOnly" "contents (en_io e3) = ?arch"
      and abs: "\<And>k. map_option fst (engine_abs env e3 k) = (if k = key then Some (OwnedTensor_new dtype shape data) else None)"
      using ro len engine_open_read_only [of env ck' "Some ?arch" locked] by auto
    have io: "io_inv (en_io e3)" using e3(2) by (simp add: readable_def)
    obtain e4 where get: "Db_get env key e3 = Some (Inr (Some (OwnedTensor_new dtype shape data)), e4)" "reads_only e3 e4"
      using engine_get_readable [OF e3(2), of key] abs [of key] by (auto simp: Db_get_def)
    have "engine_keys e3 = [key]" if "key \<noteq> []"
    proof -
      have "engine_abs env e3 k \<noteq> None \<longleftrightarrow> k = key" for k using abs [of k] by (cases "engine_abs env e3 k") (auto split: if_splits)
      then have "distinct (engine_keys e3) \<and> set (engine_keys e3) = {key}"
        using engine_keys_spec [of e3] engine_abs_live [OF e3(2)] that by auto
      then show ?thesis by (cases "engine_keys e3") (auto simp: subset_singleton_iff)
    qed
    then show ?thesis
      using scoped_read [of e3 "Db_get env key", OF e3(3) io e3(4) get] scoped_read [OF e3(3) io e3(4) _ reads_only_refl [OF io], of Db_keys "Inr [key]"]
      by (simp add: Db_load_tensor_def Db_list_keys_def Db_open_def Db_keys_def okS_def e3(1,5))
  qed
  show ?thesis using save load by blast
qed

theorem save_load_tensor_witness:
  "\<exists>arch. Db_save_tensor example_env example_clock None False [1] [7, 8] UInt8 [2] = Some (Inr (), Some arch) \<and>
     Db_load_tensor example_env example_clock (Some arch) True [1] =
       Some (Inr (Some (OwnedTensor_new UInt8 [2] [7, 8])), Some arch)"
proof -
  let ?E = "example_env" and ?ck = "example_clock"
  obtain e0 e where e: "engine_create ?ck None False None = Inr e0"
    "engine_put_with_retention ?E ?ck [1] [7, 8] UInt8 [2] [] (str ''keep_latest'') e0 = Some (Inr (), e)"
    "engine_inv ?E {[7, 8]} {[1]} (node_shape True) UNIV e" "grows e0 e"
    "length (contents (en_io e)) < 2 ^ 15" "length (Toc_serialize (en_master_toc e)) < 2 ^ 13"
    using example_put [of "{[1]}"] by blast
  have w: "writable ?E e" using e(3) by (simp add: engine_inv_def)
  obtain e1 r where e1: "engine_flush ?E ?ck e = Some (Inr (), e1)" "grows e e1" "same_index e e1" "footer_ok r"
    "contents (en_io e1) = contents (en_io e) @ checkpoint_block (Toc_serialize (en_master_toc e)) (Footer_serialize r)"
    using flush_effect [OF w, of ?ck] footer_ok_checkpoint by metis
  have "\<not> en_is_closed e0" by (rule engine_create_spec(7) [OF e(1) [unfolded engine_create_def] example_env_ok])
  then have "\<not> en_is_closed e1" using e(4) e1(2) by (simp add: grows_def)
  then obtain e2 r2 where e2: "engine_close ?E ?ck e1 = Some (Inr (), e2)" "en_is_closed e2" "footer_ok r2"
    "mb_file (en_io e2) = contents (en_io e1) @ checkpoint_block (Toc_serialize (en_master_toc e1)) (Footer_serialize r2)"
    "mb_write_buffer (en_io e2) = []"
    using close_effect [OF writable_grows [OF w e1(2)], of ?ck] footer_ok_checkpoint by metis
  have b: "length (checkpoint_block (Toc_serialize (en_master_toc e)) (Footer_serialize f)) \<le> length (Toc_serialize (en_master_toc e)) + 24 + 4096"
    if "footer_ok f" for f using that by (intro checkpoint_block_length) (auto simp: is_checkpoint_of_def)
  have "en_master_toc e1 = en_master_toc e" using e1(3) by (simp add: same_index_def)
  then have len: "length (mb_file (en_io e2)) < 2 ^ 64" using b [OF e1(4)] b [OF e2(3)] e(5,6) by (simp add: e1(5) e2(4))
  have save: "Db_save_tensor ?E ?ck None False [1] [7, 8] UInt8 [2] = Some (Inr (), Some (mb_file (en_io e2)))"
    by (simp add: Db_save_tensor_def scoped_def Db_create_def e(1) Db_put_def Db_passes resS_def bindS_def Attrs_new_def e(2) e1(1)
        e2(1) engine_drop_closed [OF close_closed [OF e2(2)] e2(5)])
  have st: "op_storable (PutOp [1] [7, 8] UInt8 [2] [] [])"
    by (simp add: op_storable_def attrs_encodable_def attrs_inv_def Attrs_serialize_def utf8_valid_ascii)
  have inj: "inj_on (ev_hash128 ?E) {[7, 8]}" and cut: "cut_into ?E {[7, 8]} [7, 8]" by (simp_all add: cut_into_small)
  have al: "4096 dvd length (case None :: bytes option of None \<Rightarrow> [] | Some f \<Rightarrow> f)" by simp
  show ?thesis
    using save_load_tensor [OF example_env_ok inj cut al st, of ?ck ?ck True] save len by auto
qed

end
