(* ===== verification/Compact_Opened.thy ===== *)
theory Compact_Opened
  imports Engine_Compact Engine_Reopen Engine_Listing
begin

text \<open>
  Compaction of an archive that was opened before: the content store is then empty, the live
  tensors are written anew behind the header and every key keeps its tensor.
\<close>

section \<open>Collecting the live tensors\<close>

fun compact_items :: "tensor_map \<Rightarrow> toc_entry list \<Rightarrow> (bytes \<times> owned_tensor \<times> attrs) list" where
  "compact_items m [] = []"
| "compact_items m (entry # es) =
     (if te_tombstone entry = 0 then
        (case m (te_key entry) of None \<Rightarrow> [] | Some (t, _) \<Rightarrow> [(te_key entry, t, attrs_map (te_attrs entry))])
      else []) @ compact_items m es"

lemma compact_items_append [simp]: "compact_items m (xs @ ys) = compact_items m xs @ compact_items m ys"
  by (induction xs) (auto split: option.split)

lemma compact_items_mem:
  "(key, t, attrs) \<in> set (compact_items m es) \<Longrightarrow>
     \<exists>entry \<in> set es. key = te_key entry \<and> (\<exists>a. m key = Some (t, a)) \<and> attrs = attrs_map (te_attrs entry)"
proof (induction es)
  case (Cons x es)
  have "(key, t, attrs) \<in> set (compact_items m es) \<or>
      key = te_key x \<and> (\<exists>a. m key = Some (t, a)) \<and> attrs = attrs_map (te_attrs x)"
  proof (cases "te_tombstone x = 0 \<and> m (te_key x) \<noteq> None")
    case True
    then obtain t' a where "m (te_key x) = Some (t', a)" by (cases "m (te_key x)") auto
    then show ?thesis using Cons.prems True by auto
  next
    case False
    then have "compact_items m (x # es) = compact_items m es" by (cases "m (te_key x)") auto
    then show ?thesis using Cons.prems by simp
  qed
  then show ?case
  proof
    assume "(key, t, attrs) \<in> set (compact_items m es)"
    from Cons.IH [OF this] show ?case by (rule bexE) (intro bexI, assumption, rule list.set_intros(2))
  qed (rule bexI [of _ x], assumption, rule list.set_intros(1))
qed (simp only: compact_items.simps list.set empty_iff)

lemma length_compact_items: "length (compact_items m es) \<le> length es"
  by (induction es) (auto split: option.split)

lemma live_tensors_readable:
  assumes "readable env K e" "te_key ` set es \<subseteq> K"
  shows "\<exists>e'. live_tensors env es e = Some (Inr (compact_items (engine_abs env e) es), e') \<and> reads_only e e'"
  using assms
proof (induction es arbitrary: e)
  case Nil
  then show ?case using reads_only_refl [of e] by (auto simp: okS_def readable_def)
next
  case (Cons entry es)
  show ?case
  proof (cases "te_tombstone entry = 0")
    case False
    then show ?thesis using Cons.IH [of e] Cons.prems by simp
  next
    case True
    obtain e1 where e1: "engine_get env (te_key entry) e = Some (Inr (map_option fst (engine_abs env e (te_key entry))), e1)"
      "reads_only e e1"
      using engine_get_readable [OF Cons.prems(1), of "te_key entry"] Cons.prems(2) by auto
    obtain e2 where e2: "live_tensors env es e1 = Some (Inr (compact_items (engine_abs env e) es), e2)" "reads_only e1 e2"
      using Cons.IH [OF readable_reads_only [OF e1(2) Cons.prems(1)]] Cons.prems(2)
      unfolding engine_abs_reads_only [OF e1(2)] by auto
    have "live_tensors env (entry # es) e = Some (Inr (compact_items (engine_abs env e) (entry # es)), e2)"
      using True e1(1) e2(1) by (simp add: bindS_def okS_def split: option.split)
    then show ?thesis using reads_only_trans [OF e1(2) e2(2)] by blast
  qed
qed

section \<open>Storing them again\<close>

text \<open>The puts of a compaction, as calls.\<close>

definition item_op :: "clock \<Rightarrow> bytes \<times> owned_tensor \<times> attrs \<Rightarrow> clock \<times> engine_op" where
  "item_op ck item = (case item of (key, t, attrs) \<Rightarrow>
     (ck, PutOp key (ot_data t) (ot_dtype t) (ot_shape t) (entry_attrs attrs) (str ''keep_latest'')))"

lemma put_item_step: "put_item env ck item = engine_step env (item_op ck item)"
  by (cases item) (simp add: put_item_def item_op_def engine_put_def fun_eq_iff)

lemma put_items_run:
  "run_ops env (map (item_op ck) items) e = Some (Inr (), e') \<Longrightarrow> \<exists>us. mapS (put_item env ck) items e = Some (Inr us, e')"
proof (induction items arbitrary: e)
  case (Cons item items)
  obtain e1 where e1: "engine_step env (item_op ck item) e = Some (Inr (), e1)"
    "run_ops env (map (item_op ck) items) e1 = Some (Inr (), e')"
    using Cons.prems by (auto simp: bindS_def split: option.splits sum.splits prod.splits)
  then obtain us where "mapS (put_item env ck) items e1 = Some (Inr us, e')" using Cons.IH by blast
  then show ?case using e1(1) by (simp add: bindS_def okS_def put_item_step [of env ck item])
qed (simp add: okS_def)

lemma history_append: "history [] = []" "history (xs @ ys) = history xs @ history ys"
  by (simp_all add: history_def)

lemma history_item:
  "last_write (history [item_op ck (k, t, attrs)]) key r = (if k = key then Some (t, entry_attrs attrs) else r)"
  by (cases t) (simp add: history_def item_op_def OwnedTensor_new_def)

lemma compact_last_write:
  "m key = None \<Longrightarrow> last_write (history (map (item_op ck) (compact_items m es))) key r = r"
  "m key = Some (t, a) \<Longrightarrow> latest es key = Some entry \<Longrightarrow> te_tombstone entry = 0 \<Longrightarrow>
     last_write (history (map (item_op ck) (compact_items m es))) key r = Some (t, entry_attrs (attrs_map (te_attrs entry)))"
proof (induction es rule: rev_induct)
  case (snoc x es)
  { case 1
    then show ?case using snoc.IH(1)
      by (auto simp: history_append last_write_append history_item split: option.split)
  next
    case 2
    then show ?case using snoc.IH(2)
      by (auto simp: history_append last_write_append history_item split: option.split if_splits)
  }
qed (simp_all add: history_def latest_def)

section \<open>Compacting\<close>

lemma header_block_archive:
  assumes "FileHeader_validate h = Inr ()" "fh_chunk_align h = 4096"
  shows "header_block h \<noteq> []" "4096 dvd length (header_block h)" "\<exists>rest. header_block h = FileHeader_serialize h @ rest"
proof -
  have "fh_magic h = MAGIC" using assms(1) by (simp add: FileHeader_validate_Inr)
  then show "header_block h \<noteq> []" using length_header_block by auto
  have "unat (fh_chunk_align h) dvd length (header_block h)"
    unfolding header_block_def by (rule pad_to_align_dvd) (simp add: assms(2))
  then show "4096 dvd length (header_block h)" by (simp add: assms(2))
  show "\<exists>rest. header_block h = FileHeader_serialize h @ rest"
    using pad_to_align_prefix unfolding header_block_def by blast
qed

text \<open>The state between the truncation and the puts is that of a new archive.\<close>

lemma cut_down_inv:
  assumes "cut_down e e2" and inv: "engine_inv env U K P A e" and ar: "archive_ok e" and "en_content_store e = []"
  shows "engine_inv env U K P A e2" "archive_ok e2" "engine_abs env e2 = Map.empty" "toc_entries (en_master_toc e2) = []"
proof -
  note cd = assms(1) [unfolded cut_down_def]
  have hd: "FileHeader_validate (en_header e) = Inr ()" "fh_chunk_align (en_header e) = 4096"
    using ar by (simp_all add: archive_ok_def)
  show t: "toc_entries (en_master_toc e2) = []" using cd by simp
  show "engine_inv env U K P A e2"
    using cd inv assms(4) t shards_ok_arts [of "en_shards e2" "en_shards e" P A]
    by (simp add: engine_inv_def writable_def store_ok_def location_def)
  show "archive_ok e2" using cd hd header_block_archive [OF hd] by (simp add: archive_ok_def)
  show "engine_abs env e2 = Map.empty" by (rule ext) (simp add: engine_abs_def t live_def latest_def)
qed

lemma readable_entry:
  assumes "readable env K e" "engine_abs env e key = Some (t, a)"
  shows "\<exists>entry. live (toc_entries (en_master_toc e)) key = Some entry \<and> a = te_attrs entry \<and> ot_shape t = te_shape entry"
proof -
  obtain entry where l: "live (toc_entries (en_master_toc e)) key = Some entry"
    using assms(2) by (auto simp: engine_abs_def split: option.splits)
  obtain segs where "list_all2 (holds env (contents (en_io e))) (te_chunk_refs entry) segs"
    using live_segments [OF assms(1) l] by blast
  then show ?thesis using assms(2) engine_abs_entry [OF l] l by (auto simp: OwnedTensor_new_def)
qed

text \<open>The stored data is cut into known segments, and not into too many for a table entry.\<close>

definition tensors_fit :: "engine_env \<Rightarrow> bytes set \<Rightarrow> tensor_map \<Rightarrow> bool" where
  "tensors_fit env U m \<longleftrightarrow> (\<forall>key t a. m key = Some (t, a) \<longrightarrow>
     cut_into env U (ot_data t) \<and> length (ot_data t) div 32768 + 1 < 2 ^ 16)"

text \<open>The puts are calls that the history theorems cover.\<close>

lemma compact_items_ok:
  assumes r: "readable env K e" and toc: "toc_encodable (en_master_toc e)" "table_class (toc_entries (en_master_toc e)) P A"
    and data: "tensors_fit env U (engine_abs env e)"
    and mem: "x \<in> set (map (item_op ck) (compact_items (engine_abs env e) (toc_entries (en_master_toc e))))"
  shows "\<not> is_delete (snd x) \<and> op_admissible env U K A (snd x) \<and> op_storable (snd x)"
proof -
  let ?es = "toc_entries (en_master_toc e)"
  obtain item where "item \<in> set (compact_items (engine_abs env e) ?es)" "x = item_op ck item" using mem by auto
  moreover obtain key t attrs where "item = (key, t, attrs)" by (cases item)
  ultimately have it: "(key, t, attrs) \<in> set (compact_items (engine_abs env e) ?es)" "x = item_op ck (key, t, attrs)" by simp_all
  obtain entry a where en: "entry \<in> set ?es" "key = te_key entry" "engine_abs env e key = Some (t, a)"
    "attrs = attrs_map (te_attrs entry)"
    using compact_items_mem [OF it(1)] by auto
  obtain entry' where en': "live ?es key = Some entry'" "ot_shape t = te_shape entry'"
    using readable_entry [OF r en(3)] by blast
  have enc: "entry_encodable entry" "entry_encodable entry'"
    using toc(1) en(1) live_key [OF en'(1)] by (simp_all add: toc_encodable_def list_all_iff)
  have "attrs = te_attrs entry"
    using enc(1) attrs_map_id [of "te_attrs entry"] by (simp add: en(4) entry_encodable_def attrs_encodable_def attrs_inv_def)
  then have at: "entry_attrs attrs = te_attrs entry" using enc(1) by (simp add: entry_attrs_id entry_encodable_def)
  have "key \<in> K" "set key \<subseteq> A" using r toc(2) en(1,2) by (auto simp: readable_def table_class_def)
  then show ?thesis
    using data [unfolded tensors_fit_def, rule_format, OF en(3)] enc en'(2) en(2) at
    by (simp add: it(2) item_op_def is_delete_def op_admissible_def op_storable_def entry_encodable_def)
qed

text \<open>Compaction with an empty content store keeps every tensor.\<close>

lemma compact_empty_store:
  assumes inv: "engine_inv env U K P A e" and ar: "archive_ok e" and b: "in_bounds e" and st: "en_content_store e = []"
    and inj: "inj_on (ev_hash128 env) U" "inj_on (\<lambda>k. ev_xxh64 env k 0) K"
    and toc: "toc_encodable (en_master_toc e)" "table_class (toc_entries (en_master_toc e)) P A"
    and data: "tensors_fit env U (engine_abs env e)"
  shows "\<exists>e'. engine_compact env ck e = Some (Inr (), e') \<and> engine_inv env U K P A e' \<and> archive_ok e' \<and>
    toc_encodable (en_master_toc e') \<and> table_class (toc_entries (en_master_toc e')) P A \<and>
    en_is_closed e' = en_is_closed e \<and>
    (length (contents (en_io e')) < 2 ^ 64 \<longrightarrow> engine_abs env e' = engine_abs env e)"
proof -
  let ?es = "toc_entries (en_master_toc e)"
  let ?items = "compact_items (engine_abs env e) ?es"
  let ?ops = "map (item_op ck) ?items"
  have w: "writable env e" using inv by (simp add: engine_inv_def)
  have r: "readable env K e" by (rule engine_inv_readable [OF inv b inj(2)])
  have ok: "\<forall>x \<in> set ?ops. \<not> is_delete (snd x)" "\<forall>x \<in> set ?ops. op_admissible env U K A (snd x)" "\<forall>x \<in> set ?ops. op_storable (snd x)"
    using compact_items_ok [OF r toc data] by blast+
  have cl: "history_class ?ops P A" using toc(2) ok(1) unfolding history_class_def table_class_def by blast
  have few: "length ?ops < 2 ^ 32" using length_compact_items [of "engine_abs env e" ?es] toc(1) by (simp add: toc_encodable_def)
  obtain e1 where live: "live_tensors env ?es e = Some (Inr ?items, e1)" "reads_only e e1"
    using live_tensors_readable [OF r, of ?es] r unfolding readable_def by blast
  have hb: "header_block (en_header e) \<noteq> []" using ar header_block_archive(1) by (simp add: archive_ok_def)
  obtain e2 where e2: "cut_down e e2"
    and comp: "engine_compact env ck e = bindS (mapS (put_item env ck) ?items) (\<lambda>_. engine_flush env ck) e2"
    using compact_cut [OF w hb live] by blast
  note i2 = cut_down_inv [OF e2 inv ar st]
  have w2: "writable env e2" "shards_ok P A (en_shards e2)" using i2(1) by (simp_all add: engine_inv_def)
  obtain e3 where e3: "run_ops env ?ops e2 = Some (Inr (), e3)" "history_run env U P A ?ops e2 e3"
    using run_history [OF cl ok(2) inj(1) w2] by blast
  note ref = history_refines [OF e3(2) i2(1) ok(2), unfolded i2(3)]
  have inv3: "engine_inv env U K P A e3" using ref by blast
  have g3: "grows e2 e3" using history_run_grows [OF e3(2)] w2(1) by (simp add: writable_def)
  have abs: "last_write (history ?ops) key None = engine_abs env e key" for key
  proof (cases "engine_abs env e key")
    case None
    then show ?thesis by (simp add: compact_last_write(1))
  next
    case (Some x)
    obtain t a where x: "x = (t, a)" by (cases x)
    obtain entry where l: "live ?es key = Some entry" "a = te_attrs entry" using readable_entry [OF r Some [unfolded x]] by blast
    have "attrs_encodable a"
      using toc(1) live_key [OF l(1)] l(2) by (auto simp: toc_encodable_def list_all_iff entry_encodable_def)
    then have "entry_attrs (attrs_map a) = a"
      using attrs_map_id [of a] by (simp add: entry_attrs_id attrs_encodable_def attrs_inv_def)
    moreover have "latest ?es key = Some entry" "te_tombstone entry = 0"
      using l(1) by (auto simp: live_def split: option.splits if_splits)
    ultimately show ?thesis using compact_last_write(2) [of "engine_abs env e" key t a ?es entry ck None] Some x l(2) by simp
  qed
  have w3: "writable env e3" using inv3 by (simp add: engine_inv_def)
  obtain e4 where e4: "engine_flush env ck e3 = Some (Inr (), e4)" "grows e3 e4" "same_index e3 e4"
    using flush_effect [OF w3] by blast
  have toc4: "en_master_toc e4 = en_master_toc e3" using e4(3) by (simp add: same_index_def)
  note inv4 = engine_inv_same_index [OF inv3 e4(2,3)]
  have abs4: "engine_abs env e4 = engine_abs env e" if l: "length (contents (en_io e4)) < 2 ^ 64"
    using inv4(2) [OF l] ref engine_inv_grows_length [OF e4(2) l] by (auto simp: abs)
  obtain us where "mapS (put_item env ck) ?items e2 = Some (Inr us, e3)" using put_items_run [OF e3(1)] by blast
  then have "engine_compact env ck e = Some (Inr (), e4)" by (simp add: comp bindS_def e4(1))
  moreover have "archive_ok e4" by (rule archive_ok_grows [OF i2(2) grows_trans [OF g3 e4(2)]])
  moreover have "toc_encodable (en_master_toc e4)" "table_class (toc_entries (en_master_toc e4)) P A"
    using history_encodable [OF e3(2) i2(4) ok(3) few] history_table_class [OF e3(2) i2(4) cl ok(2)] by (simp_all add: toc4)
  moreover have "en_is_closed e4 = en_is_closed e"
    using e2 g3 e4(2) by (simp add: cut_down_def grows_def)
  ultimately show ?thesis using inv4(1) abs4 by blast
qed

end
