(* ===== verification/Cli.thy ===== *)
theory Cli
  imports Database Compact_Opened
begin

text \<open>
  The command line front end, \<open>crates/tpx-cli/src/main.rs\<close>. A command takes the file at its path,
  and answers what it prints together with the file it leaves; the layout of the printed
  lines is left out. A panic of the engine is \<open>None\<close>.
\<close>

section \<open>The commands\<close>

datatype cli_command = CmdInfo | CmdTree "bytes option" | CmdVerify | CmdCompact | CmdDedupStats

record info_report =
  ir_format_version :: u16
  ir_flags :: u16
  ir_shard_count :: u16
  ir_file_size :: nat
  ir_live_keys :: nat
  ir_tombstoned_keys :: nat
  ir_total_entries :: nat

definition cli_info_report :: "engine \<Rightarrow> info_report" where
  "cli_info_report e =
     (let file_size = io_len (en_io e);
          entries = toc_entries (en_master_toc e);
          live_keys = length (filter (\<lambda>t. te_tombstone t = 0) entries);
          tombstoned_keys = length entries - live_keys in
      \<lparr>ir_format_version = fh_format_version (en_header e), ir_flags = fh_flags (en_header e),
       ir_shard_count = fh_shard_count (en_header e), ir_file_size = file_size, ir_live_keys = live_keys,
       ir_tombstoned_keys = tombstoned_keys, ir_total_entries = length entries\<rparr>)"

text \<open>
  The listing of \<open>tree\<close>: the number of keys, and each with its type name and shape, in the
  order of the map that the prefix read answers.
\<close>

definition cli_tree_lines :: "(bytes, owned_tensor) hash_map \<Rightarrow> nat \<times> (bytes \<times> string \<times> u32 list) list" where
  "cli_tree_lines tensors =
     (length tensors, map (\<lambda>(key, tensor). (key, DTypeId_as_str (ot_dtype tensor), ot_shape tensor)) tensors)"

datatype verify_report = VerifyPassed | VerifyFailed "(bytes \<times> tpx_error) list" | CannotOpen tpx_error

fun verify_entries :: "engine_env \<Rightarrow> toc_entry list \<Rightarrow> engine \<Rightarrow> ((bytes \<times> tpx_error) list \<times> engine) option" where
  "verify_entries env [] e = Some ([], e)"
| "verify_entries env (entry # es) e =
     (if te_tombstone entry = 0 then
        (case engine_get env (te_key entry) e of
           None \<Rightarrow> None
         | Some (r, e') \<Rightarrow>
             map_option (\<lambda>(errs, e''). ((case r of Inl err \<Rightarrow> [(te_key entry, err)] | Inr _ \<Rightarrow> []) @ errs, e''))
               (verify_entries env es e'))
      else verify_entries env es e)"

text \<open>A failed verification ends the process without dropping the engine.\<close>

definition cli_verify :: "engine_env \<Rightarrow> clock \<Rightarrow> bytes option \<Rightarrow> bool \<Rightarrow> (verify_report \<times> bytes option) option" where
  "cli_verify env ck existing locked =
     (case engine_open env ck existing locked ReadOnly of
        None \<Rightarrow> None
      | Some (Inl err) \<Rightarrow> Some (CannotOpen err, None)
      | Some (Inr e) \<Rightarrow>
          (case verify_entries env (toc_entries (en_master_toc e)) e of
             None \<Rightarrow> None
           | Some (errs, e') \<Rightarrow>
               if errs = [] then map_option (\<lambda>e''. (VerifyPassed, Some (mb_file (en_io e'')))) (engine_drop env ck e')
               else Some (VerifyFailed errs, Some (mb_file (en_io e')))))"

definition exit_code :: "verify_report \<Rightarrow> nat" where
  "exit_code r = (case r of VerifyPassed \<Rightarrow> 0 | _ \<Rightarrow> 1)"

record dedup_stats =
  ds_logical_bytes :: u64
  ds_file_size :: nat
  ds_ratio :: real

text \<open>Sizes are \<open>usize\<close> and wrap, as in a release build; the quotient is not rounded.\<close>

fun logical_volume :: "toc_entry list \<Rightarrow> u64 \<Rightarrow> u64" where
  "logical_volume [] logical_bytes = logical_bytes"
| "logical_volume (entry # es) logical_bytes =
     logical_volume es
       (if te_tombstone entry = 0 then
          (let elem_count = fold (\<lambda>x acc. acc * ucast x) (te_shape entry) 1 in
           logical_bytes + elem_count * of_nat (element_size (te_dtype_id entry)))
        else logical_bytes)"

definition cli_dedup_stats :: "engine \<Rightarrow> dedup_stats" where
  "cli_dedup_stats e =
     (let file_size = io_len (en_io e);
          logical_bytes = logical_volume (toc_entries (en_master_toc e)) 0;
          ratio = (if file_size > 0 then real (unat logical_bytes) / real file_size else 1) in
      \<lparr>ds_logical_bytes = logical_bytes, ds_file_size = file_size, ds_ratio = ratio\<rparr>)"

datatype cli_output = InfoOutput info_report | TreeOutput bytes "nat \<times> (bytes \<times> string \<times> u32 list) list"
  | VerifyOutput verify_report | CompactOutput | StatsOutput dedup_stats

definition opened_then ::
  "engine_env \<Rightarrow> clock \<Rightarrow> engine res option \<Rightarrow> cli_output op \<Rightarrow> (cli_output res \<times> bytes option) option" where
  "opened_then env ck opened body = (case opened of None \<Rightarrow> None | Some r \<Rightarrow> scoped env ck body r)"

definition cli_main ::
  "engine_env \<Rightarrow> clock \<Rightarrow> bytes option \<Rightarrow> bool \<Rightarrow> cli_command \<Rightarrow> (cli_output res \<times> bytes option) option" where
  "cli_main env ck existing locked command =
     (case command of
        CmdInfo \<Rightarrow>
          opened_then env ck (engine_open env ck existing locked ReadOnly) (\<lambda>e. okS (InfoOutput (cli_info_report e)) e)
      | CmdTree pre \<Rightarrow>
          (let pfx = (case pre of None \<Rightarrow> [] | Some p \<Rightarrow> p) in
           opened_then env ck (Db_open env ck existing locked ReadOnly)
             (bindS (Db_get_prefix env pfx) (\<lambda>tensors. okS (TreeOutput pfx (cli_tree_lines tensors)))))
      | CmdVerify \<Rightarrow> map_option (\<lambda>(r, arch). (Inr (VerifyOutput r), arch)) (cli_verify env ck existing locked)
      | CmdCompact \<Rightarrow>
          opened_then env ck (Db_open env ck existing locked ReadWrite)
            (bindS (Db_compact env ck) (\<lambda>_. okS CompactOutput))
      | CmdDedupStats \<Rightarrow>
          opened_then env ck (engine_open env ck existing locked ReadOnly) (\<lambda>e. okS (StatsOutput (cli_dedup_stats e)) e))"

section \<open>Compacting a file\<close>

text \<open>What was stored keeps the limits of the puts that stored it.\<close>

lemma last_write_put:
  "last_write (history ops) key None = Some (t, a) \<Longrightarrow>
     \<exists>ck dtype shape attrs retain. (ck, PutOp key (ot_data t) dtype shape attrs retain) \<in> set ops"
proof (induction ops rule: rev_induct)
  case (snoc x ops)
  obtain ck op where x: "x = (ck, op)" by (cases x)
  have h: "last_write (history (ops @ [x])) key None = abs_step op (\<lambda>k. last_write (history ops) k None) key"
    by (cases op) (auto simp: x history_append last_write_append history_def abs_step_def)
  show ?case
  proof (cases "\<exists>data dtype shape attrs retain. op = PutOp key data dtype shape attrs retain")
    case True
    then obtain data dtype shape attrs retain where op: "op = PutOp key data dtype shape attrs retain" by blast
    then have "t = OwnedTensor_new dtype shape data" using snoc.prems unfolding h by (simp add: abs_step_def)
    then have "(ck, PutOp key (ot_data t) dtype shape attrs retain) \<in> set (ops @ [x])" using op x by (simp add: OwnedTensor_new_def)
    then show ?thesis by blast
  next
    case False
    then have "last_write (history ops) key None = Some (t, a)"
      using snoc.prems unfolding h by (cases op) (auto simp: abs_step_def split: if_splits)
    from snoc.IH [OF this] show ?thesis unfolding set_append by blast
  qed
qed (simp add: history_def)

lemma stored_entry_encodable:
  assumes "entry_encodable entry"
  shows "entry_encodable (stored_entry entry)"
proof -
  have a: "attrs_encodable (te_attrs entry)" using assms by (simp add: entry_encodable_def)
  have "Attrs_serialize (attrs_sorted (te_attrs entry)) = Attrs_serialize (te_attrs entry)"
    using a by (simp add: Attrs_serialize_def map_of_attrs_sorted attrs_encodable_def attrs_inv_def sorted_sort_id)
  then show ?thesis using assms attrs_encodable_sorted [OF a] by (simp add: entry_encodable_def)
qed

lemma reopened_encodable:
  assumes "reopened env P A mode c e e2" and "toc_encodable (en_master_toc e)" "table_class (toc_entries (en_master_toc e)) P A"
  shows "toc_encodable (en_master_toc e2)" "table_class (toc_entries (en_master_toc e2)) P A"
    "length (toc_entries (en_master_toc e2)) = length (toc_entries (en_master_toc e))"
  using assms stored_entry_encodable
  by (auto simp: reopened_def toc_encodable_def list_all_iff table_class_def)

text \<open>Opening, compacting and leaving, as one call.\<close>

lemma main_compact:
  assumes "engine_open env ck (Some arch) locked ReadWrite = Some (Inr e)"
    and "engine_compact env ck e = Some (Inr (), e1)" "engine_close env ck e1 = Some (Inr (), e2)" "mb_write_buffer (en_io e2) = []"
  shows "cli_main env ck (Some arch) locked CmdCompact = Some (Inr CompactOutput, Some (mb_file (en_io e2)))"
  using assms engine_drop_closed [OF assms(3,4)]
  by (simp add: cli_main_def opened_then_def Db_open_def scoped_def bindS_def Db_compact_def okS_def)

lemma compact_file:
  assumes inv: "engine_inv env U K P A e" and ar: "archive_ok e" and flush: "engine_flush env ck1 e = Some (Inr (), e1)"
    and toc: "toc_encodable (en_master_toc e)" "table_class (toc_entries (en_master_toc e)) P A"
    and inj: "inj_on (ev_hash128 env) U" "inj_on (\<lambda>k. ev_xxh64 env k 0) K" and len: "length (contents (en_io e1)) < 2 ^ 64"
    and data: "tensors_fit env U (engine_abs env e)"
  shows "\<exists>arch. cli_main env ck2 (Some (mb_file (en_io e1))) False CmdCompact = Some (Inr CompactOutput, Some arch) \<and>
    (length arch < 2 ^ 64 \<longrightarrow> (\<exists>e5. engine_open env ck3 (Some arch) False ReadOnly = Some (Inr e5) \<and> readable env K e5 \<and>
       (\<forall>key. same_tensor (engine_abs env e5 key) (engine_abs env e key))))"
proof -
  have fl: "mb_file (en_io e1) = contents (en_io e1)" using flush_effect [of env e ck1] flush inv by (auto simp: engine_inv_def)
  obtain e2 where e2: "engine_open env ck2 (Some (mb_file (en_io e1))) False ReadWrite = Some (Inr e2)"
    "reopened env P A ReadWrite (mb_file (en_io e1)) e e2" "engine_inv env U K P A e2" "archive_ok e2"
    using reopen_after_flush [OF inv ar toc flush len, of "[]" ck2 ReadWrite] by (auto simp: torn_ok_def)
  note r2 = e2(2) [unfolded reopened_def] and toc2 = reopened_encodable [OF e2(2) toc]
  have b2: "in_bounds e2" using r2 len fl toc2(1) by (simp add: in_bounds_def toc_encodable_def)
  have "tensors_fit env U (engine_abs env e2)"
    unfolding tensors_fit_def
  proof (intro allI impI)
    fix key t a assume "engine_abs env e2 key = Some (t, a)"
    then have "same_tensor (Some (t, a)) (engine_abs env e key)" using r2 by metis
    then obtain a' where "engine_abs env e key = Some (t, a')" by (cases "engine_abs env e key") (auto simp: same_tensor_def)
    then show "cut_into env U (ot_data t) \<and> length (ot_data t) div 32768 + 1 < 2 ^ 16"
      using data unfolding tensors_fit_def by blast
  qed
  note compacted = compact_empty_store [OF e2(3,4) b2 _ inj toc2(1,2) this, of ck2]
  obtain e3 where e3: "engine_compact env ck2 e2 = Some (Inr (), e3)" "engine_inv env U K P A e3" "archive_ok e3"
    "toc_encodable (en_master_toc e3)" "table_class (toc_entries (en_master_toc e3)) P A" "\<not> en_is_closed e3"
    "length (contents (en_io e3)) < 2 ^ 64 \<longrightarrow> engine_abs env e3 = engine_abs env e2"
    using compacted r2 by auto
  obtain e4 where e4: "engine_close env ck2 e3 = Some (Inr (), e4)" "length (contents (en_io e3)) \<le> length (mb_file (en_io e4))"
    "length (contents (en_io e3)) < 2 ^ 64 \<longrightarrow> (\<exists>e5. engine_open env ck3 (Some (mb_file (en_io e4))) False ReadOnly = Some (Inr e5) \<and>
       reopened env P A ReadOnly (mb_file (en_io e4)) e3 e5)"
    "mb_write_buffer (en_io e4) = []"
    using reopen_after_close [OF e3(2,3,6,4,5)] by blast
  have "\<exists>e5. engine_open env ck3 (Some (mb_file (en_io e4))) False ReadOnly = Some (Inr e5) \<and> readable env K e5 \<and>
      (\<forall>key. same_tensor (engine_abs env e5 key) (engine_abs env e key))" if "length (mb_file (en_io e4)) < 2 ^ 64"
  proof -
    have len3: "length (contents (en_io e3)) < 2 ^ 64" using that e4(2) by simp
    obtain e5 where e5: "engine_open env ck3 (Some (mb_file (en_io e4))) False ReadOnly = Some (Inr e5)"
      "reopened env P A ReadOnly (mb_file (en_io e4)) e3 e5" using e4(3) len3 by blast
    have "in_bounds e3" using len3 e3(4) by (simp add: in_bounds_def toc_encodable_def)
    then have "readable env K e5" by (rule reopened_readable [OF e5(2) e3(2) _ inj(2)])
    moreover have "same_tensor (engine_abs env e5 key) (engine_abs env e key)" for key
      using e5(2) e3(7) len3 r2 same_tensor_trans unfolding reopened_def by metis
    ultimately show ?thesis using e5(1) by blast
  qed
  then show ?thesis using main_compact [OF e2(1) e3(1) e4(1,4)] by blast
qed

text \<open>
  C4: the compaction command keeps every tensor. Take the file after any history of puts,
  deletions and reads and a flush. The command succeeds on it, and the file that it leaves
  opens and answers, for every key, the tensor and the attributes of the key's last put in
  the history, or nothing if the key was deleted since. The content store of the opened
  archive is empty, which is why this compaction writes the live tensors anew, while one in the
  session that stored them loses them.
\<close>

theorem cli_compact_preserves:
  assumes "env_ok env" and "engine_create_with_retention ck0 existing locked sc retention = Inr e0"
    and "4096 dvd length (case existing of None \<Rightarrow> [] | Some f \<Rightarrow> f)"
    and "history_ok env U K ops" and "\<forall>x \<in> set ops. op_storable (snd x)" and "length ops < 2 ^ 32"
  shows "\<exists>e1. run_ops env (ops @ [(ck1, FlushOp)]) e0 = Some (Inr (), e1) \<and> (length (contents (en_io e1)) < 2 ^ 64 \<longrightarrow>
    (\<exists>arch. cli_main env ck2 (Some (mb_file (en_io e1))) False CmdCompact = Some (Inr CompactOutput, Some arch) \<and>
      (length arch < 2 ^ 64 \<longrightarrow> (\<exists>e2. engine_open env ck3 (Some arch) False ReadOnly = Some (Inr e2) \<and>
        (\<forall>key \<in> K. \<exists>e3. engine_get env key e2 = Some (Inr (map_option fst (last_write (history ops) key None)), e3) \<and>
           (case last_write (history ops) key None of
              None \<Rightarrow> engine_get_attrs env key e2 = Inl (KeyNotFound key)
            | Some (_, attrs) \<Rightarrow> \<exists>m. engine_get_attrs env key e2 = Inr m \<and> map_of m = map_of (attrs_map attrs)))))))"
proof -
  obtain P A where pa: "history_class ops P A" "\<forall>x \<in> set ops. op_admissible env U K A (snd x)"
    using history_ok_class [OF assms(4)] by blast
  have inj: "inj_on (ev_hash128 env) U" "inj_on (\<lambda>k. ev_xxh64 env k 0) K" using assms(4) by (simp_all add: history_ok_def)
  obtain e e1 where inv: "engine_inv env U K P A e" "archive_ok e" "engine_flush env ck1 e = Some (Inr (), e1)"
      "toc_encodable (en_master_toc e)" "table_class (toc_entries (en_master_toc e)) P A" and g: "grows e e1"
    and run: "run_ops env (ops @ [(ck1, FlushOp)]) e0 = Some (Inr (), e1)"
    and abs: "length (contents (en_io e)) < 2 ^ 64 \<longrightarrow> (\<forall>key. engine_abs env e key = last_write (history ops) key None)"
    using flushed_history [OF assms(1-3) pa inj(1) assms(5,6)] by blast
  show ?thesis
  proof (rule exI [of _ e1], intro conjI impI run)
    assume len: "length (contents (en_io e1)) < 2 ^ 64"
    have abs: "engine_abs env e key = last_write (history ops) key None" for key
      using abs engine_inv_grows_length [OF g len] by blast
    have data: "tensors_fit env U (engine_abs env e)"
      unfolding tensors_fit_def
    proof (intro allI impI)
      fix key t a assume "engine_abs env e key = Some (t, a)"
      then have "last_write (history ops) key None = Some (t, a)" by (simp add: abs)
      from last_write_put [OF this]
      obtain ck dtype shape attrs retain where "(ck, PutOp key (ot_data t) dtype shape attrs retain) \<in> set ops" by blast
      then show "cut_into env U (ot_data t) \<and> length (ot_data t) div 32768 + 1 < 2 ^ 16"
        using pa(2) assms(5) by (fastforce simp: op_admissible_def op_storable_def)
    qed
    show "\<exists>arch. cli_main env ck2 (Some (mb_file (en_io e1))) False CmdCompact = Some (Inr CompactOutput, Some arch) \<and>
      (length arch < 2 ^ 64 \<longrightarrow> (\<exists>e2. engine_open env ck3 (Some arch) False ReadOnly = Some (Inr e2) \<and>
        (\<forall>key \<in> K. \<exists>e3. engine_get env key e2 = Some (Inr (map_option fst (last_write (history ops) key None)), e3) \<and>
           (case last_write (history ops) key None of
              None \<Rightarrow> engine_get_attrs env key e2 = Inl (KeyNotFound key)
            | Some (_, attrs) \<Rightarrow> \<exists>m. engine_get_attrs env key e2 = Inr m \<and> map_of m = map_of (attrs_map attrs)))))"
      using compact_file [OF inv inj len data] readable_answers unfolding abs by meson
  qed
qed

theorem cli_compact_preserves_witness:
  "\<exists>e0 e1 arch. engine_create example_clock None False (Some 2) = Inr e0 \<and>
     run_ops example_env [(example_clock, PutOp [1] [7, 8] UInt8 [2] [] []), (example_clock, FlushOp)] e0 = Some (Inr (), e1) \<and>
     cli_main example_env example_clock (Some (mb_file (en_io e1))) False CmdCompact = Some (Inr CompactOutput, Some arch)"
proof -
  obtain e0 e1 where e: "engine_create example_clock None False (Some 2) = Inr e0" "length (contents (en_io e1)) < 2 ^ 64"
    "run_ops example_env [(example_clock, PutOp [1] [7, 8] UInt8 [2] [] []), (example_clock, FlushOp)] e0 = Some (Inr (), e1)"
    using example_flushed by blast
  show ?thesis
    using cli_compact_preserves [OF example_env_ok e(1) [unfolded engine_create_def] _ example_history [of "[]"], of example_clock example_clock]
      example_storable e by auto
qed

section \<open>Verifying a file\<close>

lemma verify_entries_readable:
  assumes "readable env K e" "te_key ` set es \<subseteq> K"
  shows "\<exists>e'. verify_entries env es e = Some ([], e') \<and> reads_only e e'"
  using assms
proof (induction es arbitrary: e)
  case Nil
  then show ?case using reads_only_refl [of e] by (auto simp: readable_def)
next
  case (Cons entry es)
  show ?case
  proof (cases "te_tombstone entry = 0")
    case True
    obtain e1 where e1: "engine_get env (te_key entry) e = Some (Inr (map_option fst (engine_abs env e (te_key entry))), e1)"
      "reads_only e e1"
      using engine_get_readable [OF Cons.prems(1), of "te_key entry"] Cons.prems(2) by auto
    obtain e2 where e2: "verify_entries env es e1 = Some ([], e2)" "reads_only e1 e2"
      using Cons.IH [OF readable_reads_only [OF e1(2) Cons.prems(1)]] Cons.prems(2) by auto
    then show ?thesis using True e1(1) reads_only_trans [OF e1(2) e2(2)] by auto
  qed (use Cons in auto)
qed

lemma verify_readable:
  assumes "engine_open env ck (Some arch) locked ReadOnly = Some (Inr e)" and "readable env K e"
    and "en_mode e = ReadOnly" "mb_mode (en_io e) = ReadOnly" "contents (en_io e) = arch"
  shows "cli_main env ck (Some arch) locked CmdVerify = Some (Inr (VerifyOutput VerifyPassed), Some arch)"
proof -
  obtain e1 where e1: "verify_entries env (toc_entries (en_master_toc e)) e = Some ([], e1)" "reads_only e e1"
    using verify_entries_readable [OF assms(2), of "toc_entries (en_master_toc e)"] assms(2) unfolding readable_def by blast
  note ro = reads_onlyD [OF e1(2)]
  have "contents (en_io e1) = arch" "mb_write_buffer (en_io e1) = []" using ro assms(4,5) by (simp_all add: io_inv_def)
  then obtain e2 where "engine_drop env ck e1 = Some e2" "mb_file (en_io e2) = arch"
    using close_read_only [of e1 env ck] ro assms(3) by auto
  then show ?thesis using assms(1) e1(1) by (simp add: cli_main_def cli_verify_def)
qed

lemma checkpoint_block_footer:
  "length fb = length fb' \<Longrightarrow> \<exists>pre. checkpoint_block tb fb = pre @ fb \<and> checkpoint_block tb fb' = pre @ fb'"
  by (simp add: checkpoint_block_def Let_def)

text \<open>
  C37: verification. After any history and a flush the verification command reports the file
  as sound and leaves it alone; but it reports the same for the file with any other checksum
  in its footer, which nothing compares with the table.
\<close>

theorem verify_ignores_checksum:
  assumes "env_ok env" and "engine_create_with_retention ck0 existing locked0 sc retention = Inr e0"
    and "4096 dvd length (case existing of None \<Rightarrow> [] | Some f \<Rightarrow> f)"
    and "history_ok env U K ops" and "\<forall>x \<in> set ops. op_storable (snd x)" and "length ops < 2 ^ 32"
  shows "\<exists>e1. run_ops env (ops @ [(ck1, FlushOp)]) e0 = Some (Inr (), e1) \<and> (length (contents (en_io e1)) < 2 ^ 64 \<longrightarrow>
    (\<exists>before f. mb_file (en_io e1) = before @ Footer_serialize f \<and> footer_ok f \<and>
      (\<forall>x. let arch = before @ Footer_serialize (f\<lparr>ft_checksum := x\<rparr>) in
         cli_main env ck2 (Some arch) locked CmdVerify = Some (Inr (VerifyOutput VerifyPassed), Some arch))))"
proof -
  obtain P A where pa: "history_class ops P A" "\<forall>x \<in> set ops. op_admissible env U K A (snd x)"
    using history_ok_class [OF assms(4)] by blast
  have inj: "inj_on (ev_hash128 env) U" "inj_on (\<lambda>k. ev_xxh64 env k 0) K" using assms(4) by (simp_all add: history_ok_def)
  obtain e e1 where inv: "engine_inv env U K P A e" "archive_ok e"
      "toc_encodable (en_master_toc e)" "table_class (toc_entries (en_master_toc e)) P A"
    and e1: "engine_flush env ck1 e = Some (Inr (), e1)" "grows e e1"
    and run: "run_ops env (ops @ [(ck1, FlushOp)]) e0 = Some (Inr (), e1)"
    using flushed_history [OF assms(1-3) pa inj(1) assms(5,6)] by blast
  have w: "writable env e" using inv(1) by (simp add: engine_inv_def)
  obtain f where fd: "f = checkpoint_footer (ev_xxh64 env) (en_shards e) (Toc_serialize (en_master_toc e)) (length (contents (en_io e))) False"
    and c: "mb_file (en_io e1) = contents (en_io e) @ checkpoint_block (Toc_serialize (en_master_toc e)) (Footer_serialize f)"
    using flush_effect [OF w, of ck1] e1(1) by auto
  have f: "footer_ok f" "unat (ft_toc_offset f) = unat (of_nat (length (contents (en_io e))) :: u64)"
    by (simp_all add: fd footer_ok_checkpoint) (simp add: checkpoint_footer_def Footer_new_def)
  have same: "length (Footer_serialize f) = length (Footer_serialize (f\<lparr>ft_checksum := x\<rparr>))" "footer_ok (f\<lparr>ft_checksum := x\<rparr>)" for x
    using f(1) by (simp_all add: footer_ok_iff)
  obtain pre where pre: "mb_file (en_io e1) = pre @ Footer_serialize f"
    using c by (auto simp: checkpoint_block_def Let_def)
  show ?thesis
  proof (rule exI [of _ e1], intro conjI impI run, rule exI [of _ pre], rule exI [of _ f], intro conjI allI pre f(1))
    fix x assume len1: "length (contents (en_io e1)) < 2 ^ 64"
    let ?arch = "pre @ Footer_serialize (f\<lparr>ft_checksum := x\<rparr>)"
    have len: "length (contents (en_io e)) < 2 ^ 64" by (rule engine_inv_grows_length [OF e1(2) len1])
    have "?arch = contents (en_io e) @ checkpoint_block (Toc_serialize (en_master_toc e)) (Footer_serialize (f\<lparr>ft_checksum := x\<rparr>))"
      using c pre checkpoint_block_footer [OF same(1), of "Toc_serialize (en_master_toc e)" x] by auto
    from reopen_checkpoint [OF inv len same(2) _ this, of "[]" ck2 ReadOnly]
    obtain e2 where e2: "engine_open env ck2 (Some ?arch) False ReadOnly = Some (Inr e2)" "reopened env P A ReadOnly ?arch e e2"
      using f(2) len by (auto simp: torn_ok_def unat_of_nat)
    have "in_bounds e" using len inv(3) by (simp add: in_bounds_def toc_encodable_def)
    then have rd: "readable env K e2" by (rule reopened_readable [OF e2(2) inv(1) _ inj(2)])
    show "let arch = ?arch in cli_main env ck2 (Some arch) locked CmdVerify = Some (Inr (VerifyOutput VerifyPassed), Some arch)"
      using verify_readable [OF _ rd] e2 engine_open_read_only [of env ck2 "Some ?arch" locked]
      by (simp add: reopened_def)
  qed
qed

theorem verify_ignores_checksum_witness:
  "\<exists>e0 e1 before f. engine_create example_clock None False (Some 2) = Inr e0 \<and>
     run_ops example_env [(example_clock, PutOp [1] [7, 8] UInt8 [2] [] []), (example_clock, FlushOp)] e0 = Some (Inr (), e1) \<and>
     mb_file (en_io e1) = before @ Footer_serialize f \<and>
     (let arch = before @ Footer_serialize (f\<lparr>ft_checksum := ft_checksum f + 1\<rparr>) in
        cli_main example_env example_clock (Some arch) False CmdVerify = Some (Inr (VerifyOutput VerifyPassed), Some arch))"
proof -
  obtain e0 e1 where e: "engine_create example_clock None False (Some 2) = Inr e0" "length (contents (en_io e1)) < 2 ^ 64"
    and run: "run_ops example_env [(example_clock, PutOp [1] [7, 8] UInt8 [2] [] []), (example_clock, FlushOp)] e0 = Some (Inr (), e1)"
    using example_flushed by blast
  obtain before f where "mb_file (en_io e1) = before @ Footer_serialize f"
    "\<forall>x. let arch = before @ Footer_serialize (f\<lparr>ft_checksum := x\<rparr>) in
       cli_main example_env example_clock (Some arch) False CmdVerify = Some (Inr (VerifyOutput VerifyPassed), Some arch)"
    using verify_ignores_checksum [OF example_env_ok e(1) [unfolded engine_create_def] _ example_history [of "[]"],
        of example_clock example_clock False] example_storable e(2) run by auto
  then show ?thesis using e(1) run by blast
qed

end
