(* ===== verification/Py_Binding.thy ===== *)
theory Py_Binding
  imports Database
begin

text \<open>
  The Python binding, \<open>crates/tpx-py/src/lib.rs\<close>: the methods of \<open>NativeTPXEngine\<close> around the
  database. A Python exception carries the error whose text it shows; a panic of the engine
  is \<open>None\<close>. A dictionary is an association list in the order of its insertions.
\<close>

section \<open>Python values\<close>

datatype py_error = PyValueError tpx_error | PyRuntimeError tpx_error

type_synonym 'a py = "engine \<Rightarrow> ((py_error + 'a) \<times> engine) option"

datatype py_value = PyInt int | PyList "int list" | PyBytes bytes

type_synonym py_dict = "(string, py_value) hash_map"

definition pyS :: "'a op \<Rightarrow> 'a py" where
  "pyS m e = map_option (\<lambda>(r, e'). (case r of Inl err \<Rightarrow> Inl (PyRuntimeError err) | Inr x \<Rightarrow> Inr x, e')) (m e)"

definition set_item :: "'k \<Rightarrow> 'v \<Rightarrow> ('k, 'v) hash_map \<Rightarrow> ('k, 'v) hash_map" where
  "set_item k v d = AList.update k v d"

definition tensor_dict :: "owned_tensor \<Rightarrow> py_dict" where
  "tensor_dict tensor =
     set_item ''data'' (PyBytes (ot_data tensor))
       (set_item ''shape'' (PyList (map uint (ot_shape tensor)))
         (set_item ''dtype'' (PyInt (uint (DTypeId_as_u8 (ot_dtype tensor)))) []))"

definition tensors_dict :: "(bytes \<times> owned_tensor) list \<Rightarrow> (bytes, py_dict) hash_map" where
  "tensors_dict tensors = fold (\<lambda>(k, tensor) out. set_item k (tensor_dict tensor) out) tensors []"

section \<open>Opening\<close>

text \<open>The options that the constructor accepts and ignores.\<close>

record py_options =
  po_enable_direct_io :: bool
  po_alignment :: u32
  po_enable_sqpoll :: bool
  po_enable_iopoll :: bool
  po_enable_spdk :: bool
  po_enable_hugepages :: bool
  po_enable_hw_offload :: bool

definition parse_mode :: "bytes \<Rightarrow> OpenMode" where
  "parse_mode mode =
     (if mode = str ''r'' then ReadOnly
      else if mode = str ''w'' \<or> mode = str ''w+'' then ReadWrite
      else Append)"

definition py_new ::
  "engine_env \<Rightarrow> clock \<Rightarrow> bytes option \<Rightarrow> bool \<Rightarrow> bytes \<Rightarrow> py_options \<Rightarrow> u16 option \<Rightarrow> (py_error + engine) option" where
  "py_new env ck existing locked mode options shard_count =
     (let open_mode = parse_mode mode in
      map_option (\<lambda>r. case r of Inl err \<Rightarrow> Inl (PyRuntimeError err) | Inr db \<Rightarrow> Inr db)
        (if (open_mode = ReadWrite \<or> open_mode = Append) \<and> existing = None
         then Some (Db_create ck existing locked shard_count)
         else Db_open env ck existing locked open_mode))"

section \<open>Methods\<close>

definition py_put ::
  "engine_env \<Rightarrow> clock \<Rightarrow> bytes \<Rightarrow> bytes \<Rightarrow> u8 \<Rightarrow> u32 list \<Rightarrow> (bytes \<times> bytes) list option \<Rightarrow> bytes option \<Rightarrow> unit py" where
  "py_put env ck key data dtype shape attrs retain e =
     (case DTypeId_from_u8 dtype of
        Inl err \<Rightarrow> Some (Inl (PyValueError err), e)
      | Inr dtype_id \<Rightarrow>
          let attrs_map = (case attrs of
                None \<Rightarrow> []
              | Some m \<Rightarrow> fold (\<lambda>(k, v) acc. AList.update k (AString v) acc) m []) in
          pyS (Db_put env ck key data dtype_id shape (Some attrs_map) retain) e)"

fun prepare_batch :: "(bytes \<times> bytes \<times> u8 \<times> u32 list) list \<Rightarrow> batch_item list res" where
  "prepare_batch [] = Inr []"
| "prepare_batch ((key, data, dtype, shape) # tensors) =
     bindR (DTypeId_from_u8 dtype) (\<lambda>dtype_id.
     bindR (prepare_batch tensors) (\<lambda>prepared.
       Inr ((key, data, dtype_id, shape) # prepared)))"

definition py_put_batch :: "engine_env \<Rightarrow> clock \<Rightarrow> (bytes \<times> bytes \<times> u8 \<times> u32 list) list \<Rightarrow> unit py" where
  "py_put_batch env ck tensors e =
     (case prepare_batch tensors of
        Inl err \<Rightarrow> Some (Inl (PyValueError err), e)
      | Inr prepared \<Rightarrow> pyS (Db_put_batch env ck prepared) e)"

definition py_get :: "engine_env \<Rightarrow> bytes \<Rightarrow> py_dict option py" where
  "py_get env key = pyS (bindS (Db_get env key) (\<lambda>t. okS (map_option tensor_dict t)))"

definition py_get_prefix :: "engine_env \<Rightarrow> bytes \<Rightarrow> (bytes, py_dict) hash_map py" where
  "py_get_prefix env pre = pyS (bindS (Db_get_prefix env pre) (\<lambda>tensors. okS (tensors_dict tensors)))"

definition py_get_batch :: "engine_env \<Rightarrow> bytes list \<Rightarrow> (bytes, py_dict) hash_map py" where
  "py_get_batch env keys = pyS (bindS (Db_get_batch env keys) (\<lambda>results. okS (tensors_dict results)))"

definition py_keys :: "bytes list py" where
  "py_keys = pyS Db_keys"

definition py_delete :: "engine_env \<Rightarrow> bytes \<Rightarrow> unit py" where
  "py_delete env key = pyS (Db_delete env key)"

definition py_list_versions :: "engine_env \<Rightarrow> bytes \<Rightarrow> u32 list py" where
  "py_list_versions env key = pyS (Db_list_versions env key)"

definition py_get_version :: "engine_env \<Rightarrow> bytes \<Rightarrow> u32 \<Rightarrow> py_dict option py" where
  "py_get_version env key version = pyS (bindS (Db_get_version env key version) (\<lambda>t. okS (map_option tensor_dict t)))"

definition py_flush :: "engine_env \<Rightarrow> clock \<Rightarrow> unit py" where
  "py_flush env ck = pyS (Db_flush env ck)"

definition py_compact :: "engine_env \<Rightarrow> clock \<Rightarrow> unit py" where
  "py_compact env ck = pyS (Db_compact env ck)"

definition py_close :: "engine_env \<Rightarrow> clock \<Rightarrow> unit py" where
  "py_close env ck = pyS (Db_close env ck)"

section \<open>Type codes\<close>

lemma DTypeId_from_u8_invalid: "12 < code \<Longrightarrow> DTypeId_from_u8 code = Inl (InvalidDType code)"
  by (auto simp: DTypeId_from_u8_def)

lemma DTypeId_from_u8_as_u8: "DTypeId_from_u8 (DTypeId_as_u8 dtype) = Inr dtype"
  by (cases dtype) (simp_all add: DTypeId_from_u8_def)

lemma tensor_dict_eq:
  "tensor_dict tensor = [(''dtype'', PyInt (uint (DTypeId_as_u8 (ot_dtype tensor)))),
     (''shape'', PyList (map uint (ot_shape tensor))), (''data'', PyBytes (ot_data tensor))]"
  by (simp add: tensor_dict_def set_item_def)

lemma py_get_readable:
  assumes "engine_get env key e = Some (Inr r, e')"
  shows "py_get env key e = Some (Inr (map_option tensor_dict r), e')"
  by (simp add: py_get_def pyS_def bindS_def Db_get_def assms okS_def)

lemma py_put_call:
  assumes "engine_put_with_retention env ck key data dtype shape [] (str ''keep_latest'') e = Some (Inr (), e1)"
  shows "py_put env ck key data (DTypeId_as_u8 dtype) shape None None e = Some (Inr (), e1)"
  using assms by (simp add: py_put_def DTypeId_from_u8_as_u8 pyS_def Db_put_def bindS_def resS_def Attrs_new_def)

text \<open>
  C12: type codes at the Python border. After any history, a put with a code that is no
  element type raises a ValueError and changes nothing; with the code of a type it succeeds,
  and reading the key gives a dictionary with the same code, shape and bytes.
\<close>

theorem py_put_get:
  assumes "env_ok env" and "engine_create_with_retention ck0 existing locked sc retention = Inr e0"
    and "history_ok env U K (ops @ [(ck, PutOp key data dtype shape [] (str ''keep_latest''))])" and "Suc (length ops) < 2 ^ 32"
  shows "\<exists>e e1. run_ops env ops e0 = Some (Inr (), e) \<and>
    (\<forall>code > 12. py_put env ck key data code shape attrs retain e = Some (Inl (PyValueError (InvalidDType code)), e)) \<and>
    py_put env ck key data (DTypeId_as_u8 dtype) shape None None e = Some (Inr (), e1) \<and>
    (length (contents (en_io e1)) < 2 ^ 64 \<longrightarrow> (\<exists>e2. py_get env key e1 = Some (Inr (Some
       [(''dtype'', PyInt (uint (DTypeId_as_u8 dtype))), (''shape'', PyList (map uint shape)), (''data'', PyBytes data)]), e2)))"
proof -
  let ?op = "(ck, PutOp key data dtype shape [] (str ''keep_latest''))"
  let ?t = "OwnedTensor_new dtype shape data"
  obtain e1 where e1: "run_ops env (ops @ [?op]) e0 = Some (Inr (), e1)"
    and r: "length (contents (en_io e1)) < 2 ^ 64 \<longrightarrow>
      readable env K e1 \<and> engine_abs env e1 = (\<lambda>k. last_write (history (ops @ [?op])) k None)"
    using created_readable [OF assms(1-3)] assms(4) by auto
  obtain e where e: "run_ops env ops e0 = Some (Inr (), e)"
    "engine_put_with_retention env ck key data dtype shape [] (str ''keep_latest'') e = Some (Inr (), e1)"
    using e1 by (auto simp: run_ops_append bindS_def okS_def split: option.splits sum.splits prod.splits)
  have key: "key \<in> K" using assms(3) by (auto simp: history_ok_def op_admissible_def)
  have "\<exists>e2. py_get env key e1 = Some (Inr (Some (tensor_dict ?t)), e2)" if "length (contents (en_io e1)) < 2 ^ 64"
  proof -
    have rd: "readable env K e1" and "engine_abs env e1 key = Some (?t, [])"
      using r that by (simp_all add: history_def last_write_append)
    then obtain e2 where "engine_get env key e1 = Some (Inr (Some ?t), e2)" using engine_get_readable [OF rd key] by auto
    then show ?thesis using py_get_readable by fastforce
  qed
  then show ?thesis
    using e(1) py_put_call [OF e(2)] DTypeId_from_u8_invalid
    by (auto simp: tensor_dict_eq OwnedTensor_new_def py_put_def)
qed

theorem py_put_get_witness:
  "\<exists>e0 e1 e2. engine_create example_clock None False (Some 2) = Inr e0 \<and>
     py_put example_env example_clock [1] [7, 8] 11 [2] None None e0 = Some (Inr (), e1) \<and>
     py_get example_env [1] e1 = Some (Inr (Some
       [(''dtype'', PyInt 11), (''shape'', PyList [2]), (''data'', PyBytes [7, 8])]), e2)"
proof -
  obtain e0 e where e: "engine_create example_clock None False (Some 2) = Inr e0"
    "engine_put_with_retention example_env example_clock [1] [7, 8] UInt8 [2] [] (str ''keep_latest'') e0 = Some (Inr (), e)"
    "length (contents (en_io e)) < 2 ^ 15"
    using example_put [of "{[1]}"] by blast
  have put: "py_put example_env example_clock [1] [7, 8] 11 [2] None None e0 = Some (Inr (), e)"
    using py_put_call [OF e(2)] by simp
  show ?thesis
    using py_put_get [OF example_env_ok e(1) [unfolded engine_create_def], of "{[7, 8]}" "{[1]}" "[]" example_clock "[1]" "[7, 8]" UInt8 "[2]"]
      example_history [of "str ''keep_latest''"] put e(1,3) by (auto simp: okS_def)
qed

section \<open>Opening an archive\<close>

text \<open>
  C38: mode "w" does not overwrite. After any history and a flush, opening the file in mode "w"
  through the binding succeeds, keeps the archive, and reading a key answers the dictionary
  of its last put, as in mode "a".
\<close>

theorem py_mode_w_keeps:
  assumes "env_ok env" and "engine_create_with_retention ck0 existing locked sc retention = Inr e0"
    and "4096 dvd length (case existing of None \<Rightarrow> [] | Some f \<Rightarrow> f)"
    and "history_ok env U K ops" and "\<forall>x \<in> set ops. op_storable (snd x)" and "length ops < 2 ^ 32"
  shows "\<exists>e1. run_ops env (ops @ [(ck1, FlushOp)]) e0 = Some (Inr (), e1) \<and> (length (contents (en_io e1)) < 2 ^ 64 \<longrightarrow>
    (\<exists>e2. py_new env ck2 (Some (mb_file (en_io e1))) False (str ''w'') options shard_count = Some (Inr e2) \<and>
      contents (en_io e2) = mb_file (en_io e1) \<and>
      (\<forall>key \<in> K. \<exists>e3. py_get env key e2 =
         Some (Inr (map_option (tensor_dict \<circ> fst) (last_write (history ops) key None)), e3))))"
proof -
  obtain P A where pa: "history_class ops P A" "\<forall>x \<in> set ops. op_admissible env U K A (snd x)"
    using history_ok_class [OF assms(4)] by blast
  have inj: "inj_on (ev_hash128 env) U" "inj_on (\<lambda>k. ev_xxh64 env k 0) K" using assms(4) by (simp_all add: history_ok_def)
  obtain e e1 where inv: "engine_inv env U K P A e" "archive_ok e" "toc_encodable (en_master_toc e)"
      "table_class (toc_entries (en_master_toc e)) P A" "engine_flush env ck1 e = Some (Inr (), e1)" and g: "grows e e1"
    and run: "run_ops env (ops @ [(ck1, FlushOp)]) e0 = Some (Inr (), e1)"
    and abs: "length (contents (en_io e)) < 2 ^ 64 \<longrightarrow> (\<forall>key. engine_abs env e key = last_write (history ops) key None)"
    using flushed_history [OF assms(1-3) pa inj(1) assms(5,6)] by blast
  show ?thesis
  proof (rule exI [of _ e1], intro conjI impI run)
    assume len: "length (contents (en_io e1)) < 2 ^ 64"
    have len0: "length (contents (en_io e)) < 2 ^ 64" by (rule engine_inv_grows_length [OF g len])
    obtain e2 where e2: "engine_open env ck2 (Some (mb_file (en_io e1))) False ReadWrite = Some (Inr e2)"
      "reopened env P A ReadWrite (mb_file (en_io e1)) e e2"
      using reopen_after_flush [OF inv len, of "[]" ck2 ReadWrite] by (auto simp: torn_ok_def)
    have "parse_mode (str ''w'') = ReadWrite" by (simp add: parse_mode_def str_def)
    then have new: "py_new env ck2 (Some (mb_file (en_io e1))) False (str ''w'') options shard_count = Some (Inr e2)"
      by (simp add: py_new_def Db_open_def e2(1))
    have "in_bounds e" using len0 inv(3) by (simp add: in_bounds_def toc_encodable_def)
    then have rd: "readable env K e2" by (rule reopened_readable [OF e2(2) inv(1) _ inj(2)])
    have get: "\<exists>e3. py_get env key e2 = Some (Inr (map_option (tensor_dict \<circ> fst) (last_write (history ops) key None)), e3)"
      if k: "key \<in> K" for key
    proof -
      have "same_tensor (engine_abs env e2 key) (last_write (history ops) key None)"
        using e2(2) abs len0 unfolding reopened_def by metis
      then obtain e3 where "engine_get env key e2 = Some (Inr (map_option fst (last_write (history ops) key None)), e3)"
        using readable_answers [OF rd k] by blast
      then show ?thesis using py_get_readable by (fastforce simp: option.map_comp)
    qed
    show "\<exists>e2. py_new env ck2 (Some (mb_file (en_io e1))) False (str ''w'') options shard_count = Some (Inr e2) \<and>
        contents (en_io e2) = mb_file (en_io e1) \<and>
        (\<forall>key \<in> K. \<exists>e3. py_get env key e2 = Some (Inr (map_option (tensor_dict \<circ> fst) (last_write (history ops) key None)), e3))"
      using new get e2(2) unfolding reopened_def by blast
  qed
qed

theorem py_mode_w_keeps_witness:
  "\<exists>options e0 e1 e2 e3. engine_create example_clock None False (Some 2) = Inr e0 \<and>
     run_ops example_env [(example_clock, PutOp [1] [7, 8] UInt8 [2] [] []), (example_clock, FlushOp)] e0 = Some (Inr (), e1) \<and>
     py_new example_env example_clock (Some (mb_file (en_io e1))) False (str ''w'') options None = Some (Inr e2) \<and>
     py_get example_env [1] e2 = Some (Inr (Some (tensor_dict (OwnedTensor_new UInt8 [2] [7, 8]))), e3)"
proof -
  obtain e0 e1 where e: "engine_create example_clock None False (Some 2) = Inr e0" "length (contents (en_io e1)) < 2 ^ 64"
    and run: "run_ops example_env [(example_clock, PutOp [1] [7, 8] UInt8 [2] [] []), (example_clock, FlushOp)] e0 = Some (Inr (), e1)"
    using example_flushed by blast
  have "last_write (history [(example_clock, PutOp [1] [7, 8] UInt8 [2] [] [])]) [1] None = Some (OwnedTensor_new UInt8 [2] [7, 8], [])"
    by (simp add: history_def)
  then obtain e2 e3 where "py_new example_env example_clock (Some (mb_file (en_io e1))) False (str ''w'') options None = Some (Inr e2)"
    "py_get example_env [1] e2 = Some (Inr (Some (tensor_dict (OwnedTensor_new UInt8 [2] [7, 8]))), e3)"
    using py_mode_w_keeps [OF example_env_ok e(1) [unfolded engine_create_def] _ example_history [of "[]"],
        of example_clock example_clock options None] example_storable e(2) run by fastforce
  then show ?thesis using e(1) run by blast
qed

end
