(* ===== verification/Platform.thy ===== *)
theory Platform
  imports Core_Types
begin

text \<open>
  The hardware abstractions that this build does not implement: the offload device of
  \<open>crates/tpx-accel/src\<close>, the graphics-card paths of \<open>crates/tpx-gpu/src\<close> and the huge-page pool of
  \<open>crates/tpx-io/src/hugepages.rs\<close>. Devices and the pool are unit structs.
\<close>

section \<open>Compression offload\<close>

datatype QatOffload = QatOffload

definition QatOffload_detect :: "QatOffload option" where
  "QatOffload_detect = None"

definition QatOffload_compress_block :: "QatOffload \<Rightarrow> bytes \<Rightarrow> bytes res" where
  "QatOffload_compress_block dev data = Inr data"

definition QatOffload_decompress_block :: "QatOffload \<Rightarrow> bytes \<Rightarrow> nat \<Rightarrow> bytes res" where
  "QatOffload_decompress_block dev data out_len = Inr data"

datatype CompressionPath = Cpu | Offload QatOffload

definition select_offload_or_cpu :: "bytes \<Rightarrow> QatOffload option \<Rightarrow> CompressionPath" where
  "select_offload_or_cpu sample qat = (case qat of Some dev \<Rightarrow> Offload dev | None \<Rightarrow> Cpu)"

text \<open>The paths of a block are lossless, and this build takes the processor.\<close>

lemma offload_lossless:
  "bindR (QatOffload_compress_block dev data) (\<lambda>c. QatOffload_decompress_block dev c (length data)) = Inr data"
  "select_offload_or_cpu sample QatOffload_detect = Cpu"
  by (simp_all add: QatOffload_compress_block_def QatOffload_decompress_block_def bindR_def
      select_offload_or_cpu_def QatOffload_detect_def)

section \<open>Huge pages\<close>

record huge_page_buffer =
  hp_data :: bytes

datatype HugePagePool = HugePagePool

definition HugePagePool_try_new :: "HugePagePool option" where
  "HugePagePool_try_new = Some HugePagePool"

definition HugePagePool_alloc :: "HugePagePool \<Rightarrow> nat \<Rightarrow> huge_page_buffer option" where
  "HugePagePool_alloc pool n = Some \<lparr>hp_data = replicate n 0\<rparr>"

lemma alloc_zeroed:
  "HugePagePool_alloc pool n = Some buf \<Longrightarrow> length (hp_data buf) = n \<and> set (hp_data buf) \<subseteq> {0}"
  by (auto simp: HugePagePool_alloc_def)

section \<open>Graphics cards\<close>

datatype GdsReader = GdsReader

definition GdsReader_detect :: "GdsReader option" where
  "GdsReader_detect = None"

definition GdsReader_read_to_vram :: "GdsReader \<Rightarrow> u64 \<Rightarrow> nat \<Rightarrow> u64 \<Rightarrow> unit res" where
  "GdsReader_read_to_vram dev off len dev_ptr =
     Inl (UnsupportedFeature ''GPUDirect Storage (nvidia-fs) not available'')"

definition GpuDecodeKernel_decode_chunk :: "bytes \<Rightarrow> bytes res" where
  "GpuDecodeKernel_decode_chunk data = Inl (UnsupportedFeature ''GPU decode kernel requires CUDA hardware'')"

end
