(* ===== verification/Spec2Isabelle.thy ===== *)
theory Spec2Isabelle
  imports File_Header Footer Chunk Attrs Filters Chimp128_Roundtrip Codec Auto_Select
    Version_Chain Content_Store Cdc Toc_Format Io_Mmap Art_Prefix Shard Engine_Listing Engine_Batch Engine_Compact Engine_Durable Database
    Cli Py_Binding Platform
begin

text \<open>
  Verification library of the TPX tensor archive, the Rust workspace under \<open>crates\<close>.

  \<^bold>\<open>The program.\<close> An archive is one file: a 48-byte header, compressed chunks, and checkpoints,
  each a table of contents followed by a 24-byte footer. A put cuts the data of a tensor into
  segments by content, looks every segment up in the content store by its 128-bit hash,
  compresses and appends the new ones as chunks, records the key in the radix tree and the
  version chain of its shard, and adds an entry to the table of contents. When enough bytes or
  time have passed, a checkpoint appends the table and a footer. Opening scans backward for
  the last footer, reads the table and rebuilds the shards. A deletion marks the entries of a
  key. Around the engine lie the database object with its one-line calls, the Python binding
  and the command line tool.

  \<^bold>\<open>Theories and sources.\<close> Definitions carry the names of the code.

    \<^item> \<open>TPX_Prelude\<close>, \<open>Cursor\<close>, \<open>Key_Map\<close>: machine types, error propagation, little-endian
      readers and writers, and the contract of a keyed store.
    \<^item> \<open>Core_Types\<close>, \<open>File_Header\<close>, \<open>Footer\<close>, \<open>Chunk\<close>, \<open>Attrs\<close>: the crate \<open>tpx-core\<close>, one theory per
      file (\<open>types\<close>, \<open>header\<close>, \<open>footer\<close>, \<open>chunk\<close>, \<open>attrs\<close>).
    \<^item> \<open>Byte_Shuffle\<close>, \<open>Bit_Shuffle\<close>, \<open>Delta_ZigZag\<close>, \<open>Filters\<close>: the crate \<open>tpx-filter\<close>.
    \<^item> \<open>Chimp128_Codec\<close>, \<open>Chimp128_Roundtrip\<close>, \<open>Codec\<close>, \<open>Auto_Select\<close>: the crate \<open>tpx-codec\<close>, with the
      bit-level float codec, the codec trait and the choice of codec and filter from a sample.
    \<^item> \<open>Cdc\<close>, \<open>Content_Store\<close>: the crate \<open>tpx-dedup\<close>. \<open>Version_Chain\<close>: the crate \<open>tpx-version\<close>.
    \<^item> \<open>Art\<close>, \<open>Art_Lookup\<close>, \<open>Art_Remove\<close>, \<open>Art_Prefix\<close>, \<open>Range_Index\<close>, \<open>Toc\<close>, \<open>Toc_Format\<close>: the crate
      \<open>tpx-index\<close>, with the radix tree, the range filter, the table of contents and its bytes.
    \<^item> \<open>Io_Mmap\<close>: the buffered file of \<open>tpx-io\<close>. \<open>Platform\<close>: the stubs of \<open>tpx-accel\<close>, \<open>tpx-gpu\<close>
      and the huge-page pool.
    \<^item> \<open>Shard\<close>: routing, shards and the checkpoint coordinator of \<open>tpx-shard\<close>.
      \<open>Engine_State\<close> (creating and opening) and \<open>Engine\<close> (every other call): \<open>engine.rs\<close>.
    \<^item> \<open>Database\<close>: the crate \<open>tpx-engine\<close>. \<open>Cli\<close>: \<open>tpx-cli\<close>. \<open>Py_Binding\<close>: \<open>tpx-py\<close>.

  The engine's state is the record \<open>engine\<close> (mode, shards, storage, header, table, content
  store, coordinator, closed flag). A call is a function from the state to
  \<open>(error + result) \<times> state\<close>, because effects before an error stay; it is \<open>None\<close> where the code
  panics. Clock readings are arguments (\<open>clock\<close>), the path is the file's contents.

  \<^bold>\<open>What the lemmas show.\<close>

    \<^item> Formats: headers, footers, attributes, chunks and the table survive writing and reading,
      readers accept nothing else, and the backward scan finds the last checkpoint behind torn
      bytes. Fields too narrow for a value are shown where they cut it.
    \<^item> Codecs: every filter and codec gives the block back; the float codec is followed bit by bit
      (\<open>Chimp128_Roundtrip\<close>), and loses the tail of a block of partial words.
    \<^item> Indexes: the radix tree is a map (structural invariant by rule induction, \<open>art_wf\<close>), for
      insertions over all keys and for removals over keys of at most sixteen different bytes,
      below the size at which a node reuses a slot wrongly; the table of contents is a map.
    \<^item> Storage: appended bytes are found again under any later appends, reads and syncs (\<open>append_store\<close>).
    \<^item> Engine, in layers. \<open>Engine_Read\<close> says what a stored chunk decodes to on the logical contents
      of the file; \<open>Engine_Put\<close> proves the invariant \<open>store_ok\<close> of store and table and the relation
      \<open>put_outcome\<close>; \<open>Engine_History\<close> defines \<open>engine_inv\<close>, the abstract store \<open>engine_abs\<close> and
      histories of calls (\<open>history_run\<close>), and proves that the engine refines a map from keys to
      tensors, with integrity and deduplication as further results.
      \<open>Engine_Batch\<close> reduces a batch to its puts, \<open>Engine_Listing\<close> does reads of many keys,
      \<open>Engine_Versions\<close> version numbers, \<open>Engine_Reopen\<close> opening after a crash,
      \<open>Engine_Durable\<close> which calls of a history a crash can lose and when each becomes durable,
      \<open>Engine_Compact\<close> and \<open>Compact_Opened\<close> compaction in the same and in a later session.
    \<^item> Around it: one-line saving and loading, the compaction and verification commands, and the
      type codes and open modes of the Python binding.

  The interfaces are locales: \<open>key_map\<close>, \<open>block_filter\<close>, \<open>block_codec\<close> and \<open>chunk_pipeline\<close>,
  \<open>chunk_index\<close>, \<open>append_store\<close>, \<open>insert_class\<close>, \<open>remove_class\<close>, \<open>engine_index\<close> and
  \<open>engine_index_del\<close>, each interpreted on the definitions of the component that provides it.

  \<^bold>\<open>Hypotheses and bounds.\<close> \<open>env_ok\<close> is what the engine relies on of foreign crates: LZ4 and
  zstd invert themselves, and LZ4 at most doubles a block plus 64 bytes. The content hash does
  not collide on the set \<open>U\<close> of segments in play, and the key hash not on the set \<open>K\<close> of keys.
  The archive stays below 2^64 bytes and a history below 2^32 calls, the widths of offsets and
  of the entry count. Histories that delete use keys over at most sixteen different bytes. A
  file that is created over has a length that is a multiple of 4096, since the scan visits only
  such boundaries. There is no fuel: loops that are not structural have termination proofs
  (chunking, the footer scan), or are recursive in a bound of the code, such as the depth of the key
  in the radix tree.

  \<^bold>\<open>Where code and intent part.\<close> Theorems exhibit the defects: a deleted version that becomes visible
  again, compaction that loses tensors of the running session, slots of a radix node that are
  reused, attribute keys cut at 255 bytes, a count of chunks that wraps at 65536, truncation of
  buffered bytes, a range filter that denies added keys, an unchecked footer checksum, and mode "w" of the binding, which does not overwrite.

  \<^bold>\<open>Not modelled.\<close> The benchmark harness (\<open>benchmarks\<close>) and the tests, which only call the
  workspace; the Python package (\<open>tpx/__init__.py\<close>), whose wrappers around the binding have some
  logic of their own, such as entropy estimates, a prefetch controller and a spline predictor; argument parsing and the layout of printed lines; failures of the operating
  system other than a missing file, a held lock and a read beyond the end; interleavings of
  threads inside a call, where locks make each step atomic and the scoped threads of a batch only read.
  Entropy and the printed quotient of sizes are real numbers where the code uses \<open>f64\<close>.
\<close>

end
